(* ===== verification/Kernel_Prelude.thy ===== *)
theory Kernel_Prelude
  imports Main "HOL-Library.Word"
begin

unbundle bit_operations_syntax

text \<open>
  Shared vocabulary of the development: the C integer types of the m68k target, the
  conversions the compiler inserts when a value is stored into a narrower type, the
  error numbers of \<^verbatim>\<open>include/errno.h\<close>, the alignment macros of
  \<^verbatim>\<open>include/kernel/utils/macros.h\<close>, and the generic lemmas on lists that several
  components use.

  Conventions. On the target \<^verbatim>\<open>short\<close> has 16 bits, \<^verbatim>\<open>int\<close>, \<^verbatim>\<open>long\<close>, \<^verbatim>\<open>size_t\<close> and
  pointers have 32. A signed C value is an \<^typ>\<open>int\<close> and each store into a \<^verbatim>\<open>short\<close> or
  an \<^verbatim>\<open>int\<close> that can leave the range goes through \<open>to_short\<close> or \<open>to_int\<close>. An unsigned
  value is either a \<^typ>\<open>32 word\<close> (where bits matter) or a \<^typ>\<open>nat\<close> below \<open>2 ^ 32\<close>, whose
  subtraction and addition are \<open>sub32\<close> and \<open>add32\<close>.
\<close>

section \<open>Machine integers\<close>

type_synonym u8 = "8 word"
type_synonym u16 = "16 word"
type_synonym u32 = "32 word"
type_synonym u64 = "64 word"

named_theorems c_arith \<open>elimination of C conversions on values that are in range\<close>
named_theorems errno_simps \<open>the values of the error numbers\<close>

definition to_short :: "int \<Rightarrow> int" where
  "to_short i = signed_take_bit 15 i"

definition to_int :: "int \<Rightarrow> int" where
  "to_int i = signed_take_bit 31 i"

definition to_size :: "int \<Rightarrow> nat" where
  "to_size i = nat (i mod 4294967296)"

definition add32 :: "nat \<Rightarrow> nat \<Rightarrow> nat" where
  "add32 a b = (a + b) mod 4294967296"

definition sub32 :: "nat \<Rightarrow> nat \<Rightarrow> nat" where
  "sub32 a b = to_size (int a - int b)"

lemma to_short_id [c_arith]: "- 32768 \<le> i \<Longrightarrow> i < 32768 \<Longrightarrow> to_short i = i"
  by (simp add: to_short_def signed_take_bit_int_eq_self)

lemma to_int_id [c_arith]: "- 2147483648 \<le> i \<Longrightarrow> i < 2147483648 \<Longrightarrow> to_int i = i"
  by (simp add: to_int_def signed_take_bit_int_eq_self)

lemma to_short_range: "- 32768 \<le> to_short i \<and> to_short i < 32768"
  using signed_take_bit_int_greater_eq_minus_exp [of 15 i] signed_take_bit_int_less_exp [of 15 i]
  by (simp add: to_short_def)

lemma add32_id [c_arith]: "a + b < 4294967296 \<Longrightarrow> add32 a b = a + b"
  by (simp add: add32_def)

lemma sub32_id [c_arith]: "b \<le> a \<Longrightarrow> a < 4294967296 \<Longrightarrow> sub32 a b = a - b"
  by (simp add: sub32_def to_size_def nat_diff_distrib)

lemma sub32_wrap [c_arith]:
  "a < b \<Longrightarrow> b < 4294967296 \<Longrightarrow> sub32 a b = 4294967296 + a - b"
proof -
  assume ab: "a < b" and b: "b < 4294967296"
  have "(int a - int b) mod 4294967296 = (int a - int b + 4294967296) mod 4294967296"
    by simp
  also have "\<dots> = int a - int b + 4294967296"
    using ab b by (intro mod_pos_pos_trivial) auto
  finally show ?thesis using ab b by (simp add: sub32_def to_size_def)
qed

lemma to_size_of_nat [c_arith]: "n < 4294967296 \<Longrightarrow> to_size (int n) = n"
  by (simp add: to_size_def)

lemma to_int_of_nat [c_arith]: "n < 2147483648 \<Longrightarrow> to_int (int n) = int n"
  by (simp add: to_int_id)

lemma add32_less [simp]: "add32 a b < 4294967296"
  by (simp add: add32_def)

lemma sub32_less [simp]: "sub32 a b < 4294967296"
  by (simp add: sub32_def to_size_def nat_less_iff)

text \<open>Adding back what was subtracted undoes the wrap-around.\<close>

lemma add32_sub32: "a < 4294967296 \<Longrightarrow> b < 4294967296 \<Longrightarrow> add32 (sub32 a b) b = a"
  by (cases "b \<le> a") (auto simp: c_arith add32_def)

lemma add32_sub32_0:
  assumes "b \<le> a" "a < 4294967296"
  shows "add32 a (sub32 0 b) = a - b"
proof (cases "b = 0")
  case False
  obtain d where d: "a = d + b" using assms(1) by (metis add.commute le_Suc_ex)
  have "add32 a (sub32 0 b) = (d + b + (4294967296 + 0 - b)) mod 4294967296"
    using False assms d by (simp add: add32_def sub32_wrap)
  also have "d + b + (4294967296 + 0 - b) = d + 4294967296" using assms by simp
  finally show ?thesis using assms d by simp
qed (use assms in \<open>simp add: add32_id sub32_id\<close>)

lemma add32_mod: "add32 (m mod 4294967296) n = (m + n) mod 4294967296"
  by (simp add: add32_def mod_simps)

lemma sub32_mod: "n \<le> m \<Longrightarrow> sub32 (m mod 4294967296) n = (m - n) mod 4294967296"
proof -
  assume "n \<le> m"
  have "(int (m mod 4294967296) - int n) mod 4294967296 = (int m - int n) mod 4294967296"
    by (simp add: zmod_int mod_simps)
  also have "\<dots> = int ((m - n) mod 4294967296)"
    using \<open>n \<le> m\<close> by (simp add: zmod_int of_nat_diff)
  finally show ?thesis by (simp only: sub32_def to_size_def nat_int)
qed

section \<open>Error numbers\<close>

definition EPERM :: int where [errno_simps]: "EPERM = -1"
definition ENOENT :: int where [errno_simps]: "ENOENT = -2"
definition ESRCH :: int where [errno_simps]: "ESRCH = -3"
definition EINTR :: int where [errno_simps]: "EINTR = -4"
definition EIO :: int where [errno_simps]: "EIO = -5"
definition ENXIO :: int where [errno_simps]: "ENXIO = -6"
definition ENOMEM :: int where [errno_simps]: "ENOMEM = -12"
definition EACCES :: int where [errno_simps]: "EACCES = -13"
definition EFAULT :: int where [errno_simps]: "EFAULT = -14"
definition EBUSY :: int where [errno_simps]: "EBUSY = -16"
definition EEXIST :: int where [errno_simps]: "EEXIST = -17"
definition EINVAL :: int where [errno_simps]: "EINVAL = -22"
definition ENFILE :: int where [errno_simps]: "ENFILE = -23"
definition EMFILE :: int where [errno_simps]: "EMFILE = -24"

section \<open>Alignment macros\<close>

definition align_up :: "u32 \<Rightarrow> u32 \<Rightarrow> u32" where
  "align_up v s = (v + (s - 1)) AND NOT (s - 1)"

definition align_down :: "u32 \<Rightarrow> u32 \<Rightarrow> u32" where
  "align_down v s = v AND NOT (s - 1)"

definition align_remainder :: "u32 \<Rightarrow> u32 \<Rightarrow> u32" where
  "align_remainder v s = v AND (s - 1)"

lemma align_split: "align_down v s + align_remainder v s = v"
proof -
  have "align_down v s OR align_remainder v s = v"
    by (rule bit_eqI) (auto simp: align_down_def align_remainder_def bit_simps)
  moreover have "align_down v s AND align_remainder v s = 0"
    by (rule bit_eqI) (auto simp: align_down_def align_remainder_def bit_simps)
  ultimately show ?thesis by (simp add: disjunctive_add_eq_or)
qed

lemma align_remainder_pow2:
  "align_remainder v (2 ^ k) = take_bit k v"
  by (simp only: align_remainder_def take_bit_eq_mask mask_eq_exp_minus_1)

lemma unat_align_remainder:
  "unat (align_remainder v (2 ^ k)) = unat v mod 2 ^ k"
proof -
  have "unat (take_bit k v) = take_bit k (unat v)"
    by (rule unsigned_take_bit_eq)
  then show ?thesis by (simp only: align_remainder_pow2 take_bit_eq_mod [of k "unat v"])
qed

lemma unat_align_down:
  "unat (align_down v (2 ^ k)) = unat v - unat v mod 2 ^ k"
proof -
  have "align_down v (2 ^ k) = v - align_remainder v (2 ^ k)"
    using align_split [of v "2 ^ k"] by (simp add: algebra_simps eq_diff_eq)
  moreover have "align_remainder v (2 ^ k) \<le> v"
    by (simp add: word_le_nat_alt unat_align_remainder)
  ultimately show ?thesis
    by (simp add: unat_sub unat_align_remainder)
qed

section \<open>Lists\<close>

lemma nth_append_mid: "i = length xs \<Longrightarrow> (xs @ y # ys) ! i = y"
  by simp

lemma take_drop_nth: "i < length xs \<Longrightarrow> drop i xs = xs ! i # drop (Suc i) xs"
  by (rule Cons_nth_drop_Suc [symmetric])

text \<open>
  Overwriting \<open>length ys\<close> cells from index \<open>i\<close> on, which is what \<^verbatim>\<open>memcpy\<close> into an array
  does.
\<close>

definition overwrite :: "nat \<Rightarrow> 'a list \<Rightarrow> 'a list \<Rightarrow> 'a list" where
  "overwrite i ys xs = take i xs @ ys @ drop (i + length ys) xs"

lemma length_overwrite [simp]: "i + length ys \<le> length xs \<Longrightarrow> length (overwrite i ys xs) = length xs"
  by (simp add: overwrite_def)

lemma overwrite_Nil [simp]: "overwrite i [] xs = xs"
  by (simp add: overwrite_def)

lemma nth_overwrite:
  assumes "i + length ys \<le> length xs" "k < length xs"
  shows "overwrite i ys xs ! k = (if i \<le> k \<and> k < i + length ys then ys ! (k - i) else xs ! k)"
  using assms by (auto simp: overwrite_def nth_append)

lemma overwrite_Cons:
  "i < length xs \<Longrightarrow> overwrite i (y # ys) xs = overwrite (Suc i) ys (xs[i := y])"
  by (simp add: overwrite_def take_Suc_conv_app_nth upd_conv_take_nth_drop add.commute)

lemma take_overwrite: "i \<le> length xs \<Longrightarrow> take i (overwrite i ys xs) = take i xs"
  by (simp add: overwrite_def)

lemma drop_overwrite:
  "i \<le> length xs \<Longrightarrow> drop (i + length ys) (overwrite i ys xs) = drop (i + length ys) xs"
  by (simp add: overwrite_def)

lemma overwrite_get:
  "i + length ys \<le> length xs \<Longrightarrow> take (length ys) (drop i (overwrite i ys xs)) = ys"
  by (simp add: overwrite_def)

lemma overwrite_append1:
  "i + length ys \<le> length xs \<Longrightarrow> overwrite i ys (xs @ zs) = overwrite i ys xs @ zs"
  by (simp add: overwrite_def)

lemma overwrite_append2:
  "overwrite (length xs + i) ys (xs @ zs) = xs @ overwrite i ys zs"
  by (simp add: overwrite_def)

lemma overwrite_overwrite:
  "i + length ys \<le> length xs \<Longrightarrow>
     overwrite (i + length ys) zs (overwrite i ys xs) = overwrite i (ys @ zs) xs"
  by (simp add: overwrite_def ac_simps)

end
