(* ===== verification/Iovec.thy ===== *)
theory Iovec
  imports Kernel_Prelude
begin

text \<open>
  Scatter/gather buffers and their iterators: \<^verbatim>\<open>include/kernel/utils/iovec.h\<close> and
  \<^verbatim>\<open>src/kernel/utils/iovec.c\<close>. A \<^verbatim>\<open>struct kvec\<close> is the memory its pointer designates (a
  byte list) with its size; an iterator is a position in a sequence of such segments or in a
  buffer of user memory. Copies to and from user memory are modelled as copies to and from
  the user buffer; the page faults they can raise are handled by the MMU code before the
  access completes and are not visible here.

  Sizes are \<^verbatim>\<open>size_t\<close>, natural numbers below \<open>2 ^ 32\<close>; \<open>add32\<close> and \<open>sub32\<close> mark the places
  where the C expression can wrap around.

  The lemmas show that a segmented iterator behaves as a cursor into the concatenation of
  its segments, for reading, writing, seeking and pushing back.
\<close>

section \<open>Segments and iterators\<close>

record kvec =
  kv_buf :: "u8 list"
  kv_bytes :: nat

datatype iovec_iter_type = ITER_USER_BUF | ITER_KVEC | ITER_OTHER

datatype whence = SEEK_SET | SEEK_CUR | SEEK_END | SEEK_OTHER

record iovec_iter =
  it_type :: iovec_iter_type
  it_length :: nat
  it_seg_start :: nat
  it_seg_offset :: nat
  it_cur_seg :: nat
  it_num_segs :: nat
  it_user_buf :: "u8 list"
  it_segs :: "kvec list"

lemma kv_bytes_update [simp]:
  "kv_bytes (xs[i := (xs ! i)\<lparr>kv_buf := b\<rparr>] ! j) = kv_bytes (xs ! j)"
  by (cases "i < length xs") (auto simp: nth_list_update list_update_beyond)

text \<open>The loop of \<^verbatim>\<open>memcpy_into_kvec\<close>; \<open>si\<close> is \<^verbatim>\<open>src_index\<close>.\<close>

function memcpy_into_kvec_loop ::
    "nat \<Rightarrow> u8 list \<Rightarrow> nat \<Rightarrow> kvec list \<Rightarrow> nat \<Rightarrow> nat \<Rightarrow> nat \<Rightarrow> kvec list \<times> nat" where
  "memcpy_into_kvec_loop num_segs src nbytes kvec cur_seg seg_offset si =
     (if seg_offset \<ge> kv_bytes (kvec ! cur_seg) \<and> cur_seg + 1 \<ge> num_segs then (kvec, si)
      else
        let (cur, off) = (if seg_offset \<ge> kv_bytes (kvec ! cur_seg) then (cur_seg + 1, 0)
                          else (cur_seg, seg_offset));
            buf_size = kv_bytes (kvec ! cur);
            chunk_size = (if nbytes - si < buf_size - off then nbytes - si else buf_size - off);
            kvec' = kvec[cur := (kvec ! cur)\<lparr>kv_buf :=
                       overwrite off (take chunk_size (drop si src)) (kv_buf (kvec ! cur))\<rparr>]
        in if si + chunk_size \<ge> nbytes then (kvec', si + chunk_size)
           else memcpy_into_kvec_loop num_segs src nbytes kvec' cur (off + chunk_size) (si + chunk_size))"
  by pat_completeness auto
termination
  by (relation "measure (\<lambda>(n, src, nb, kv, cur, off, si).
        2 * (n - cur) + (if off \<ge> kv_bytes (kv ! cur) then 0 else 1))")
    (auto split: if_splits)

text \<open>The loop of \<^verbatim>\<open>memcpy_out_of_kvec\<close>; \<open>di\<close> is \<^verbatim>\<open>dest_index\<close>.\<close>

function memcpy_out_of_kvec_loop ::
    "nat \<Rightarrow> kvec list \<Rightarrow> nat \<Rightarrow> u8 list \<Rightarrow> nat \<Rightarrow> nat \<Rightarrow> nat \<Rightarrow> u8 list \<times> nat" where
  "memcpy_out_of_kvec_loop num_segs kvec nbytes dest cur_seg seg_offset di =
     (if seg_offset \<ge> kv_bytes (kvec ! cur_seg) \<and> cur_seg + 1 \<ge> num_segs then (dest, di)
      else
        let (cur, off) = (if seg_offset \<ge> kv_bytes (kvec ! cur_seg) then (cur_seg + 1, 0)
                          else (cur_seg, seg_offset));
            buf_size = kv_bytes (kvec ! cur);
            chunk_size = (if nbytes - di < buf_size - off then nbytes - di else buf_size - off);
            dest' = overwrite di (take chunk_size (drop off (kv_buf (kvec ! cur)))) dest
        in if di + chunk_size \<ge> nbytes then (dest', di + chunk_size)
           else memcpy_out_of_kvec_loop num_segs kvec nbytes dest' cur (off + chunk_size) (di + chunk_size))"
  by pat_completeness auto

termination
  by (relation "measure (\<lambda>(n, kv, nb, dest, cur, off, di).
        2 * (n - cur) + (if off \<ge> kv_bytes (kv ! cur) then 0 else 1))")
    (auto split: if_splits)

declare memcpy_into_kvec_loop.simps [simp del] memcpy_out_of_kvec_loop.simps [simp del]

definition memcpy_into_kvec :: "kvec list \<Rightarrow> nat \<Rightarrow> nat \<Rightarrow> u8 list \<Rightarrow> nat \<Rightarrow> kvec list \<times> int" where
  "memcpy_into_kvec kvec num_segs seg_offset src nbytes =
     (let (kvec', si) = memcpy_into_kvec_loop num_segs src nbytes kvec 0 seg_offset 0
      in (kvec', to_int (int si)))"

definition memcpy_out_of_kvec :: "kvec list \<Rightarrow> nat \<Rightarrow> nat \<Rightarrow> u8 list \<Rightarrow> nat \<Rightarrow> u8 list \<times> int" where
  "memcpy_out_of_kvec kvec num_segs seg_offset dest nbytes =
     (let (dest', di) = memcpy_out_of_kvec_loop num_segs kvec nbytes dest 0 seg_offset 0
      in (dest', to_int (int di)))"

text \<open>
  The string copies. The two nested loops are one recursion here: the inner loop ends when the
  segment is used up, and the outer loop then goes on with the next one. Reading \<^verbatim>\<open>src\<close> behind its
  end, and terminating a string in a segment without bytes, are out of bounds and give \<open>None\<close>.
\<close>

definition kvec_put :: "kvec list \<Rightarrow> nat \<Rightarrow> nat \<Rightarrow> u8 \<Rightarrow> kvec list" where
  "kvec_put kvec i off b = kvec[i := (kvec ! i)\<lparr>kv_buf := (kv_buf (kvec ! i))[off := b]\<rparr>]"

definition kvec_terminate :: "kvec list \<Rightarrow> nat \<Rightarrow> kvec list option" where
  "kvec_terminate kvec num_segs =
     (if num_segs = 0 \<or> kv_bytes (kvec ! (num_segs - 1)) = 0 then None
      else Some (kvec_put kvec (num_segs - 1) (kv_bytes (kvec ! (num_segs - 1)) - 1) 0))"

lemma kv_bytes_put [simp]: "kv_bytes (kvec_put kv i off b ! j) = kv_bytes (kv ! j)"
  by (simp add: kvec_put_def)

function strncpy_into_kvec_loop ::
    "nat \<Rightarrow> u8 list \<Rightarrow> nat \<Rightarrow> kvec list \<Rightarrow> nat \<Rightarrow> nat \<Rightarrow> nat \<Rightarrow> (kvec list \<times> int) option" where
  "strncpy_into_kvec_loop num_segs src mx kvec cur_seg seg_offset si =
     (if cur_seg < num_segs then
        if seg_offset \<ge> kv_bytes (kvec ! cur_seg)
        then strncpy_into_kvec_loop num_segs src mx kvec (cur_seg + 1) 0 si
        else if si \<ge> mx then Some (kvec_put kvec cur_seg seg_offset 0, to_int (int si))
        else if si \<ge> length src then None
        else if src ! si = 0 then Some (kvec_put kvec cur_seg seg_offset (src ! si), to_int (int si))
        else strncpy_into_kvec_loop num_segs src mx (kvec_put kvec cur_seg seg_offset (src ! si))
               cur_seg (seg_offset + 1) (si + 1)
      else map_option (\<lambda>kvec'. (kvec', to_int (int si))) (kvec_terminate kvec num_segs))"
  by pat_completeness auto

termination
  by (relation "measures [\<lambda>(n, src, m, kv, cur, off, si). n - cur,
        \<lambda>(n, src, m, kv, cur, off, si). kv_bytes (kv ! cur) - off]") auto

function strncpy_out_of_kvec_loop ::
    "nat \<Rightarrow> nat \<Rightarrow> kvec list \<Rightarrow> u8 list \<Rightarrow> nat \<Rightarrow> nat \<Rightarrow> nat \<Rightarrow> (kvec list \<times> u8 list \<times> int) option" where
  "strncpy_out_of_kvec_loop num_segs mx kvec dest cur_seg seg_offset di =
     (if cur_seg < num_segs then
        if seg_offset \<ge> kv_bytes (kvec ! cur_seg)
        then strncpy_out_of_kvec_loop num_segs mx kvec dest (cur_seg + 1) 0 di
        else if di \<ge> mx then
          (if di = 0 \<or> di > length dest then None
           else Some (kvec, dest[di - 1 := 0], to_int (int di)))
        else if di \<ge> length dest \<or> seg_offset \<ge> length (kv_buf (kvec ! cur_seg)) then None
        else
          let dest' = dest[di := kv_buf (kvec ! cur_seg) ! seg_offset]
          in if dest' ! di = 0 then Some (kvec, dest', to_int (int di))
             else strncpy_out_of_kvec_loop num_segs mx kvec dest' cur_seg (seg_offset + 1) (di + 1)
      else map_option (\<lambda>kvec'. (kvec', dest, to_int (int di))) (kvec_terminate kvec num_segs))"
  by pat_completeness auto

termination
  by (relation "measures [\<lambda>(n, m, kv, dest, cur, off, si). n - cur,
        \<lambda>(n, m, kv, dest, cur, off, si). kv_bytes (kv ! cur) - off]") auto

declare strncpy_into_kvec_loop.simps [simp del] strncpy_out_of_kvec_loop.simps [simp del]

definition strncpy_into_kvec ::
    "kvec list \<Rightarrow> nat \<Rightarrow> nat \<Rightarrow> u8 list \<Rightarrow> nat \<Rightarrow> (kvec list \<times> int) option" where
  "strncpy_into_kvec kvec num_segs seg_offset src mx =
     strncpy_into_kvec_loop num_segs src mx kvec 0 seg_offset 0"

definition strncpy_out_of_kvec ::
    "kvec list \<Rightarrow> nat \<Rightarrow> nat \<Rightarrow> u8 list \<Rightarrow> nat \<Rightarrow> (kvec list \<times> u8 list \<times> int) option" where
  "strncpy_out_of_kvec kvec num_segs seg_offset dest mx =
     strncpy_out_of_kvec_loop num_segs mx kvec dest 0 seg_offset 0"

section \<open>Iterator operations\<close>

definition iovec_iter_init_user_buf :: "u8 list \<Rightarrow> nat \<Rightarrow> iovec_iter" where
  "iovec_iter_init_user_buf buf nbytes =
     \<lparr>it_type = ITER_USER_BUF, it_length = nbytes, it_seg_start = 0, it_seg_offset = 0,
      it_cur_seg = 0, it_num_segs = 1, it_user_buf = buf, it_segs = []\<rparr>"

definition iovec_iter_init_simple_kvec :: "u8 list \<Rightarrow> nat \<Rightarrow> iovec_iter" where
  "iovec_iter_init_simple_kvec buf nbytes =
     \<lparr>it_type = ITER_KVEC, it_length = nbytes, it_seg_start = 0, it_seg_offset = 0,
      it_cur_seg = 0, it_num_segs = 1, it_user_buf = [],
      it_segs = [\<lparr>kv_buf = buf, kv_bytes = nbytes\<rparr>]\<rparr>"

definition iovec_iter_init_kvec :: "kvec list \<Rightarrow> nat \<Rightarrow> iovec_iter" where
  "iovec_iter_init_kvec segs num_segs =
     \<lparr>it_type = ITER_KVEC,
      it_length = foldl (\<lambda>len i. add32 len (kv_bytes (segs ! i))) 0 [0..<num_segs],
      it_seg_start = 0, it_seg_offset = 0, it_cur_seg = 0, it_num_segs = num_segs,
      it_user_buf = [], it_segs = segs\<rparr>"

definition iovec_iter_remaining :: "iovec_iter \<Rightarrow> nat" where
  "iovec_iter_remaining it = sub32 (sub32 (it_length it) (it_seg_start it)) (it_seg_offset it)"

text \<open>The two loops of \<^verbatim>\<open>iovec_iter_seek\<close>: both return \<^verbatim>\<open>cur_seg\<close> and \<^verbatim>\<open>seg_start\<close>.\<close>

function seek_advance :: "kvec list \<Rightarrow> nat \<Rightarrow> nat \<Rightarrow> nat \<Rightarrow> nat \<Rightarrow> nat \<times> nat" where
  "seek_advance segs num_segs offset cur start =
     (if cur < num_segs - 1 \<and> offset \<ge> add32 start (kv_bytes (segs ! cur))
      then seek_advance segs num_segs offset (cur + 1) (add32 start (kv_bytes (segs ! cur)))
      else (cur, start))"
  by pat_completeness auto
termination
  by (relation "measure (\<lambda>(segs, n, off, cur, start). n - cur)") auto

declare seek_advance.simps [simp del]

fun seek_rewind :: "kvec list \<Rightarrow> nat \<Rightarrow> nat \<Rightarrow> nat \<Rightarrow> nat \<times> nat" where
  "seek_rewind segs offset 0 start = (0, start)"
| "seek_rewind segs offset (Suc cur) start =
     (if offset < start then seek_rewind segs offset cur (sub32 start (kv_bytes (segs ! cur)))
      else (Suc cur, start))"

definition iovec_iter_seek :: "iovec_iter \<Rightarrow> nat \<Rightarrow> whence \<Rightarrow> iovec_iter \<times> nat" where
  "iovec_iter_seek it offset0 w =
     (if w = SEEK_OTHER then (it, to_size EINVAL)
      else
        let offset1 = (case w of
              SEEK_CUR \<Rightarrow> add32 (add32 (it_seg_start it) (it_seg_offset it)) offset0
            | SEEK_END \<Rightarrow> add32 (it_length it) offset0
            | _ \<Rightarrow> offset0);
            offset = (if offset1 > it_length it then it_length it else offset1);
            it' = (if it_type it = ITER_KVEC then
                     (let (cur, start) =
                        (if offset \<ge> add32 (it_seg_start it) (it_seg_offset it)
                         then seek_advance (it_segs it) (it_num_segs it) offset (it_cur_seg it) (it_seg_start it)
                         else seek_rewind (it_segs it) offset (it_cur_seg it) (it_seg_start it))
                      in it\<lparr>it_cur_seg := cur, it_seg_start := start,
                            it_seg_offset := sub32 offset start\<rparr>)
                   else it\<lparr>it_seg_offset := offset\<rparr>)
        in (it', add32 (it_seg_start it') (it_seg_offset it')))"

text \<open>
  The error branch after the seek (\<^verbatim>\<open>error < 0\<close>) reads the returned position as an \<^verbatim>\<open>int\<close>.
\<close>

definition memcpy_into_iter :: "iovec_iter \<Rightarrow> u8 list \<Rightarrow> nat \<Rightarrow> iovec_iter \<times> int" where
  "memcpy_into_iter it buf nbytes =
     (let rem = sub32 (sub32 (it_length it) (it_seg_start it)) (it_seg_offset it);
          bytes = to_int (int (if nbytes < rem then nbytes else rem))
      in case it_type it of
           ITER_USER_BUF \<Rightarrow>
             (it\<lparr>it_user_buf := overwrite (it_seg_offset it) (take (to_size bytes) buf) (it_user_buf it),
                 it_seg_offset := add32 (it_seg_offset it) (to_size bytes)\<rparr>, bytes)
         | ITER_KVEC \<Rightarrow>
             (let (tl_segs, bytes) = memcpy_into_kvec (drop (it_cur_seg it) (it_segs it))
                     (it_num_segs it - it_cur_seg it) (it_seg_offset it) buf (to_size bytes);
                  it1 = it\<lparr>it_segs := take (it_cur_seg it) (it_segs it) @ tl_segs\<rparr>
              in if bytes > 0 then
                   (let (it2, error) = iovec_iter_seek it1 (to_size bytes) SEEK_CUR
                    in if to_int (int error) < 0 then (it2, to_int (int error)) else (it2, bytes))
                 else (it1, bytes))
         | ITER_OTHER \<Rightarrow> (it, EINVAL))"

definition memcpy_out_of_iter ::
    "iovec_iter \<Rightarrow> u8 list \<Rightarrow> nat \<Rightarrow> iovec_iter \<times> u8 list \<times> int" where
  "memcpy_out_of_iter it buf nbytes =
     (let rem = sub32 (sub32 (it_length it) (it_seg_start it)) (it_seg_offset it);
          bytes = to_int (int (if nbytes < rem then nbytes else rem))
      in case it_type it of
           ITER_USER_BUF \<Rightarrow>
             (it\<lparr>it_seg_offset := add32 (it_seg_offset it) (to_size bytes)\<rparr>,
              overwrite 0 (take (to_size bytes) (drop (it_seg_offset it) (it_user_buf it))) buf, bytes)
         | ITER_KVEC \<Rightarrow>
             (let (buf', bytes) = memcpy_out_of_kvec (drop (it_cur_seg it) (it_segs it))
                     (it_num_segs it - it_cur_seg it) (it_seg_offset it) buf (to_size bytes)
              in if bytes > 0 then
                   (let (it2, error) = iovec_iter_seek it (to_size bytes) SEEK_CUR
                    in if to_int (int error) < 0 then (it2, buf', to_int (int error))
                       else (it2, buf', bytes))
                 else (it, buf', bytes))
         | ITER_OTHER \<Rightarrow> (it, buf, EINVAL))"

text \<open>
  \<^verbatim>\<open>iovec_iter_push_back\<close> seeks back by \<open>nb\<close> bytes (the argument \<^verbatim>\<open>-size\<close> is an unsigned
  number), writes there and restores the position it wrote at.
\<close>

definition iovec_iter_push_back :: "iovec_iter \<Rightarrow> u8 list \<Rightarrow> nat \<Rightarrow> iovec_iter \<times> nat" where
  "iovec_iter_push_back it value nb =
     (let (it1, error) = iovec_iter_seek it (sub32 0 nb) SEEK_CUR
      in if to_int (int error) < 0 then (it1, add32 (it_seg_start it1) (it_seg_offset it1))
         else
           let (it2, _) = memcpy_into_iter it1 value nb;
               it3 = it2\<lparr>it_cur_seg := it_cur_seg it1, it_seg_start := it_seg_start it1,
                         it_seg_offset := it_seg_offset it1\<rparr>
           in (it3, add32 (it_seg_start it3) (it_seg_offset it3)))"

text \<open>
  The single-byte accessors. An access to a segment beyond the array is undefined behaviour
  in C and is the value \<open>None\<close> here.
\<close>

definition copy_uint8_into_iter :: "iovec_iter \<Rightarrow> u8 \<Rightarrow> (iovec_iter \<times> int) option" where
  "copy_uint8_into_iter it byte =
     (case it_type it of
        ITER_USER_BUF \<Rightarrow>
          if it_seg_offset it < length (it_user_buf it) then
            Some (it\<lparr>it_user_buf := (it_user_buf it)[it_seg_offset it := byte],
                     it_seg_offset := it_seg_offset it + 1\<rparr>, 1)
          else None
      | ITER_KVEC \<Rightarrow>
          if it_cur_seg it > it_num_segs it then Some (it, 0)
          else if it_cur_seg it \<ge> length (it_segs it)
               \<or> it_seg_offset it \<ge> length (kv_buf (it_segs it ! it_cur_seg it)) then None
          else
            let seg = it_segs it ! it_cur_seg it;
                it1 = it\<lparr>it_segs := (it_segs it)[it_cur_seg it :=
                            seg\<lparr>kv_buf := (kv_buf seg)[it_seg_offset it := byte]\<rparr>],
                         it_seg_offset := it_seg_offset it + 1\<rparr>
            in Some (if it_seg_offset it1 \<ge> kv_bytes seg then
                       it1\<lparr>it_seg_start := add32 (it_seg_start it1) (kv_bytes seg),
                           it_seg_offset := 0, it_cur_seg := it_cur_seg it1 + 1\<rparr>
                     else it1, 1)
      | ITER_OTHER \<Rightarrow> Some (it, EINVAL))"

definition copy_uint8_out_of_iter :: "iovec_iter \<Rightarrow> (iovec_iter \<times> u8) option" where
  "copy_uint8_out_of_iter it =
     (case it_type it of
        ITER_USER_BUF \<Rightarrow>
          if it_seg_offset it < length (it_user_buf it) then
            Some (it\<lparr>it_seg_offset := it_seg_offset it + 1\<rparr>, it_user_buf it ! it_seg_offset it)
          else None
      | ITER_KVEC \<Rightarrow>
          if it_cur_seg it > it_num_segs it then Some (it, 0)
          else if it_cur_seg it \<ge> length (it_segs it)
               \<or> it_seg_offset it \<ge> length (kv_buf (it_segs it ! it_cur_seg it)) then None
          else
            let seg = it_segs it ! it_cur_seg it;
                byte = kv_buf seg ! it_seg_offset it;
                it1 = it\<lparr>it_seg_offset := it_seg_offset it + 1\<rparr>
            in Some (if it_seg_offset it1 \<ge> kv_bytes seg then
                       it1\<lparr>it_seg_start := add32 (it_seg_start it1) (kv_bytes seg),
                           it_seg_offset := 0, it_cur_seg := it_cur_seg it1 + 1\<rparr>
                     else it1, byte)
      | ITER_OTHER \<Rightarrow> Some (it, - 1))"


section \<open>Segments as one byte sequence\<close>

definition kvecs_wf :: "kvec list \<Rightarrow> bool" where
  "kvecs_wf kv \<longleftrightarrow> (\<forall>k \<in> set kv. length (kv_buf k) = kv_bytes k)"

definition kvecs_flat :: "kvec list \<Rightarrow> u8 list" where
  "kvecs_flat kv = concat (map kv_buf kv)"

definition kvecs_start :: "kvec list \<Rightarrow> nat \<Rightarrow> nat" where
  "kvecs_start kv i = sum_list (map kv_bytes (take i kv))"

lemma kvecs_flat_simps [simp]:
  "kvecs_flat [] = []"
  "kvecs_flat (k # ks) = kv_buf k @ kvecs_flat ks"
  "kvecs_flat (xs @ ys) = kvecs_flat xs @ kvecs_flat ys"
  by (simp_all add: kvecs_flat_def)

lemma kvecs_wf_simps [simp]:
  "kvecs_wf []"
  "kvecs_wf (k # ks) \<longleftrightarrow> length (kv_buf k) = kv_bytes k \<and> kvecs_wf ks"
  "kvecs_wf (xs @ ys) \<longleftrightarrow> kvecs_wf xs \<and> kvecs_wf ys"
  by (auto simp: kvecs_wf_def)

lemma kvecs_wf_conv_nth:
  "kvecs_wf kv \<longleftrightarrow> (\<forall>i < length kv. length (kv_buf (kv ! i)) = kv_bytes (kv ! i))"
  by (auto simp: kvecs_wf_def all_set_conv_all_nth)

lemma kvecs_wf_nth: "kvecs_wf kv \<Longrightarrow> i < length kv \<Longrightarrow> length (kv_buf (kv ! i)) = kv_bytes (kv ! i)"
  by (simp add: kvecs_wf_def)

lemma kvecs_wf_sub: "kvecs_wf kv \<Longrightarrow> kvecs_wf (take i kv)" "kvecs_wf kv \<Longrightarrow> kvecs_wf (drop i kv)"
  by (auto simp: kvecs_wf_def dest: in_set_takeD in_set_dropD)

lemma length_kvecs_flat: "kvecs_wf kv \<Longrightarrow> length (kvecs_flat kv) = sum_list (map kv_bytes kv)"
  by (induction kv) auto

lemma kvecs_start_0 [simp]: "kvecs_start kv 0 = 0"
  by (simp add: kvecs_start_def)

lemma kvecs_start_Suc: "i < length kv \<Longrightarrow> kvecs_start kv (Suc i) = kvecs_start kv i + kv_bytes (kv ! i)"
  by (simp add: kvecs_start_def take_Suc_conv_app_nth)

lemma kvecs_start_length: "kvecs_wf kv \<Longrightarrow> kvecs_start kv (length kv) = length (kvecs_flat kv)"
  by (simp add: kvecs_start_def length_kvecs_flat)

lemma kvecs_start_bytes: "map kv_bytes kv' = map kv_bytes kv \<Longrightarrow> kvecs_start kv' i = kvecs_start kv i"
  by (simp add: kvecs_start_def take_map [symmetric])

lemma kvecs_start_mono: "i \<le> j \<Longrightarrow> kvecs_start kv i \<le> kvecs_start kv j"
  using le_Suc_ex [of i j] by (auto simp: kvecs_start_def take_add)

lemma kvecs_bytes_update [simp]:
  "map kv_bytes (kv[i := (kv ! i)\<lparr>kv_buf := b\<rparr>]) = map kv_bytes kv"
  by (rule nth_equalityI) (simp_all add: nth_list_update)

text \<open>Where the bytes of segment \<open>i\<close> lie in the concatenation.\<close>

lemma kvecs_split:
  assumes "kvecs_wf kv" "i < length kv"
  shows "\<exists>A B. kvecs_flat kv = A @ kv_buf (kv ! i) @ B \<and> length A = kvecs_start kv i \<and>
           (\<forall>b. kvecs_flat (kv[i := (kv ! i)\<lparr>kv_buf := b\<rparr>]) = A @ b @ B)"
proof -
  let ?A = "kvecs_flat (take i kv)" and ?B = "kvecs_flat (drop (Suc i) kv)"
  have "kv = take i kv @ kv ! i # drop (Suc i) kv"
    using assms(2) by (rule id_take_nth_drop)
  then have "kvecs_flat kv = ?A @ kv_buf (kv ! i) @ ?B"
    by (metis kvecs_flat_simps(2,3))
  moreover have "length ?A = kvecs_start kv i"
    using kvecs_wf_sub(1) [OF assms(1)] by (simp add: length_kvecs_flat kvecs_start_def)
  moreover have "kvecs_flat (kv[i := (kv ! i)\<lparr>kv_buf := b\<rparr>]) = ?A @ b @ ?B" for b
    using assms(2) by (simp add: upd_conv_take_nth_drop)
  ultimately show ?thesis by blast
qed

lemma kvecs_flat_write:
  assumes "kvecs_wf kv" "i < length kv" "off + length ys \<le> kv_bytes (kv ! i)"
  shows "kvecs_flat (kv[i := (kv ! i)\<lparr>kv_buf := overwrite off ys (kv_buf (kv ! i))\<rparr>])
           = overwrite (kvecs_start kv i + off) ys (kvecs_flat kv)"
proof -
  obtain A B where "kvecs_flat kv = A @ kv_buf (kv ! i) @ B" "length A = kvecs_start kv i"
    and "\<And>b. kvecs_flat (kv[i := (kv ! i)\<lparr>kv_buf := b\<rparr>]) = A @ b @ B"
    using kvecs_split [OF assms(1,2)] by blast
  then show ?thesis
    using assms by (metis kvecs_wf_nth overwrite_append1 overwrite_append2)
qed

lemma kvecs_flat_read:
  assumes "kvecs_wf kv" "i < length kv" "off + n \<le> kv_bytes (kv ! i)"
  shows "take n (drop (kvecs_start kv i + off) (kvecs_flat kv)) = take n (drop off (kv_buf (kv ! i)))"
proof -
  obtain A B where "kvecs_flat kv = A @ kv_buf (kv ! i) @ B" "length A = kvecs_start kv i"
    using kvecs_split [OF assms(1,2)] by blast
  moreover have "length (kv_buf (kv ! i)) = kv_bytes (kv ! i)"
    using assms(1,2) by (rule kvecs_wf_nth)
  ultimately show ?thesis using assms(3) by simp
qed

lemma kvecs_wf_write:
  assumes "kvecs_wf kv" "i < length kv" "off + length ys \<le> kv_bytes (kv ! i)"
  shows "kvecs_wf (kv[i := (kv ! i)\<lparr>kv_buf := overwrite off ys (kv_buf (kv ! i))\<rparr>])"
  using assms by (auto simp: kvecs_wf_conv_nth nth_list_update)

lemma kvecs_seg_end:
  assumes "kvecs_wf kv" "i < length kv"
  shows "kvecs_start kv i + kv_bytes (kv ! i) \<le> length (kvecs_flat kv)"
  using kvecs_start_mono [of "Suc i" "length kv" kv] assms
  by (simp add: kvecs_start_Suc kvecs_start_length)


section \<open>Copying into and out of segments\<close>

text \<open>
  One pass of the copy loops, after the step to the next segment: the chunk is written at the
  position of the concatenation that the pair (segment, offset) denotes.
\<close>

lemma copy_chunk_join:
  assumes "i + c \<le> length F" "length (take c xs) = c"
  shows "overwrite (i + c) (take r (drop c xs)) (overwrite i (take c xs) F)
           = overwrite i (take (c + r) xs) F"
  using overwrite_overwrite [of i "take c xs" F "take r (drop c xs)"] assms by (simp add: take_add)

text \<open>
  The segment and offset a pass of the loop works on, and the number of bytes it copies.
\<close>

definition copy_seg :: "kvec list \<Rightarrow> nat \<Rightarrow> nat \<Rightarrow> nat" where
  "copy_seg kv cur off = (if off \<ge> kv_bytes (kv ! cur) then cur + 1 else cur)"

definition copy_off :: "kvec list \<Rightarrow> nat \<Rightarrow> nat \<Rightarrow> nat" where
  "copy_off kv cur off = (if off \<ge> kv_bytes (kv ! cur) then 0 else off)"

definition copy_len :: "kvec list \<Rightarrow> nat \<Rightarrow> nat \<Rightarrow> nat \<Rightarrow> nat" where
  "copy_len kv cur off left = min left (kv_bytes (kv ! copy_seg kv cur off) - copy_off kv cur off)"

definition copy_done :: "nat \<Rightarrow> kvec list \<Rightarrow> nat \<Rightarrow> nat \<Rightarrow> bool" where
  "copy_done n kv cur off \<longleftrightarrow> off \<ge> kv_bytes (kv ! cur) \<and> cur + 1 \<ge> n"

definition copy_measure :: "nat \<Rightarrow> kvec list \<Rightarrow> nat \<Rightarrow> nat \<Rightarrow> nat" where
  "copy_measure n kv cur off = 2 * (n - cur) + (if off \<ge> kv_bytes (kv ! cur) then 0 else 1)"

lemma copy_pass:
  assumes "kvecs_wf kv" "cur < length kv" "off \<le> kv_bytes (kv ! cur)"
    and "\<not> copy_done (length kv) kv cur off"
  shows "copy_seg kv cur off < length kv"
    and "copy_off kv cur off + copy_len kv cur off left \<le> kv_bytes (kv ! copy_seg kv cur off)"
    and "kvecs_start kv (copy_seg kv cur off) + copy_off kv cur off = kvecs_start kv cur + off"
    and "kvecs_start kv cur + off + copy_len kv cur off left \<le> length (kvecs_flat kv)"
    and "copy_len kv cur off left \<le> left"
proof -
  show seg: "copy_seg kv cur off < length kv"
    using assms by (auto simp: copy_seg_def copy_done_def)
  show len: "copy_off kv cur off + copy_len kv cur off left \<le> kv_bytes (kv ! copy_seg kv cur off)"
    by (auto simp: copy_len_def copy_off_def copy_seg_def)
  show start: "kvecs_start kv (copy_seg kv cur off) + copy_off kv cur off = kvecs_start kv cur + off"
    using assms by (auto simp: copy_seg_def copy_off_def kvecs_start_Suc)
  show "kvecs_start kv cur + off + copy_len kv cur off left \<le> length (kvecs_flat kv)"
    using kvecs_seg_end [OF assms(1) seg] len start by simp
  show "copy_len kv cur off left \<le> left" by (simp add: copy_len_def)
qed

lemma copy_measure_less:
  assumes "cur < n" "\<not> copy_done n kv cur off" "copy_len kv cur off left < left"
    and "map kv_bytes kv' = map kv_bytes kv" "copy_seg kv cur off < length kv"
  shows "copy_measure n kv' (copy_seg kv cur off) (copy_off kv cur off + copy_len kv cur off left)
           < copy_measure n kv cur off"
proof -
  have "kv_bytes (kv' ! copy_seg kv cur off) = kv_bytes (kv ! copy_seg kv cur off)"
    using assms(4,5) by (metis length_map nth_map)
  then show ?thesis
    using assms(1-3) by (auto simp: copy_measure_def copy_len_def copy_seg_def copy_off_def copy_done_def)
qed

lemma copy_done_end:
  assumes "kvecs_wf kv" "cur < length kv" "off \<le> kv_bytes (kv ! cur)" "copy_done (length kv) kv cur off"
  shows "kvecs_start kv cur + off = length (kvecs_flat kv)"
proof -
  have "length kv = Suc cur" "off = kv_bytes (kv ! cur)"
    using assms(2-4) by (auto simp: copy_done_def)
  then show ?thesis
    using kvecs_start_length [OF assms(1)] kvecs_start_Suc [OF assms(2)] by simp
qed

lemma memcpy_into_kvec_loop_pass:
  assumes "seg = copy_seg kv cur off" "o1 = copy_off kv cur off" "c = copy_len kv cur off (nb - si)"
    and "kv1 = kv[seg := (kv ! seg)\<lparr>kv_buf := overwrite o1 (take c (drop si src)) (kv_buf (kv ! seg))\<rparr>]"
  shows "memcpy_into_kvec_loop n src nb kv cur off si =
        (if copy_done n kv cur off then (kv, si)
         else if si + c \<ge> nb then (kv1, si + c)
         else memcpy_into_kvec_loop n src nb kv1 seg (o1 + c) (si + c))"
proof -
  have p: "(if off \<ge> kv_bytes (kv ! cur) then (cur + 1, 0) else (cur, off)) = (seg, o1)"
    by (simp add: assms copy_seg_def copy_off_def)
  have c: "(if nb - si < kv_bytes (kv ! seg) - o1 then nb - si else kv_bytes (kv ! seg) - o1) = c"
    by (simp add: assms copy_len_def)
  show ?thesis
    by (subst memcpy_into_kvec_loop.simps)
      (simp only: p prod.case Let_def c assms(4) [symmetric] copy_done_def)
qed

lemma memcpy_into_kvec_loop_spec:
  assumes "kvecs_wf kv" "n = length kv" "cur < n" "off \<le> kv_bytes (kv ! cur)"
    and "si \<le> nb" "nb \<le> length src"
    and "memcpy_into_kvec_loop n src nb kv cur off si = (kv', si')"
    and "pos = kvecs_start kv cur + off"
    and "r = min (nb - si) (length (kvecs_flat kv) - pos)"
  shows "si' = si + r \<and> kvecs_wf kv' \<and> map kv_bytes kv' = map kv_bytes kv \<and>
         kvecs_flat kv' = overwrite pos (take r (drop si src)) (kvecs_flat kv)"
  using assms
proof (induction "copy_measure n kv cur off" arbitrary: kv cur off si pos r rule: less_induct)
  case less
  note wf = less.prems(1) and n = less.prems(2) and cur = less.prems(3) and off = less.prems(4)
  define seg o1 c kv1 where defs: "seg = copy_seg kv cur off" "o1 = copy_off kv cur off"
    "c = copy_len kv cur off (nb - si)"
    "kv1 = kv[seg := (kv ! seg)\<lparr>kv_buf := overwrite o1 (take c (drop si src)) (kv_buf (kv ! seg))\<rparr>]"
  note pass = memcpy_into_kvec_loop_pass [OF defs, of n]
  show ?case
  proof (cases "copy_done n kv cur off")
    case True
    then have "r = 0" using copy_done_end [of kv cur off] wf n cur off less.prems(8,9) by simp
    then show ?thesis using True pass less.prems(1,7) by simp
  next
    case False
    have facts: "seg < length kv" "o1 + c \<le> kv_bytes (kv ! seg)"
      "kvecs_start kv seg + o1 = kvecs_start kv cur + off"
      "kvecs_start kv cur + off + c \<le> length (kvecs_flat kv)" "c \<le> nb - si"
      using copy_pass [OF wf] cur off False n unfolding defs(1-3) by blast+
    have lc: "length (take c (drop si src)) = c" using facts(5) less.prems(5,6) by auto
    have flat1: "kvecs_flat kv1 = overwrite pos (take c (drop si src)) (kvecs_flat kv)"
      and wf1: "kvecs_wf kv1" and by1: "map kv_bytes kv1 = map kv_bytes kv"
      using kvecs_flat_write [OF wf, of seg o1] kvecs_wf_write [OF wf, of seg o1] lc facts n less.prems(8)
      by (simp_all add: defs(4))
    have pe: "pos + c \<le> length (kvecs_flat kv)" using facts(4) less.prems(8) by simp
    have len1: "length (kvecs_flat kv1) = length (kvecs_flat kv)" using flat1 lc pe by simp
    show ?thesis
    proof (cases "si + c \<ge> nb")
      case True
      then have "r = c" using facts(5) pe less.prems(5,9) by simp
      then show ?thesis using True False pass less.prems(7) wf1 by1 flat1 by auto
    next
      case more: False
      define R where R: "R = min (nb - (si + c)) (length (kvecs_flat kv1) - (pos + c))"
      have r: "r = c + R" using less.prems(5,9) pe more len1 R by linarith
      have IH: "si' = si + c + R \<and> kvecs_wf kv' \<and> map kv_bytes kv' = map kv_bytes kv1 \<and>
         kvecs_flat kv' = overwrite (pos + c) (take R (drop (si + c) src)) (kvecs_flat kv1)"
      proof (rule less.hyps)
        show "copy_measure n kv1 seg (o1 + c) < copy_measure n kv cur off"
          unfolding defs(1-3) by (rule copy_measure_less)
            (use cur False more by1 facts n less.prems(5) in \<open>auto simp: defs(1-3)\<close>)
        show "memcpy_into_kvec_loop n src nb kv1 seg (o1 + c) (si + c) = (kv', si')"
          using pass more False less.prems(7) by simp
        show "n = length kv1" "seg < n" "o1 + c \<le> kv_bytes (kv1 ! seg)"
          using n facts by (simp_all add: defs(4))
        show "pos + c = kvecs_start kv1 seg + (o1 + c)"
          using kvecs_start_bytes [OF by1] facts(3) less.prems(8) by simp
      qed (use wf1 more less.prems(6) R in simp_all)
      have "overwrite (pos + c) (take R (drop (si + c) src)) (kvecs_flat kv1)
              = overwrite pos (take r (drop si src)) (kvecs_flat kv)"
        using copy_chunk_join [OF pe lc, of R] by (simp only: flat1 r drop_drop add.commute)
      then show ?thesis using IH r by1 by simp
    qed
  qed
qed

lemma memcpy_out_of_kvec_loop_pass:
  assumes "seg = copy_seg kv cur off" "o1 = copy_off kv cur off" "c = copy_len kv cur off (nb - di)"
    and "dest1 = overwrite di (take c (drop o1 (kv_buf (kv ! seg)))) dest"
  shows "memcpy_out_of_kvec_loop n kv nb dest cur off di =
        (if copy_done n kv cur off then (dest, di)
         else if di + c \<ge> nb then (dest1, di + c)
         else memcpy_out_of_kvec_loop n kv nb dest1 seg (o1 + c) (di + c))"
proof -
  have p: "(if off \<ge> kv_bytes (kv ! cur) then (cur + 1, 0) else (cur, off)) = (seg, o1)"
    by (simp add: assms copy_seg_def copy_off_def)
  have c: "(if nb - di < kv_bytes (kv ! seg) - o1 then nb - di else kv_bytes (kv ! seg) - o1) = c"
    by (simp add: assms copy_len_def)
  show ?thesis
    by (subst memcpy_out_of_kvec_loop.simps)
      (simp only: p prod.case Let_def c assms(4) [symmetric] copy_done_def)
qed

lemma memcpy_out_of_kvec_loop_spec:
  assumes "kvecs_wf kv" "n = length kv" "cur < n" "off \<le> kv_bytes (kv ! cur)"
    and "di \<le> nb" "nb \<le> length dest"
    and "memcpy_out_of_kvec_loop n kv nb dest cur off di = (dest', di')"
    and "pos = kvecs_start kv cur + off"
    and "r = min (nb - di) (length (kvecs_flat kv) - pos)"
  shows "di' = di + r \<and> dest' = overwrite di (take r (drop pos (kvecs_flat kv))) dest"
  using assms
proof (induction "copy_measure n kv cur off" arbitrary: dest cur off di pos r rule: less_induct)
  case less
  note wf = less.prems(1) and n = less.prems(2) and cur = less.prems(3) and off = less.prems(4)
  define seg o1 c dest1 where defs: "seg = copy_seg kv cur off" "o1 = copy_off kv cur off"
    "c = copy_len kv cur off (nb - di)"
    "dest1 = overwrite di (take c (drop o1 (kv_buf (kv ! seg)))) dest"
  note pass = memcpy_out_of_kvec_loop_pass [OF defs, of n]
  show ?case
  proof (cases "copy_done n kv cur off")
    case True
    then have "r = 0" using copy_done_end [of kv cur off] wf n cur off less.prems(8,9) by simp
    then show ?thesis using True pass less.prems(7) by simp
  next
    case False
    have facts: "seg < length kv" "o1 + c \<le> kv_bytes (kv ! seg)"
      "kvecs_start kv seg + o1 = kvecs_start kv cur + off"
      "kvecs_start kv cur + off + c \<le> length (kvecs_flat kv)" "c \<le> nb - di"
      using copy_pass [OF wf] cur off False n unfolding defs(1-3) by blast+
    have pe: "pos + c \<le> length (kvecs_flat kv)" using facts(4) less.prems(8) by simp
    have d1: "dest1 = overwrite di (take c (drop pos (kvecs_flat kv))) dest"
      using kvecs_flat_read [OF wf facts(1,2)] facts(3) less.prems(8) by (simp add: defs(4))
    have lc: "length (take c (drop pos (kvecs_flat kv))) = c" using pe by simp
    have de: "di + c \<le> length dest" using facts(5) less.prems(5,6) by simp
    have len1: "length dest1 = length dest" using d1 lc de by simp
    show ?thesis
    proof (cases "di + c \<ge> nb")
      case True
      then have "r = c" using facts(5) pe less.prems(5,9) by simp
      then show ?thesis using True False pass less.prems(7) d1 by auto
    next
      case more: False
      define R where R: "R = min (nb - (di + c)) (length (kvecs_flat kv) - (pos + c))"
      have r: "r = c + R" using less.prems(5,9) pe more R by linarith
      have IH: "di' = di + c + R \<and> dest' = overwrite (di + c) (take R (drop (pos + c) (kvecs_flat kv))) dest1"
      proof (rule less.hyps)
        show "copy_measure n kv seg (o1 + c) < copy_measure n kv cur off"
          unfolding defs(1-3) by (rule copy_measure_less)
            (use cur False more facts n less.prems(5) in \<open>auto simp: defs(1-3)\<close>)
        show "memcpy_out_of_kvec_loop n kv nb dest1 seg (o1 + c) (di + c) = (dest', di')"
          using pass more False less.prems(7) by simp
      qed (use wf more less.prems(2,6,8) R len1 facts in simp_all)
      have "overwrite (di + c) (take R (drop (pos + c) (kvecs_flat kv))) dest1
              = overwrite di (take r (drop pos (kvecs_flat kv))) dest"
        using copy_chunk_join [OF de lc, of R] by (simp only: d1 r drop_drop add.commute)
      then show ?thesis using IH r by simp
    qed
  qed
qed

section \<open>Iterators as cursors\<close>

definition iter_wf :: "iovec_iter \<Rightarrow> bool" where
  "iter_wf it \<longleftrightarrow> it_length it < 2147483648 \<and>
     (case it_type it of
        ITER_USER_BUF \<Rightarrow> it_seg_start it = 0 \<and> length (it_user_buf it) = it_length it \<and>
          it_seg_offset it \<le> it_length it
      | ITER_KVEC \<Rightarrow> kvecs_wf (it_segs it) \<and> it_num_segs it = length (it_segs it) \<and>
          it_length it = length (kvecs_flat (it_segs it)) \<and> it_cur_seg it < it_num_segs it \<and>
          it_seg_start it = kvecs_start (it_segs it) (it_cur_seg it) \<and>
          it_seg_offset it \<le> kv_bytes (it_segs it ! it_cur_seg it)
      | ITER_OTHER \<Rightarrow> False)"

definition iter_pos :: "iovec_iter \<Rightarrow> nat" where
  "iter_pos it = it_seg_start it + it_seg_offset it"

definition iter_content :: "iovec_iter \<Rightarrow> u8 list" where
  "iter_content it = (if it_type it = ITER_KVEC then kvecs_flat (it_segs it) else it_user_buf it)"

lemma iter_wf_length: "iter_wf it \<Longrightarrow> it_length it = length (iter_content it)"
  by (auto simp: iter_wf_def iter_content_def split: iovec_iter_type.splits)

lemma iter_wf_pos: "iter_wf it \<Longrightarrow> iter_pos it \<le> length (iter_content it)"
  using kvecs_seg_end [of "it_segs it" "it_cur_seg it"]
  by (fastforce simp: iter_wf_def iter_content_def iter_pos_def split: iovec_iter_type.splits)

lemma iter_wf_bound: "iter_wf it \<Longrightarrow> length (iter_content it) < 2147483648"
  using iter_wf_length by (simp add: iter_wf_def)

lemma iter_pos_add32: "iter_wf it \<Longrightarrow> add32 (it_seg_start it) (it_seg_offset it) = iter_pos it"
  using iter_wf_pos iter_wf_bound by (fastforce simp: iter_pos_def add32_def)

lemma iter_remaining_sub32:
  assumes "iter_wf it"
  shows "sub32 (sub32 (it_length it) (it_seg_start it)) (it_seg_offset it)
           = length (iter_content it) - iter_pos it"
  using iter_wf_pos [OF assms] iter_wf_bound [OF assms] iter_wf_length [OF assms]
  by (simp add: iter_pos_def sub32_id)

lemma seek_advance_spec:
  assumes "kvecs_wf segs" "n = length segs" "length (kvecs_flat segs) < 4294967296"
    and "cur < n" "start = kvecs_start segs cur" "start \<le> offset" "offset \<le> length (kvecs_flat segs)"
    and "seek_advance segs n offset cur start = (c, st)"
  shows "c < n \<and> st = kvecs_start segs c \<and> st \<le> offset \<and> offset \<le> st + kv_bytes (segs ! c)"
  using assms
proof (induction segs n offset cur start rule: seek_advance.induct)
  case (1 segs n offset cur start)
  have "kvecs_start segs cur + kv_bytes (segs ! cur) \<le> length (kvecs_flat segs)"
    using "1.prems"(1,2,4) by (simp add: kvecs_seg_end)
  then have a: "add32 start (kv_bytes (segs ! cur)) = kvecs_start segs (Suc cur)"
    using "1.prems" by (simp add: add32_id kvecs_start_Suc)
  show ?case
  proof (cases "cur < n - 1 \<and> offset \<ge> add32 start (kv_bytes (segs ! cur))")
    case True
    then have "seek_advance segs n offset (cur + 1) (add32 start (kv_bytes (segs ! cur))) = (c, st)"
      using "1.prems"(8) by (simp add: seek_advance.simps [of segs n offset cur start])
    moreover have "Suc cur < n" using True by linarith
    ultimately show ?thesis
      using "1.IH" [OF True] True "1.prems" a by simp
  next
    case False
    then have r: "c = cur" "st = start"
      using "1.prems"(8) by (auto simp: seek_advance.simps [of segs n offset cur start])
    show ?thesis
    proof (cases "cur < n - 1")
      case True
      then show ?thesis using False r a "1.prems" by (simp add: kvecs_start_Suc)
    next
      case last: False
      then have "Suc cur = length segs" using "1.prems"(2,4) by simp
      then show ?thesis
        using kvecs_start_length [OF "1.prems"(1)] kvecs_start_Suc [of cur segs] "1.prems" r by simp
    qed
  qed
qed

lemma seek_rewind_spec:
  assumes "kvecs_wf segs" "length (kvecs_flat segs) < 4294967296"
    and "cur < length segs" "start = kvecs_start segs cur" "offset \<le> start + kv_bytes (segs ! cur)"
    and "seek_rewind segs offset cur start = (c, st)"
  shows "c < length segs \<and> st = kvecs_start segs c \<and> st \<le> offset \<and> offset \<le> st + kv_bytes (segs ! c)"
  using assms
proof (induction cur arbitrary: start)
  case 0
  then show ?case by auto
next
  case (Suc cur)
  have s: "start = kvecs_start segs cur + kv_bytes (segs ! cur)"
    using Suc.prems(3,4) by (simp add: kvecs_start_Suc)
  have "sub32 start (kv_bytes (segs ! cur)) = kvecs_start segs cur"
    using s kvecs_seg_end [OF Suc.prems(1), of cur] Suc.prems(2,3) by (simp add: sub32_id)
  then show ?case
    using Suc.IH [of "kvecs_start segs cur"] Suc.prems s by (auto split: if_splits)
qed

text \<open>The position \<^verbatim>\<open>iovec_iter_seek\<close> aims at, before it is cut to the length.\<close>

definition seek_target :: "iovec_iter \<Rightarrow> nat \<Rightarrow> whence \<Rightarrow> nat" where
  "seek_target it offset w = (case w of
      SEEK_CUR \<Rightarrow> add32 (iter_pos it) offset
    | SEEK_END \<Rightarrow> add32 (length (iter_content it)) offset
    | _ \<Rightarrow> offset)"

lemma iovec_iter_seek_spec:
  assumes wf: "iter_wf it" and w: "w \<noteq> SEEK_OTHER"
    and seek: "iovec_iter_seek it offset w = (it', p)"
  shows "iter_wf it' \<and> iter_content it' = iter_content it \<and> p = iter_pos it' \<and>
         iter_pos it' = min (seek_target it offset w) (length (iter_content it))"
proof -
  define off where "off = min (seek_target it offset w) (length (iter_content it))"
  have off: "off \<le> length (iter_content it)" by (simp add: off_def)
  have target: "(case w of
              SEEK_CUR \<Rightarrow> add32 (add32 (it_seg_start it) (it_seg_offset it)) offset
            | SEEK_END \<Rightarrow> add32 (it_length it) offset
            | _ \<Rightarrow> offset) = seek_target it offset w"
    using wf by (cases w) (simp_all add: seek_target_def iter_pos_add32 iter_wf_length)
  have cut: "(if seek_target it offset w > it_length it then it_length it else seek_target it offset w) = off"
    using iter_wf_length [OF wf] by (simp add: off_def)
  have step: "p = add32 (it_seg_start it') (it_seg_offset it')"
    "it' = (if it_type it = ITER_KVEC then
              (let (cur, start) =
                 (if off \<ge> iter_pos it
                  then seek_advance (it_segs it) (it_num_segs it) off (it_cur_seg it) (it_seg_start it)
                  else seek_rewind (it_segs it) off (it_cur_seg it) (it_seg_start it))
               in it\<lparr>it_cur_seg := cur, it_seg_start := start, it_seg_offset := sub32 off start\<rparr>)
            else it\<lparr>it_seg_offset := off\<rparr>)"
    using seek w wf unfolding iovec_iter_seek_def target
    by (auto simp only: Let_def cut iter_pos_add32 if_False prod.inject)
  have res: "iter_wf it' \<and> iter_content it' = iter_content it \<and> iter_pos it' = off"
  proof (cases "it_type it = ITER_KVEC")
    case True
    have kv: "kvecs_wf (it_segs it)" "it_num_segs it = length (it_segs it)"
      "it_cur_seg it < length (it_segs it)" "it_seg_start it = kvecs_start (it_segs it) (it_cur_seg it)"
      "it_seg_offset it \<le> kv_bytes (it_segs it ! it_cur_seg it)"
      and len: "length (kvecs_flat (it_segs it)) < 2147483648"
      "iter_content it = kvecs_flat (it_segs it)" "it_length it = length (kvecs_flat (it_segs it))"
      using wf True by (auto simp: iter_wf_def iter_content_def)
    obtain c st where cs: "(if off \<ge> iter_pos it
          then seek_advance (it_segs it) (it_num_segs it) off (it_cur_seg it) (it_seg_start it)
          else seek_rewind (it_segs it) off (it_cur_seg it) (it_seg_start it)) = (c, st)"
      by fastforce
    have c: "c < length (it_segs it) \<and> st = kvecs_start (it_segs it) c \<and> st \<le> off \<and>
          off \<le> st + kv_bytes (it_segs it ! c)"
    proof (cases "off \<ge> iter_pos it")
      case True
      then show ?thesis
        using seek_advance_spec [OF kv(1,2), of "it_cur_seg it" "it_seg_start it" off c st] cs kv len off
        by (simp add: iter_pos_def)
    next
      case False
      then show ?thesis
        using seek_rewind_spec [OF kv(1), of "it_cur_seg it" "it_seg_start it" off c st] cs kv len off
        by (simp add: iter_pos_def)
    qed
    have "it' = it\<lparr>it_cur_seg := c, it_seg_start := st, it_seg_offset := off - st\<rparr>"
      using step(2) True cs c off len by (simp add: sub32_id)
    then show ?thesis
      using True c kv len by (auto simp: iter_wf_def iter_content_def iter_pos_def)
  next
    case False
    then show ?thesis
      using wf step(2) off by (auto simp: iter_wf_def iter_content_def iter_pos_def split: iovec_iter_type.splits)
  qed
  then show ?thesis using step(1) by (simp add: iter_pos_add32 off_def)
qed

lemma kvecs_take_drop:
  assumes "kvecs_wf segs"
  shows "kvecs_flat segs = kvecs_flat (take i segs) @ kvecs_flat (drop i segs)"
    and "length (kvecs_flat (take i segs)) = kvecs_start segs i"
proof -
  show "kvecs_flat segs = kvecs_flat (take i segs) @ kvecs_flat (drop i segs)"
    by (metis append_take_drop_id kvecs_flat_simps(3))
  show "length (kvecs_flat (take i segs)) = kvecs_start segs i"
    using kvecs_wf_sub(1) [OF assms] by (simp add: length_kvecs_flat kvecs_start_def)
qed

lemma memcpy_into_kvec_at:
  assumes wf: "kvecs_wf segs" and cur: "cur < length segs" "off \<le> kv_bytes (segs ! cur)"
    and k: "k \<le> length buf" "kvecs_start segs cur + off + k \<le> length (kvecs_flat segs)" "k < 2147483648"
    and into: "memcpy_into_kvec (drop cur segs) (length segs - cur) off buf k = (tl_segs, n)"
  shows "n = int k \<and> kvecs_wf (take cur segs @ tl_segs) \<and>
         map kv_bytes (take cur segs @ tl_segs) = map kv_bytes segs \<and>
         kvecs_flat (take cur segs @ tl_segs)
           = overwrite (kvecs_start segs cur + off) (take k buf) (kvecs_flat segs)"
proof -
  note td = kvecs_take_drop [OF wf, of cur]
  obtain si where loop: "memcpy_into_kvec_loop (length segs - cur) buf k (drop cur segs) 0 off 0 = (tl_segs, si)"
    and n: "n = to_int (int si)"
    using into by (auto simp: memcpy_into_kvec_def split: prod.splits)
  have "length (kvecs_flat segs) = kvecs_start segs cur + length (kvecs_flat (drop cur segs))"
    using td by (metis length_append)
  then have r: "k = min (k - 0) (length (kvecs_flat (drop cur segs)) - off)"
    using k(2) by simp
  have "si = 0 + k \<and> kvecs_wf tl_segs \<and> map kv_bytes tl_segs = map kv_bytes (drop cur segs) \<and>
         kvecs_flat tl_segs = overwrite off (take k (drop 0 buf)) (kvecs_flat (drop cur segs))"
    by (rule memcpy_into_kvec_loop_spec [OF kvecs_wf_sub(2) [OF wf] _ _ _ _ k(1) loop _ r])
      (use cur in auto)
  moreover have "map kv_bytes (take cur segs) @ map kv_bytes (drop cur segs) = map kv_bytes segs"
    by (metis append_take_drop_id map_append)
  ultimately show ?thesis
    using n k(3) kvecs_wf_sub(1) [OF wf, of cur] td overwrite_append2 [of "kvecs_flat (take cur segs)" off]
    by (auto simp: c_arith)
qed

lemma memcpy_out_of_kvec_at:
  assumes wf: "kvecs_wf segs" and cur: "cur < length segs" "off \<le> kv_bytes (segs ! cur)"
    and k: "k \<le> length buf" "kvecs_start segs cur + off + k \<le> length (kvecs_flat segs)" "k < 2147483648"
    and out_of: "memcpy_out_of_kvec (drop cur segs) (length segs - cur) off buf k = (buf', n)"
  shows "n = int k \<and>
         buf' = overwrite 0 (take k (drop (kvecs_start segs cur + off) (kvecs_flat segs))) buf"
proof -
  note td = kvecs_take_drop [OF wf, of cur]
  obtain di where loop: "memcpy_out_of_kvec_loop (length segs - cur) (drop cur segs) k buf 0 off 0 = (buf', di)"
    and n: "n = to_int (int di)"
    using out_of by (auto simp: memcpy_out_of_kvec_def split: prod.splits)
  have "length (kvecs_flat segs) = kvecs_start segs cur + length (kvecs_flat (drop cur segs))"
    using td by (metis length_append)
  then have r: "k = min (k - 0) (length (kvecs_flat (drop cur segs)) - off)"
    using k(2) by simp
  have "di = 0 + k \<and> buf' = overwrite 0 (take k (drop off (kvecs_flat (drop cur segs)))) buf"
    by (rule memcpy_out_of_kvec_loop_spec [OF kvecs_wf_sub(2) [OF wf] _ _ _ _ k(1) loop _ r])
      (use cur in auto)
  then show ?thesis using n k(3) td by (simp add: c_arith)
qed

text \<open>The number of bytes a copy of \<open>nb\<close> bytes moves.\<close>

definition iter_count :: "iovec_iter \<Rightarrow> nat \<Rightarrow> nat" where
  "iter_count it nb = min nb (length (iter_content it) - iter_pos it)"

lemma iter_count_conv:
  assumes "iter_wf it"
  shows "to_int (int (if nb < sub32 (sub32 (it_length it) (it_seg_start it)) (it_seg_offset it) then nb
           else sub32 (sub32 (it_length it) (it_seg_start it)) (it_seg_offset it))) = int (iter_count it nb)"
    and "to_size (int (iter_count it nb)) = iter_count it nb"
    and "iter_pos it + iter_count it nb \<le> length (iter_content it)"
    and "iter_count it nb < 2147483648" "iter_count it nb \<le> nb"
proof -
  have eq: "(if nb < length (iter_content it) - iter_pos it then nb
             else length (iter_content it) - iter_pos it) = iter_count it nb"
    by (simp add: iter_count_def)
  show b: "iter_count it nb < 2147483648" "iter_pos it + iter_count it nb \<le> length (iter_content it)"
    "iter_count it nb \<le> nb"
    using iter_wf_bound [OF assms] iter_wf_pos [OF assms] by (auto simp: iter_count_def)
  show "to_int (int (if nb < sub32 (sub32 (it_length it) (it_seg_start it)) (it_seg_offset it) then nb
           else sub32 (sub32 (it_length it) (it_seg_start it)) (it_seg_offset it))) = int (iter_count it nb)"
    using b(1) by (simp only: iter_remaining_sub32 [OF assms] eq to_int_of_nat)
  show "to_size (int (iter_count it nb)) = iter_count it nb"
    using b(1) by (simp add: c_arith)
qed

text \<open>The seek by which a copy advances the iterator never fails and lands behind the bytes copied.\<close>

lemma iter_advance:
  assumes "iter_wf it" "iter_pos it + k \<le> length (iter_content it)"
    and "iovec_iter_seek it k SEEK_CUR = (it', p)"
  shows "iter_wf it' \<and> iter_content it' = iter_content it \<and> iter_pos it' = iter_pos it + k \<and>
         \<not> to_int (int p) < 0"
proof -
  have "seek_target it k SEEK_CUR = iter_pos it + k"
    using assms(2) iter_wf_bound [OF assms(1)] by (simp add: seek_target_def add32_id)
  then show ?thesis
    using iovec_iter_seek_spec [OF assms(1) _ assms(3)] assms(2) iter_wf_bound [OF assms(1)]
    by (simp add: c_arith)
qed

text \<open>What no operation on an iterator changes.\<close>

definition iter_shape :: "iovec_iter \<Rightarrow> iovec_iter_type \<times> nat \<times> nat \<times> nat list" where
  "iter_shape it = (it_type it, it_length it, it_num_segs it, map kv_bytes (it_segs it))"

lemma iovec_iter_seek_shape: "iovec_iter_seek it off w = (it', p) \<Longrightarrow> iter_shape it' = iter_shape it"
  by (auto simp: iovec_iter_seek_def iter_shape_def Let_def split: if_splits prod.splits)

lemma memcpy_into_iter_spec:
  assumes wf: "iter_wf it" and buf: "nb \<le> length buf"
    and into: "memcpy_into_iter it buf nb = (it', n)"
  shows "iter_wf it' \<and> n = int (iter_count it nb) \<and> iter_pos it' = iter_pos it + iter_count it nb \<and>
         iter_content it' = overwrite (iter_pos it) (take (iter_count it nb) buf) (iter_content it) \<and>
         iter_shape it' = iter_shape it"
proof -
  define k where "k = iter_count it nb"
  note kc = iter_count_conv [OF wf, of nb, folded k_def]
  have kb: "k \<le> length buf" using kc(5) buf by simp
  show ?thesis unfolding k_def [symmetric]
  proof (cases "it_type it")
    case ITER_USER_BUF
    then have "it' = it\<lparr>it_user_buf := overwrite (it_seg_offset it) (take k buf) (it_user_buf it),
                 it_seg_offset := it_seg_offset it + k\<rparr>" "n = int k"
      using into kc wf by (auto simp: memcpy_into_iter_def Let_def add32_id iter_pos_def iter_wf_def iter_content_def)
    then show "iter_wf it' \<and> n = int k \<and> iter_pos it' = iter_pos it + k \<and>
         iter_content it' = overwrite (iter_pos it) (take k buf) (iter_content it) \<and>
         iter_shape it' = iter_shape it"
      using wf kc(3) kb ITER_USER_BUF by (auto simp: iter_wf_def iter_pos_def iter_content_def iter_shape_def)
  next
    case ITER_KVEC
    have kv: "kvecs_wf (it_segs it)" "it_num_segs it = length (it_segs it)"
      "it_cur_seg it < length (it_segs it)" "it_seg_start it = kvecs_start (it_segs it) (it_cur_seg it)"
      "it_seg_offset it \<le> kv_bytes (it_segs it ! it_cur_seg it)"
      "it_length it < 2147483648" "it_length it = length (kvecs_flat (it_segs it))"
      and ct: "iter_content it = kvecs_flat (it_segs it)"
      using wf ITER_KVEC by (auto simp: iter_wf_def iter_content_def)
    obtain tls m where tls: "memcpy_into_kvec (drop (it_cur_seg it) (it_segs it))
         (length (it_segs it) - it_cur_seg it) (it_seg_offset it) buf k = (tls, m)" by fastforce
    define segs' where "segs' = take (it_cur_seg it) (it_segs it) @ tls"
    define it1 where "it1 = it\<lparr>it_segs := segs'\<rparr>"
    have m: "m = int k" "kvecs_wf segs'" "map kv_bytes segs' = map kv_bytes (it_segs it)"
      "kvecs_flat segs' = overwrite (iter_pos it) (take k buf) (iter_content it)"
      using memcpy_into_kvec_at [OF kv(1,3,5) kb _ kc(4) tls] kc(3) ct kv(4)
      by (simp_all add: segs'_def iter_pos_def)
    have "kv_bytes (segs' ! i) = kv_bytes (it_segs it ! i)" if "i < length (it_segs it)" for i
      using m(3) that by (metis length_map nth_map)
    moreover have "length segs' = length (it_segs it)" using m(3) by (metis length_map)
    ultimately have it1: "iter_wf it1" "iter_pos it1 = iter_pos it"
        "iter_content it1 = overwrite (iter_pos it) (take k buf) (iter_content it)"
        "iter_shape it1 = iter_shape it"
      using kv m kb kc(3) ct ITER_KVEC
      by (simp_all add: it1_def iter_wf_def iter_pos_def iter_content_def iter_shape_def kvecs_start_bytes [OF m(3)])
    have le: "iter_pos it1 + k \<le> length (iter_content it1)"
      using it1 kc(3) kb by simp
    obtain it2 e where s: "iovec_iter_seek it1 k SEEK_CUR = (it2, e)" by fastforce
    have "(it', n) = (if int k > 0 then
           (let (it2, error) = iovec_iter_seek it1 k SEEK_CUR
            in if to_int (int error) < 0 then (it2, to_int (int error)) else (it2, int k))
         else (it1, int k))"
      using into ITER_KVEC kc(1,2) kv(2) tls m(1)
      by (simp add: memcpy_into_iter_def Let_def it1_def segs'_def cong: if_cong)
    then have "n = int k \<and> it' = (if k = 0 then it1 else it2)"
      using s iter_advance [OF it1(1) le s] by (cases "k = 0") simp_all
    then show "iter_wf it' \<and> n = int k \<and> iter_pos it' = iter_pos it + k \<and>
         iter_content it' = overwrite (iter_pos it) (take k buf) (iter_content it) \<and>
         iter_shape it' = iter_shape it"
      using it1 iter_advance [OF it1(1) le s] iovec_iter_seek_shape [OF s] by simp
  next
    case ITER_OTHER
    then show "iter_wf it' \<and> n = int k \<and> iter_pos it' = iter_pos it + k \<and>
         iter_content it' = overwrite (iter_pos it) (take k buf) (iter_content it) \<and>
         iter_shape it' = iter_shape it"
      using wf by (simp add: iter_wf_def)
  qed
qed

lemma memcpy_out_of_iter_spec:
  assumes wf: "iter_wf it" and buf: "nb \<le> length buf"
    and out_of: "memcpy_out_of_iter it buf nb = (it', buf', n)"
  shows "iter_wf it' \<and> n = int (iter_count it nb) \<and> iter_pos it' = iter_pos it + iter_count it nb \<and>
         iter_content it' = iter_content it \<and>
         buf' = overwrite 0 (take (iter_count it nb) (drop (iter_pos it) (iter_content it))) buf"
proof -
  define k where "k = iter_count it nb"
  note kc = iter_count_conv [OF wf, of nb, folded k_def]
  have kb: "k \<le> length buf" using kc(5) buf by simp
  show ?thesis unfolding k_def [symmetric]
  proof (cases "it_type it")
    case ITER_USER_BUF
    then have "it' = it\<lparr>it_seg_offset := it_seg_offset it + k\<rparr>" "n = int k"
      "buf' = overwrite 0 (take k (drop (it_seg_offset it) (it_user_buf it))) buf"
      using out_of kc wf by (auto simp: memcpy_out_of_iter_def Let_def add32_id iter_pos_def iter_wf_def iter_content_def)
    then show "iter_wf it' \<and> n = int k \<and> iter_pos it' = iter_pos it + k \<and> iter_content it' = iter_content it \<and>
         buf' = overwrite 0 (take k (drop (iter_pos it) (iter_content it))) buf"
      using wf kc(3) kb ITER_USER_BUF by (auto simp: iter_wf_def iter_pos_def iter_content_def)
  next
    case ITER_KVEC
    have kv: "kvecs_wf (it_segs it)" "it_num_segs it = length (it_segs it)"
      "it_cur_seg it < length (it_segs it)" "it_seg_start it = kvecs_start (it_segs it) (it_cur_seg it)"
      "it_seg_offset it \<le> kv_bytes (it_segs it ! it_cur_seg it)"
      and ct: "iter_content it = kvecs_flat (it_segs it)"
      using wf ITER_KVEC by (auto simp: iter_wf_def iter_content_def)
    obtain b m where b: "memcpy_out_of_kvec (drop (it_cur_seg it) (it_segs it))
         (length (it_segs it) - it_cur_seg it) (it_seg_offset it) buf k = (b, m)" by fastforce
    have m: "m = int k" "b = overwrite 0 (take k (drop (iter_pos it) (iter_content it))) buf"
      using memcpy_out_of_kvec_at [OF kv(1,3,5) kb _ kc(4) b] kc(3) ct kv(4)
      by (simp_all add: iter_pos_def)
    obtain it2 e where s: "iovec_iter_seek it k SEEK_CUR = (it2, e)" by fastforce
    have "(it', buf', n) = (if int k > 0 then
           (let (it2, error) = iovec_iter_seek it k SEEK_CUR
            in if to_int (int error) < 0 then (it2, b, to_int (int error)) else (it2, b, int k))
         else (it, b, int k))"
      using out_of ITER_KVEC kc(1,2) kv(2) b m(1)
      by (simp add: memcpy_out_of_iter_def Let_def cong: if_cong)
    then have "n = int k \<and> buf' = b \<and> it' = (if k = 0 then it else it2)"
      using s iter_advance [OF wf kc(3) s] by (cases "k = 0") simp_all
    then show "iter_wf it' \<and> n = int k \<and> iter_pos it' = iter_pos it + k \<and> iter_content it' = iter_content it \<and>
         buf' = overwrite 0 (take k (drop (iter_pos it) (iter_content it))) buf"
      using wf m iter_advance [OF wf kc(3) s] by simp
  next
    case ITER_OTHER
    then show "iter_wf it' \<and> n = int k \<and> iter_pos it' = iter_pos it + k \<and> iter_content it' = iter_content it \<and>
         buf' = overwrite 0 (take k (drop (iter_pos it) (iter_content it))) buf"
      using wf by (simp add: iter_wf_def)
  qed
qed

section \<open>The cursor interface\<close>

text \<open>
  What the drivers and file systems rely on when they are handed an iterator: reads and
  writes act on one byte sequence at a position that they advance, and a seek moves the
  position without touching the bytes.
\<close>

locale cursor =
  fixes wf :: "'i \<Rightarrow> bool" and pos :: "'i \<Rightarrow> nat" and content :: "'i \<Rightarrow> u8 list"
    and put :: "'i \<Rightarrow> u8 list \<Rightarrow> nat \<Rightarrow> 'i \<times> int"
    and get :: "'i \<Rightarrow> u8 list \<Rightarrow> nat \<Rightarrow> 'i \<times> u8 list \<times> int"
    and seek :: "'i \<Rightarrow> nat \<Rightarrow> 'i \<times> nat"
  assumes pos_le: "wf it \<Longrightarrow> pos it \<le> length (content it)"
    and put_law: "\<lbrakk>wf it; nb \<le> length buf; put it buf nb = (it', n); k = min nb (length (content it) - pos it)\<rbrakk> \<Longrightarrow>
      wf it' \<and> n = int k \<and> pos it' = pos it + k \<and> content it' = overwrite (pos it) (take k buf) (content it)"
    and get_law: "\<lbrakk>wf it; nb \<le> length buf; get it buf nb = (it', buf', n); k = min nb (length (content it) - pos it)\<rbrakk> \<Longrightarrow>
      wf it' \<and> n = int k \<and> pos it' = pos it + k \<and> content it' = content it \<and>
      buf' = overwrite 0 (take k (drop (pos it) (content it))) buf"
    and seek_law: "\<lbrakk>wf it; off \<le> length (content it); seek it off = (it', p)\<rbrakk> \<Longrightarrow>
      wf it' \<and> content it' = content it \<and> pos it' = off \<and> p = off"
begin

lemma put_get:
  assumes "wf it" "pos it + length buf \<le> length (content it)" "length out = length buf"
    and "put it buf (length buf) = (it1, n)" "seek it1 (pos it) = (it2, p)"
    and "get it2 out (length buf) = (it3, buf', m)"
  shows "n = int (length buf) \<and> m = n \<and> buf' = buf \<and> pos it3 = pos it + length buf"
proof -
  have k: "length buf = min (length buf) (length (content it) - pos it)" using assms(2) by simp
  have 1: "wf it1" "n = int (length buf)" "content it1 = overwrite (pos it) buf (content it)"
    using put_law [OF assms(1) le_refl assms(4) k] by simp_all
  have 2: "wf it2" "content it2 = overwrite (pos it) buf (content it)" "pos it2 = pos it"
    using seek_law [OF 1(1) _ assms(5)] 1(3) assms(2) by simp_all
  have "length buf = min (length buf) (length (content it2) - pos it2)" using 2 assms(2) by simp
  from get_law [OF 2(1) _ assms(6) this] show ?thesis
    using 1(2) 2 assms(2,3) by (simp add: overwrite_get overwrite_def)
qed

lemma put_put:
  assumes "wf it" "put it xs (length xs) = (it1, n)" "put it1 ys (length ys) = (it2, m)"
    and "put it (xs @ ys) (length (xs @ ys)) = (it3, l)"
  shows "content it2 = content it3 \<and> pos it2 = pos it3 \<and> n + m = l"
proof -
  define k where "k = min (length xs) (length (content it) - pos it)"
  have 1: "wf it1" "n = int k" "pos it1 = pos it + k" "content it1 = overwrite (pos it) (take k xs) (content it)"
    using put_law [OF assms(1) le_refl assms(2) k_def] by simp_all
  have le: "pos it + k \<le> length (content it)" using pos_le [OF assms(1)] by (simp add: k_def)
  have lk: "length (take k xs) = k" by (simp add: k_def)
  define j where "j = min (length ys) (length (content it1) - pos it1)"
  have len1: "length (content it1) = length (content it)" using 1(4) le lk by simp
  have 2: "m = int j" "pos it2 = pos it1 + j" "content it2 = overwrite (pos it1) (take j ys) (content it1)"
    using put_law [OF 1(1) le_refl assms(3) j_def] by simp_all
  have kj: "k + j = min (length (xs @ ys)) (length (content it) - pos it)"
    using 1(3) len1 by (auto simp: k_def j_def min_def)
  have 3: "l = int (k + j)" "pos it3 = pos it + (k + j)"
    "content it3 = overwrite (pos it) (take (k + j) (xs @ ys)) (content it)"
    using put_law [OF assms(1) le_refl assms(4) kj] by simp_all
  have "take (k + j) (xs @ ys) = take k xs @ take j ys"
    using 1(3) len1 by (auto simp: k_def j_def min_def)
  then show ?thesis
    using 1 2 3 overwrite_overwrite [of "pos it" "take k xs" "content it" "take j ys"] le lk by simp
qed

end

interpretation it: cursor iter_wf iter_pos iter_content memcpy_into_iter memcpy_out_of_iter
  "\<lambda>it off. iovec_iter_seek it off SEEK_SET"
proof
  fix it it' :: iovec_iter and buf buf' :: "u8 list" and n :: int and nb k off p :: nat
  assume wf: "iter_wf it"
  show "iter_pos it \<le> length (iter_content it)" using wf by (rule iter_wf_pos)
  show "iter_wf it' \<and> n = int k \<and> iter_pos it' = iter_pos it + k \<and>
      iter_content it' = overwrite (iter_pos it) (take k buf) (iter_content it)"
    if "nb \<le> length buf" "memcpy_into_iter it buf nb = (it', n)"
      "k = min nb (length (iter_content it) - iter_pos it)"
    using memcpy_into_iter_spec [OF wf that(1,2)] that(3) by (simp add: iter_count_def)
  show "iter_wf it' \<and> n = int k \<and> iter_pos it' = iter_pos it + k \<and> iter_content it' = iter_content it \<and>
      buf' = overwrite 0 (take k (drop (iter_pos it) (iter_content it))) buf"
    if "nb \<le> length buf" "memcpy_out_of_iter it buf nb = (it', buf', n)"
      "k = min nb (length (iter_content it) - iter_pos it)"
    using memcpy_out_of_iter_spec [OF wf that(1,2)] that(3) by (simp add: iter_count_def)
  show "iter_wf it' \<and> iter_content it' = iter_content it \<and> iter_pos it' = off \<and> p = off"
    if "off \<le> length (iter_content it)" "iovec_iter_seek it off SEEK_SET = (it', p)"
    using iovec_iter_seek_spec [OF wf _ that(2)] that(1) by (simp add: seek_target_def)
qed

section \<open>Pushing back and single bytes\<close>

lemma iter_reposition:
  assumes "iter_wf a" "iter_wf b" "iter_shape b = iter_shape a"
    and "c = b\<lparr>it_cur_seg := it_cur_seg a, it_seg_start := it_seg_start a, it_seg_offset := it_seg_offset a\<rparr>"
  shows "iter_wf c \<and> iter_content c = iter_content b \<and> iter_pos c = iter_pos a"
proof -
  have b: "map kv_bytes (it_segs b) = map kv_bytes (it_segs a)" "it_type b = it_type a"
    "it_length b = it_length a" "it_num_segs b = it_num_segs a"
    using assms(3) by (simp_all add: iter_shape_def)
  have "kv_bytes (it_segs b ! i) = kv_bytes (it_segs a ! i)" if "i < length (it_segs a)" for i
    using b(1) that by (metis length_map nth_map)
  then show ?thesis
    using assms(1,2,4) b kvecs_start_bytes [OF b(1)]
    by (auto simp: iter_wf_def iter_content_def iter_pos_def split: iovec_iter_type.splits)
qed

text \<open>
  C12. Pushing \<open>nb\<close> bytes back onto an iterator that stands at least \<open>nb\<close> bytes into its buffers stores
  them in front of the position, across segment boundaries, and leaves the iterator standing on the
  first of them; the value returned is that position and nothing else is changed.
\<close>

theorem iovec_iter_push_back_correct:
  assumes wf: "iter_wf it" and nb: "nb \<le> iter_pos it" "nb \<le> length value"
    and push: "iovec_iter_push_back it value nb = (it', p)"
  shows "iter_wf it' \<and> p = iter_pos it' \<and> iter_pos it' = iter_pos it - nb \<and>
         iter_content it' = overwrite (iter_pos it - nb) (take nb value) (iter_content it)"
proof -
  note le = iter_wf_pos [OF wf] iter_wf_bound [OF wf]
  obtain it1 e where 1: "iovec_iter_seek it (sub32 0 nb) SEEK_CUR = (it1, e)" by fastforce
  have "seek_target it (sub32 0 nb) SEEK_CUR = iter_pos it - nb"
    using add32_sub32_0 [OF nb(1)] le by (simp add: seek_target_def)
  then have s: "iter_wf it1" "iter_content it1 = iter_content it" "e = iter_pos it - nb" "iter_pos it1 = iter_pos it - nb"
    using iovec_iter_seek_spec [OF wf _ 1] le by simp_all
  obtain it2 m where 2: "memcpy_into_iter it1 value nb = (it2, m)" by fastforce
  have "iter_count it1 nb = nb" using s nb(1) le by (simp add: iter_count_def)
  then have w: "iter_wf it2" "iter_shape it2 = iter_shape it1"
    "iter_content it2 = overwrite (iter_pos it - nb) (take nb value) (iter_content it)"
    using memcpy_into_iter_spec [OF s(1) nb(2) 2] s by simp_all
  have "\<not> to_int (int e) < 0" using s(3) le by (simp add: c_arith)
  then have r: "it' = it2\<lparr>it_cur_seg := it_cur_seg it1, it_seg_start := it_seg_start it1,
        it_seg_offset := it_seg_offset it1\<rparr>" "p = add32 (it_seg_start it') (it_seg_offset it')"
    using push 1 2 by (auto simp: iovec_iter_push_back_def Let_def)
  show ?thesis
    using iter_reposition [OF s(1) w(1,2) r(1)] w(3) s(4) r(2) iter_pos_add32 by simp
qed

lemma overwrite_single: "i < length xs \<Longrightarrow> xs[i := y] = overwrite i [y] xs"
  by (simp add: overwrite_Cons)

text \<open>
  While the current segment has room, \<^verbatim>\<open>copy_uint8_into_iter\<close> stores the byte at the position
  of the iterator and moves on by one, to the next segment when this one is full; the iterator stays
  well formed unless that was the last segment.
\<close>

theorem copy_uint8_into_iter_correct:
  assumes wf: "iter_wf it" and pos: "iter_pos it < length (iter_content it)"
    and seg: "it_type it = ITER_KVEC \<Longrightarrow> it_seg_offset it < kv_bytes (it_segs it ! it_cur_seg it)"
  shows "\<exists>it'. copy_uint8_into_iter it b = Some (it', 1) \<and> iter_pos it' = iter_pos it + 1 \<and>
           iter_content it' = (iter_content it)[iter_pos it := b] \<and>
           (it_cur_seg it' < it_num_segs it' \<longrightarrow> iter_wf it')"
proof (cases "it_type it")
  case ITER_USER_BUF
  then show ?thesis
    using wf pos by (auto simp: copy_uint8_into_iter_def iter_wf_def iter_pos_def iter_content_def)
next
  case ITER_OTHER
  then show ?thesis using wf by (simp add: iter_wf_def)
next
  case ITER_KVEC
  let ?k = "it_segs it ! it_cur_seg it" and ?c = "it_cur_seg it" and ?o = "it_seg_offset it"
  have kv: "kvecs_wf (it_segs it)" "it_num_segs it = length (it_segs it)" "?c < length (it_segs it)"
      "it_seg_start it = kvecs_start (it_segs it) ?c" "it_length it < 2147483648"
      "it_length it = length (kvecs_flat (it_segs it))"
    and ct: "iter_content it = kvecs_flat (it_segs it)"
    using wf ITER_KVEC by (auto simp: iter_wf_def iter_content_def)
  have o: "?o < kv_bytes ?k" using seg ITER_KVEC by simp
  have lk: "length (kv_buf ?k) = kv_bytes ?k" using kv by (simp add: kvecs_wf_nth)
  define segs' where "segs' = (it_segs it)[?c := ?k\<lparr>kv_buf := overwrite ?o [b] (kv_buf ?k)\<rparr>]"
  have s': "kvecs_flat segs' = (iter_content it)[iter_pos it := b]" "kvecs_wf segs'"
    using kvecs_flat_write [OF kv(1,3), of ?o "[b]"] kvecs_wf_write [OF kv(1,3), of ?o "[b]"] o kv(4) pos ct
    by (simp_all add: segs'_def iter_pos_def overwrite_single)
  have st: "map kv_bytes segs' = map kv_bytes (it_segs it)" by (simp add: segs'_def)
  have nb: "add32 (it_seg_start it) (kv_bytes ?k) = kvecs_start (it_segs it) (Suc ?c)"
    using kvecs_seg_end [OF kv(1,3)] kv by (simp add: add32_id kvecs_start_Suc)
  define it1 where "it1 = it\<lparr>it_segs := segs', it_seg_offset := ?o + 1\<rparr>"
  define it' where "it' = (if ?o + 1 \<ge> kv_bytes ?k
     then it1\<lparr>it_seg_start := kvecs_start (it_segs it) (Suc ?c), it_seg_offset := 0, it_cur_seg := ?c + 1\<rparr> else it1)"
  have "copy_uint8_into_iter it b = Some (it', 1)"
    using ITER_KVEC kv(2,3) o lk nb
    by (simp add: copy_uint8_into_iter_def Let_def it'_def it1_def segs'_def overwrite_single)
  moreover have "iter_pos it' = iter_pos it + 1"
    using o kv(3,4) by (simp add: it'_def it1_def iter_pos_def kvecs_start_Suc)
  moreover have "iter_content it' = (iter_content it)[iter_pos it := b]"
    using ITER_KVEC s'(1) by (simp add: it'_def it1_def iter_content_def)
  moreover have "iter_wf it'" if "it_cur_seg it' < it_num_segs it'"
    using that ITER_KVEC s' kv o ct kvecs_start_bytes [OF st]
    by (auto simp: it'_def it1_def iter_wf_def segs'_def split: if_splits)
  ultimately show ?thesis by blast
qed

text \<open>
  At the end of an iterator the single-byte accessor has no byte to touch: it is outside of the
  segment or of the user buffer.
\<close>

lemma copy_uint8_into_iter_end:
  assumes "iter_wf it" "iter_pos it = length (iter_content it)"
  shows "copy_uint8_into_iter it b = None"
proof (cases "it_type it")
  case ITER_KVEC
  then have kv: "kvecs_wf (it_segs it)" "it_cur_seg it < length (it_segs it)" "it_num_segs it = length (it_segs it)"
    using assms(1) by (auto simp: iter_wf_def)
  then have "length (kv_buf (it_segs it ! it_cur_seg it)) \<le> it_seg_offset it"
    using kvecs_seg_end [OF kv(1,2)] kvecs_wf_nth [OF kv(1,2)] assms ITER_KVEC
    by (simp add: iter_wf_def iter_pos_def iter_content_def)
  then show ?thesis using ITER_KVEC kv by (simp add: copy_uint8_into_iter_def)
qed (use assms in \<open>auto simp: iter_wf_def iter_pos_def iter_content_def copy_uint8_into_iter_def\<close>)

section \<open>String copies\<close>

lemma kvec_put_flat:
  assumes "kvecs_wf kv" "i < length kv" "off < kv_bytes (kv ! i)"
  shows "kvecs_flat (kvec_put kv i off b) = overwrite (kvecs_start kv i + off) [b] (kvecs_flat kv)"
    and "kvecs_wf (kvec_put kv i off b)"
    and "map kv_bytes (kvec_put kv i off b) = map kv_bytes kv"
  using kvecs_flat_write [OF assms(1,2), of off "[b]"] kvecs_wf_write [OF assms(1,2), of off "[b]"]
    kvecs_wf_nth [OF assms(1,2)] assms(3)
  by (simp_all add: kvec_put_def overwrite_single)

lemma kvec_terminate_flat:
  assumes "kvecs_wf kv" "kv \<noteq> []" "kv_bytes (last kv) > 0"
  shows "\<exists>kv'. kvec_terminate kv (length kv) = Some kv' \<and> map kv_bytes kv' = map kv_bytes kv \<and>
           kvecs_flat kv' = overwrite (length (kvecs_flat kv) - 1) [0] (kvecs_flat kv)"
proof -
  let ?l = "length kv - 1" and ?b = "kv_bytes (kv ! (length kv - 1))"
  have l: "?l < length kv" "?b > 0" using assms(2,3) by (auto simp: last_conv_nth)
  have "length (kvecs_flat kv) = kvecs_start kv ?l + ?b"
    using kvecs_start_length [OF assms(1)] kvecs_start_Suc [OF l(1)] assms(2) by simp
  then have "kvecs_start kv ?l + (?b - 1) = length (kvecs_flat kv) - 1" using l(2) by simp
  then show ?thesis
    using kvec_put_flat [OF assms(1) l(1), of "?b - 1" 0] l assms(2) by (simp add: kvec_terminate_def)
qed

text \<open>The effect of the loop from source index \<open>si\<close> on, with the segments full or not.\<close>

lemma strncpy_into_kvec_loop_spec:
  assumes "kvecs_wf kv" "n = length kv" "kv \<noteq> []" "kv_bytes (last kv) > 0" "cur \<le> n"
    and "cur < n \<Longrightarrow> off \<le> kv_bytes (kv ! cur)" "cur = n \<Longrightarrow> off = 0"
    and "k = length (takeWhile (\<lambda>b. b \<noteq> 0) src)" "k < length src" "si \<le> k" "si \<le> mx" "k < 2147483648"
    and "pos = kvecs_start kv cur + off" "m = min k mx" "room = length (kvecs_flat kv) - pos"
  shows "\<exists>kv'. strncpy_into_kvec_loop n src mx kv cur off si = Some (kv', int (min m (si + room))) \<and>
           map kv_bytes kv' = map kv_bytes kv \<and>
           kvecs_flat kv' = (if m < si + room
             then overwrite pos (take (m - si) (drop si src) @ [0]) (kvecs_flat kv)
             else overwrite (length (kvecs_flat kv) - 1) [0]
                    (overwrite pos (take room (drop si src)) (kvecs_flat kv)))"
  using assms
proof (induction n src mx kv cur off si arbitrary: pos room rule: strncpy_into_kvec_loop.induct)
  case (1 n src mx kv cur off si)
  note wf = "1.prems"(1) and n = "1.prems"(2)
  have mi: "to_int (int si) = int si" "si \<le> m" using "1.prems" by (simp_all add: c_arith)
  show ?case
  proof (cases "cur < n")
    case False
    then have e: "cur = n" "off = 0" "pos = length (kvecs_flat kv)" "room = 0"
      using "1.prems" kvecs_start_length [OF wf] by simp_all
    have "strncpy_into_kvec_loop n src mx kv cur off si
        = map_option (\<lambda>kvec'. (kvec', int si)) (kvec_terminate kv n)"
      using False mi(1) by (simp add: strncpy_into_kvec_loop.simps [of n src mx kv cur off si])
    then show ?thesis
      using kvec_terminate_flat [OF wf "1.prems"(3,4)] e mi n by (elim exE conjE) simp
  next
    case cur: True
    show ?thesis
    proof (cases "off \<ge> kv_bytes (kv ! cur)")
      case True
      have next': "strncpy_into_kvec_loop n src mx kv cur off si = strncpy_into_kvec_loop n src mx kv (cur + 1) 0 si"
        using cur True by (simp add: strncpy_into_kvec_loop.simps [of n src mx kv cur off si])
      have "pos = kvecs_start kv (cur + 1) + 0"
        using True cur n "1.prems"(6,13) by (simp add: kvecs_start_Suc)
      then show ?thesis unfolding next'
        using "1.IH"(1) [OF cur True, of pos room] "1.prems" cur by simp
    next
      case False
      have room: "room > 0" "pos < length (kvecs_flat kv)"
        using False kvecs_seg_end [OF wf, of cur] cur n "1.prems"(13,15) by simp_all
      note put = kvec_put_flat [OF wf, of cur off, folded n, OF cur, folded "1.prems"(13)]
      show ?thesis
      proof (cases "si \<ge> m")
        case True
        then have si: "m = si" using mi by simp
        have "strncpy_into_kvec_loop n src mx kv cur off si = Some (kvec_put kv cur off 0, int si)"
          using si cur False "1.prems"(8,9,10,11,14) mi nth_length_takeWhile [of "\<lambda>b. b \<noteq> 0" src]
          by (auto simp: strncpy_into_kvec_loop.simps [of n src mx kv cur off si] min_def split: if_splits)
        then show ?thesis using si room put [of 0] False by (simp add: not_le)
      next
        case less: False
        have nz: "src ! si \<noteq> 0"
          using less "1.prems"(8,14) nth_mem [of si "takeWhile (\<lambda>b. b \<noteq> 0) src"] set_takeWhileD
          by (fastforce simp: takeWhile_nth)
        have ne: "\<not> si \<ge> mx" "\<not> si \<ge> length src" "si < k" using less "1.prems"(9,14) by simp_all
        define kv1 where "kv1 = kvec_put kv cur off (src ! si)"
        have step: "strncpy_into_kvec_loop n src mx kv cur off si
            = strncpy_into_kvec_loop n src mx kv1 cur (off + 1) (si + 1)"
          using cur False ne nz by (simp add: strncpy_into_kvec_loop.simps [of n src mx kv cur off si] kv1_def)
        have 1: "kvecs_flat kv1 = overwrite pos [src ! si] (kvecs_flat kv)" "kvecs_wf kv1"
          "map kv_bytes kv1 = map kv_bytes kv"
          using put False by (simp_all add: kv1_def)
        have bytes: "kv_bytes (kv1 ! i) = kv_bytes (kv ! i)" for i by (simp add: kv1_def)
        have len: "length kv1 = length kv" using 1(3) by (metis length_map)
        have ne1: "kv1 \<noteq> []" using len "1.prems"(3) by auto
        then have last1: "kv_bytes (last kv1) > 0"
          using len "1.prems"(3,4) bytes by (simp add: last_conv_nth)
        have IH: "\<exists>kv'. strncpy_into_kvec_loop n src mx kv1 cur (off + 1) (si + 1)
              = Some (kv', int (min m (si + 1 + (room - 1)))) \<and> map kv_bytes kv' = map kv_bytes kv1 \<and>
              kvecs_flat kv' = (if m < si + 1 + (room - 1)
                then overwrite (pos + 1) (take (m - (si + 1)) (drop (si + 1) src) @ [0]) (kvecs_flat kv1)
                else overwrite (length (kvecs_flat kv1) - 1) [0]
                       (overwrite (pos + 1) (take (room - 1) (drop (si + 1) src)) (kvecs_flat kv1)))"
        proof (rule "1.IH"(2) [OF cur False ne(1,2) nz, folded kv1_def])
          show "pos + 1 = kvecs_start kv1 cur + (off + 1)"
            using kvecs_start_bytes [OF 1(3)] "1.prems"(13) by simp
          show "room - 1 = length (kvecs_flat kv1) - (pos + 1)"
            using 1(1) room "1.prems"(15) by simp
          show "kv_bytes (last kv1) > 0" by (rule last1)
          show "off + 1 \<le> kv_bytes (kv1 ! cur)" using bytes False by simp
        qed (use cur ne ne1 1(2) len "1.prems"(2,5,8,9,12,14) in simp_all)
        have tk: "take (Suc j) (drop si src) = src ! si # take j (drop (si + 1) src)" for j
          using take_drop_nth [of si src] ne(2) by (simp add: not_le)
        have ov: "overwrite (pos + 1) ys (kvecs_flat kv1) = overwrite pos (src ! si # ys) (kvecs_flat kv)" for ys
          using overwrite_overwrite [of pos "[src ! si]" "kvecs_flat kv" ys] room 1(1) by simp
        have j: "m - si = Suc (m - (si + 1))" "room = Suc (room - 1)" "si + 1 + (room - 1) = si + room"
          using less room(1) by simp_all
        have "length (kvecs_flat kv1) = length (kvecs_flat kv)" using 1(1) room(2) by simp
        then show ?thesis
          using IH tk [of "m - (si + 1)"] tk [of "room - 1"]
          by (simp only: step ov 1(3) j(3) j(1,2) [symmetric] append_Cons)
      qed
    qed
  qed
qed

lemma overwrite_last:
  assumes "off + r = length F" "r > 0" "r \<le> length xs"
  shows "overwrite (length F - 1) [y] (overwrite off (take r xs) F) = overwrite off (take (r - 1) xs @ [y]) F"
proof (rule nth_equalityI)
  have "length (take r xs) = r" "length (take (r - 1) xs @ [y]) = r" using assms by simp_all
  then show "length (overwrite (length F - 1) [y] (overwrite off (take r xs) F))
      = length (overwrite off (take (r - 1) xs @ [y]) F)"
    using assms by simp
  fix i assume "i < length (overwrite (length F - 1) [y] (overwrite off (take r xs) F))"
  then show "overwrite (length F - 1) [y] (overwrite off (take r xs) F) ! i
      = overwrite off (take (r - 1) xs @ [y]) F ! i"
    using assms by (auto simp: nth_overwrite nth_append less_diff_conv2)
qed

text \<open>
  When the segments run out before a terminator is found, \<^verbatim>\<open>strncpy_out_of_kvec\<close> has copied all
  bytes and stores the terminator into the last byte of the source.
\<close>

lemma strncpy_out_of_kvec_loop_exhausted:
  assumes "kvecs_wf kv" "n = length kv" "cur \<le> n" "kvec_terminate kv n = Some kv'"
    and "cur < n \<Longrightarrow> off \<le> kv_bytes (kv ! cur)" "cur = n \<Longrightarrow> off = 0"
    and "pos = kvecs_start kv cur + off" "di + (length (kvecs_flat kv) - pos) \<le> mx"
    and "mx \<le> length dest" "mx < 2147483648" "0 \<notin> set (drop pos (kvecs_flat kv))"
  shows "strncpy_out_of_kvec_loop n mx kv dest cur off di
           = Some (kv', overwrite di (drop pos (kvecs_flat kv)) dest,
                   int (di + (length (kvecs_flat kv) - pos)))"
  using assms
proof (induction n mx kv dest cur off di arbitrary: pos rule: strncpy_out_of_kvec_loop.induct)
  case (1 n mx kv dest cur off di)
  note wf = "1.prems"(1) and n = "1.prems"(2)
  note unfold = strncpy_out_of_kvec_loop.simps [of n mx kv dest cur off di]
  show ?case
  proof (cases "cur < n")
    case False
    then have "pos = length (kvecs_flat kv)"
      using "1.prems" kvecs_start_length [OF wf] by simp
    then show ?thesis using False "1.prems"(4,8,10) unfold by (simp add: c_arith)
  next
    case cur: True
    show ?thesis
    proof (cases "off \<ge> kv_bytes (kv ! cur)")
      case True
      then have "pos = kvecs_start kv (cur + 1) + 0"
        using cur n "1.prems"(5,7) by (simp add: kvecs_start_Suc)
      then show ?thesis
        using "1.IH"(1) [OF cur True, of pos] "1.prems" cur True unfold by simp
    next
      case False
      have pos: "pos < length (kvecs_flat kv)" "off < length (kv_buf (kv ! cur))"
        using False kvecs_seg_end [OF wf, of cur] kvecs_wf_nth [OF wf, of cur] cur n "1.prems"(7) by simp_all
      let ?b = "kv_buf (kv ! cur) ! off"
      have "take 1 (drop pos (kvecs_flat kv)) = take 1 (drop off (kv_buf (kv ! cur)))"
        using kvecs_flat_read [OF wf, of cur off 1] cur n False "1.prems"(7) by simp
      then have d: "drop pos (kvecs_flat kv) = ?b # drop (pos + 1) (kvecs_flat kv)"
        using pos take_drop_nth [of pos "kvecs_flat kv"] take_drop_nth [of off "kv_buf (kv ! cur)"] by simp
      have di: "\<not> di \<ge> mx" "\<not> (di \<ge> length dest \<or> off \<ge> length (kv_buf (kv ! cur)))"
        using pos "1.prems"(8,9) by auto
      have nz: "?b \<noteq> 0" "dest[di := ?b] ! di \<noteq> 0" using d di "1.prems"(11) by auto
      have "strncpy_out_of_kvec_loop n mx kv (dest[di := ?b]) cur (off + 1) (di + 1)
          = Some (kv', overwrite (di + 1) (drop (pos + 1) (kvecs_flat kv)) (dest[di := ?b]),
                   int (di + 1 + (length (kvecs_flat kv) - (pos + 1))))"
        by (rule "1.IH"(2) [OF cur False di refl nz(2)])
          (use cur False "1.prems" pos d in auto)
      moreover have "overwrite di (drop pos (kvecs_flat kv)) dest
          = overwrite (di + 1) (drop (pos + 1) (kvecs_flat kv)) (dest[di := ?b])"
        unfolding d using di by (simp add: overwrite_Cons)
      ultimately show ?thesis using cur False di nz pos unfold by (simp add: Let_def)
    qed
  qed
qed

section \<open>Properties of iterators\<close>

text \<open>Two segments of two and three bytes, as the network and page-backed code builds them.\<close>

definition demo_iter :: iovec_iter where
  "demo_iter = iovec_iter_init_kvec [\<lparr>kv_buf = [1, 2], kv_bytes = 2\<rparr>, \<lparr>kv_buf = [3, 4, 5], kv_bytes = 3\<rparr>] 2"

lemma demo_iter_facts:
  "iter_wf demo_iter" "iter_pos demo_iter = 0" "iter_content demo_iter = [1, 2, 3, 4, 5]"
  by (simp_all add: demo_iter_def iovec_iter_init_kvec_def iter_wf_def iter_pos_def iter_content_def
      add32_def upt_rec numeral_2_eq_2)

text \<open>
  C10. Writing a buffer through an iterator, seeking back to where it was written and reading the
  same number of bytes returns the buffer, however the bytes are spread over segments.
\<close>

theorem iter_write_read:
  assumes "iter_wf it" "iter_pos it + length buf \<le> length (iter_content it)" "length out = length buf"
    and "memcpy_into_iter it buf (length buf) = (it1, n)"
    and "iovec_iter_seek it1 (iter_pos it) SEEK_SET = (it2, p)"
    and "memcpy_out_of_iter it2 out (length buf) = (it3, buf', m)"
  shows "n = int (length buf) \<and> m = n \<and> buf' = buf \<and> iter_pos it3 = iter_pos it + length buf"
  using assms by (rule it.put_get)

theorem iter_write_read_witness:
  "fst (snd (memcpy_out_of_iter (fst (iovec_iter_seek (fst (memcpy_into_iter demo_iter [7, 8, 9] 3)) 0 SEEK_SET))
       [0, 0, 0] 3)) = [7, 8, 9]"
proof -
  let ?w = "memcpy_into_iter demo_iter [7, 8, 9] 3"
  let ?s = "iovec_iter_seek (fst ?w) 0 SEEK_SET"
  let ?g = "memcpy_out_of_iter (fst ?s) [0, 0, 0] 3"
  show ?thesis
    using iter_write_read [of demo_iter "[7, 8, 9]" "[0, 0, 0]" "fst ?w" "snd ?w" "fst ?s" "snd ?s"
        "fst ?g" "fst (snd ?g)" "snd (snd ?g)"] demo_iter_facts
    by (simp add: eval_nat_numeral)
qed

text \<open>
  C11. Two writes one after the other have the effect of one write of the concatenation: the same
  bytes, the same final position and the same number of bytes in total, even when the buffers
  run out in the middle.
\<close>

theorem iter_write_append:
  assumes "iter_wf it"
    and "memcpy_into_iter it xs (length xs) = (it1, n)" "memcpy_into_iter it1 ys (length ys) = (it2, m)"
    and "memcpy_into_iter it (xs @ ys) (length (xs @ ys)) = (it3, l)"
  shows "iter_content it2 = iter_content it3 \<and> iter_pos it2 = iter_pos it3 \<and> n + m = l"
  using assms by (rule it.put_put)

theorem iter_write_append_witness:
  "iter_content (fst (memcpy_into_iter (fst (memcpy_into_iter demo_iter [7] 1)) [8, 9, 10, 11, 12] 5))
     = iter_content (fst (memcpy_into_iter demo_iter [7, 8, 9, 10, 11, 12] 6))"
proof -
  let ?a = "memcpy_into_iter demo_iter [7] 1"
  let ?b = "memcpy_into_iter (fst ?a) [8, 9, 10, 11, 12] 5"
  let ?c = "memcpy_into_iter demo_iter [7, 8, 9, 10, 11, 12] 6"
  show ?thesis
    using iter_write_append [of demo_iter "[7]" "fst ?a" "snd ?a" "[8, 9, 10, 11, 12]" "fst ?b" "snd ?b"
        "fst ?c" "snd ?c"] demo_iter_facts
    by (simp add: eval_nat_numeral)
qed

theorem iovec_iter_push_back_correct_witness:
  "iter_content (fst (iovec_iter_push_back (demo_iter\<lparr>it_cur_seg := 1, it_seg_start := 2, it_seg_offset := 2\<rparr>)
     [7, 8, 9] 3)) = [1, 7, 8, 9, 5]"
proof -
  let ?i = "demo_iter\<lparr>it_cur_seg := 1, it_seg_start := 2, it_seg_offset := 2\<rparr>"
  let ?p = "iovec_iter_push_back ?i [7, 8, 9] 3"
  have i: "iter_wf ?i" "iter_pos ?i = 4" "iter_content ?i = [1, 2, 3, 4, 5]"
    by (simp_all add: demo_iter_def iovec_iter_init_kvec_def iter_wf_def iter_pos_def iter_content_def
        kvecs_start_def add32_def upt_rec numeral_2_eq_2)
  show ?thesis
    using iovec_iter_push_back_correct [of ?i 3 "[7, 8, 9]" "fst ?p" "snd ?p"] i
    by (simp add: overwrite_def)
qed

theorem copy_uint8_into_iter_correct_witness:
  "\<exists>it'. copy_uint8_into_iter demo_iter 9 = Some (it', 1) \<and> iter_content it' = [9, 2, 3, 4, 5]"
  using copy_uint8_into_iter_correct [of demo_iter 9] demo_iter_facts
  by (auto simp: demo_iter_def iovec_iter_init_kvec_def)

text \<open>
  A string copied into segments that have room for at least one byte is always cut and
  terminated inside them: the segments hold the longest prefix that fits, is at most \<open>mx\<close> long
  and ends before the terminator of the source, followed by a zero byte.
\<close>

theorem strncpy_into_kvec_terminates_string:
  assumes wf: "kvecs_wf kv" "kv \<noteq> []" "kv_bytes (last kv) > 0" "off \<le> kv_bytes (kv ! 0)"
    and src: "k = length (takeWhile (\<lambda>b. b \<noteq> 0) src)" "k < length src" "k < 2147483648"
    and room: "room = length (kvecs_flat kv) - off" "off < length (kvecs_flat kv)"
  shows "\<exists>kv'. strncpy_into_kvec kv (length kv) off src mx = Some (kv', int (min (min k mx) room)) \<and>
           map kv_bytes kv' = map kv_bytes kv \<and>
           kvecs_flat kv' = overwrite off (take (min (min k mx) (room - 1)) src @ [0]) (kvecs_flat kv)"
proof -
  obtain kv' where kv': "strncpy_into_kvec kv (length kv) off src mx = Some (kv', int (min (min k mx) (0 + room)))"
      "map kv_bytes kv' = map kv_bytes kv"
      "kvecs_flat kv' = (if min k mx < 0 + room
             then overwrite off (take (min k mx - 0) (drop 0 src) @ [0]) (kvecs_flat kv)
             else overwrite (length (kvecs_flat kv) - 1) [0]
                    (overwrite off (take room (drop 0 src)) (kvecs_flat kv)))"
    using strncpy_into_kvec_loop_spec [OF wf(1) refl wf(2,3), of 0 off k src 0 mx off "min k mx" room]
      wf src room by (auto simp: strncpy_into_kvec_def)
  have "kvecs_flat kv' = overwrite off (take (min (min k mx) (room - 1)) src @ [0]) (kvecs_flat kv)"
  proof (cases "min k mx < room")
    case True
    then have "min (min k mx) (room - 1) = min k mx" by simp
    then show ?thesis using True kv'(3) by simp
  next
    case False
    then have "min (min k mx) (room - 1) = room - 1" "room \<le> length src" using src by simp_all
    then show ?thesis using False kv'(3) overwrite_last [of off room "kvecs_flat kv" src 0] room by simp
  qed
  then show ?thesis using kv' by simp
qed

theorem strncpy_into_kvec_terminates_string_witness:
  "\<exists>kv'. strncpy_into_kvec [\<lparr>kv_buf = [1, 2], kv_bytes = 2\<rparr>, \<lparr>kv_buf = [3, 4], kv_bytes = 2\<rparr>] (Suc (Suc 0)) 1
       [65, 66, 67, 68, 0] 10 = Some (kv', 3) \<and> kvecs_flat kv' = [1, 65, 66, 0]"
  using strncpy_into_kvec_terminates_string
    [of "[\<lparr>kv_buf = [1, 2], kv_bytes = 2\<rparr>, \<lparr>kv_buf = [3, 4], kv_bytes = 2\<rparr>]" 1 4 "[65, 66, 67, 68, 0]" 3 10]
  by (auto simp: overwrite_def)

text \<open>
  When the segments end before a terminator is found, \<^verbatim>\<open>strncpy_out_of_kvec\<close> returns the number
  of bytes it copied without terminating the destination, and replaces the last byte of the source
  by zero.
\<close>

theorem strncpy_out_of_kvec_clobbers_source:
  assumes "kvecs_wf kv" "kv \<noteq> []" "kv_bytes (last kv) > 0" "off \<le> kv_bytes (kv ! 0)"
    and "length (kvecs_flat kv) - off \<le> mx" "mx \<le> length dest" "mx < 2147483648"
    and "0 \<notin> set (drop off (kvecs_flat kv))"
  shows "\<exists>kv'. strncpy_out_of_kvec kv (length kv) off dest mx
             = Some (kv', overwrite 0 (drop off (kvecs_flat kv)) dest, int (length (kvecs_flat kv) - off)) \<and>
           kvecs_flat kv' = overwrite (length (kvecs_flat kv) - 1) [0] (kvecs_flat kv)"
proof -
  obtain kv' where kv': "kvec_terminate kv (length kv) = Some kv'"
      "kvecs_flat kv' = overwrite (length (kvecs_flat kv) - 1) [0] (kvecs_flat kv)"
    using kvec_terminate_flat [OF assms(1-3)] by blast
  show ?thesis
    using strncpy_out_of_kvec_loop_exhausted [OF assms(1) refl _ kv'(1), of 0 off off 0 mx dest] assms kv'(2)
    by (simp add: strncpy_out_of_kvec_def)
qed

theorem strncpy_out_of_kvec_clobbers_source_witness:
  "\<exists>kv'. strncpy_out_of_kvec [\<lparr>kv_buf = [65, 66], kv_bytes = 2\<rparr>] 1 0 [1, 2, 3] 3 = Some (kv', [65, 66, 3], 2) \<and>
     kvecs_flat kv' = [65, 0]"
  using strncpy_out_of_kvec_clobbers_source [of "[\<lparr>kv_buf = [65, 66], kv_bytes = 2\<rparr>]" 0 3 "[1, 2, 3]"]
  by (auto simp: overwrite_def)

end
