(* ===== verification/Ringbuffer.thy ===== *)
theory Ringbuffer
  imports Iovec "HOL-Library.Monad_Syntax"
begin

text \<open>
  The ring buffer of \<^verbatim>\<open>include/kernel/utils/ringbuffer.h\<close>, used by the serial lines, the console
  input queue and the byte streams of the network protocols. Its indices are C \<^verbatim>\<open>short\<close>s; an access
  outside the \<^verbatim>\<open>buffer\<close> array is the value \<open>None\<close>.

  The abstraction \<open>rb_contents\<close> is the byte sequence from \<^verbatim>\<open>out\<close> to \<^verbatim>\<open>in\<close> around the ring. The
  lemmas show that each operation acts on that sequence as on a queue with one cell less than the
  ring has, and name the calls that break it.
\<close>

section \<open>The data and the operations\<close>

record ringbuffer =
  rb_max :: int
  rb_in :: int
  rb_out :: int
  rb_buffer :: "u8 list"

definition RING_BUFFER_SIZE :: int where "RING_BUFFER_SIZE = 512"

definition rb_at :: "ringbuffer \<Rightarrow> int \<Rightarrow> u8 option" where
  "rb_at cb i = (if 0 \<le> i \<and> i < int (length (rb_buffer cb)) then Some (rb_buffer cb ! nat i) else None)"

definition rb_store :: "ringbuffer \<Rightarrow> int \<Rightarrow> u8 \<Rightarrow> ringbuffer option" where
  "rb_store cb i ch =
     (if 0 \<le> i \<and> i < int (length (rb_buffer cb))
      then Some (cb\<lparr>rb_buffer := (rb_buffer cb)[nat i := ch]\<rparr>) else None)"

definition buf_init :: "ringbuffer \<Rightarrow> int \<Rightarrow> ringbuffer" where
  "buf_init cb total_size =
     cb\<lparr>rb_max := (if total_size \<noteq> 0 then to_short (total_size - 6) else RING_BUFFER_SIZE),
        rb_in := 0, rb_out := 0\<rparr>"

definition buf_next_in :: "ringbuffer \<Rightarrow> int" where
  "buf_next_in cb = to_short (if rb_in cb + 1 < rb_max cb then rb_in cb + 1 else 0)"

definition buf_is_full :: "ringbuffer \<Rightarrow> bool" where
  "buf_is_full cb \<longleftrightarrow> buf_next_in cb = rb_out cb"

definition buf_is_empty :: "ringbuffer \<Rightarrow> bool" where
  "buf_is_empty cb \<longleftrightarrow> rb_in cb = rb_out cb"

definition buf_used_space :: "ringbuffer \<Rightarrow> int" where
  "buf_used_space cb = to_short (if rb_in cb \<ge> rb_out cb then rb_in cb - rb_out cb
                                 else rb_max cb - rb_out cb + rb_in cb)"

definition buf_free_space :: "ringbuffer \<Rightarrow> int" where
  "buf_free_space cb = to_short (if rb_out cb > rb_in cb then rb_out cb - rb_in cb - 1
                                 else rb_max cb - rb_in cb + rb_out cb - 1)"

definition buf_get_char :: "ringbuffer \<Rightarrow> (ringbuffer \<times> int) option" where
  "buf_get_char cb =
     (if rb_out cb = rb_in cb then Some (cb, - 1)
      else do {
        ch \<leftarrow> rb_at cb (rb_out cb);
        let out1 = to_short (rb_out cb + 1);
        Some (cb\<lparr>rb_out := (if out1 \<ge> rb_max cb then 0 else out1)\<rparr>, uint ch)
      })"

definition buf_put_char :: "ringbuffer \<Rightarrow> u8 \<Rightarrow> (ringbuffer \<times> int) option" where
  "buf_put_char cb ch =
     (let next' = buf_next_in cb
      in if next' = rb_out cb then Some (cb, - 1)
         else do {
           cb1 \<leftarrow> rb_store cb (rb_in cb) ch;
           Some (cb1\<lparr>rb_in := next'\<rparr>, uint ch)
         })"

text \<open>
  The bulk operations. \<open>buf_get\<close> and \<open>buf_peek\<close> return the bytes they store into \<^verbatim>\<open>data\<close>, whose
  number is their C result.
\<close>

fun buf_get_loop :: "nat \<Rightarrow> ringbuffer \<Rightarrow> (ringbuffer \<times> u8 list) option" where
  "buf_get_loop 0 cb = Some (cb, [])"
| "buf_get_loop (Suc n) cb =
     (if rb_out cb = rb_in cb then Some (cb, [])
      else do {
        ch \<leftarrow> rb_at cb (rb_out cb);
        let out1 = to_short (rb_out cb + 1);
        (cb', data) \<leftarrow> buf_get_loop n (cb\<lparr>rb_out := (if out1 \<ge> rb_max cb then 0 else out1)\<rparr>);
        Some (cb', ch # data)
      })"

definition buf_get :: "ringbuffer \<Rightarrow> int \<Rightarrow> (ringbuffer \<times> u8 list) option" where
  "buf_get cb nb = buf_get_loop (nat nb) cb"

fun buf_peek_loop :: "ringbuffer \<Rightarrow> nat \<Rightarrow> int \<Rightarrow> u8 list option" where
  "buf_peek_loop cb 0 j = Some []"
| "buf_peek_loop cb (Suc n) j =
     (if j = rb_in cb then Some []
      else do {
        ch \<leftarrow> rb_at cb j;
        let j1 = to_short (j + 1);
        data \<leftarrow> buf_peek_loop cb n (if j1 \<ge> rb_max cb then 0 else j1);
        Some (ch # data)
      })"

definition buf_peek :: "ringbuffer \<Rightarrow> int \<Rightarrow> int \<Rightarrow> u8 list option" where
  "buf_peek cb offset0 nb =
     (let avail = buf_used_space cb;
          offset = (if offset0 > avail then avail else offset0);
          j = to_short (rb_out cb + offset)
      in buf_peek_loop cb (nat nb) (if j > rb_max cb then to_short (j - rb_max cb) else j))"

fun buf_put_loop :: "ringbuffer \<Rightarrow> u8 list \<Rightarrow> int \<Rightarrow> (ringbuffer \<times> int) option" where
  "buf_put_loop cb [] i = Some (cb, i)"
| "buf_put_loop cb (d # data) i =
     do {
       cb1 \<leftarrow> rb_store cb (rb_in cb) d;
       let next' = buf_next_in cb1;
       if next' = rb_out cb1 then Some (cb1, i)
       else buf_put_loop (cb1\<lparr>rb_in := next'\<rparr>) data (i + 1)
     }"

definition buf_put :: "ringbuffer \<Rightarrow> u8 list \<Rightarrow> int \<Rightarrow> (ringbuffer \<times> int) option" where
  "buf_put cb data nb = (if nat nb \<le> length data then buf_put_loop cb (take (nat nb) data) 0 else None)"

definition buf_drop :: "ringbuffer \<Rightarrow> int \<Rightarrow> ringbuffer \<times> int" where
  "buf_drop cb size0 =
     (let avail = buf_used_space cb;
          nb = (if size0 > avail then avail else size0);
          out1 = to_short (rb_out cb + nb)
      in (cb\<lparr>rb_out := (if out1 \<ge> rb_max cb then to_short (out1 - rb_max cb) else out1)\<rparr>, nb))"

text \<open>
  Copies between the ring and an iterator. \<open>rb_copy_out\<close> is the call of \<^verbatim>\<open>memcpy_into_iter\<close> on
  \<^verbatim>\<open>&cb->buffer[at]\<close>, \<open>rb_copy_in\<close> the call of \<^verbatim>\<open>memcpy_out_of_iter\<close>; both are defined only when the
  bytes asked for lie in the array.
\<close>

definition rb_copy_out :: "ringbuffer \<Rightarrow> int \<Rightarrow> int \<Rightarrow> iovec_iter \<Rightarrow> iovec_iter option" where
  "rb_copy_out cb at n it =
     (if 0 \<le> at \<and> 0 \<le> n \<and> at + n \<le> int (length (rb_buffer cb))
      then Some (fst (memcpy_into_iter it (drop (nat at) (rb_buffer cb)) (to_size n))) else None)"

definition rb_copy_in :: "ringbuffer \<Rightarrow> int \<Rightarrow> int \<Rightarrow> iovec_iter \<Rightarrow> (ringbuffer \<times> iovec_iter) option" where
  "rb_copy_in cb at n it =
     (if 0 \<le> at \<and> 0 \<le> n \<and> at + n \<le> int (length (rb_buffer cb))
      then (let (it', buf, _) = memcpy_out_of_iter it (drop (nat at) (rb_buffer cb)) (to_size n)
            in Some (cb\<lparr>rb_buffer := take (nat at) (rb_buffer cb) @ buf\<rparr>, it')) else None)"

text \<open>
  In the comparisons with \<^verbatim>\<open>size\<close> the signed difference is converted to an unsigned number, as
  C does; the minimum is stored into a \<^verbatim>\<open>short\<close>.
\<close>

definition chunk_min :: "int \<Rightarrow> nat \<Rightarrow> int" where
  "chunk_min d nb = to_short (if to_size d < nb then d else int nb)"

definition buf_get_iter :: "ringbuffer \<Rightarrow> iovec_iter \<Rightarrow> (ringbuffer \<times> iovec_iter \<times> int) option" where
  "buf_get_iter cb it =
     (let nb = iovec_iter_remaining it;
          chunk1 = (if rb_in cb > rb_out cb then chunk_min (rb_in cb - rb_out cb) nb
                    else chunk_min (rb_max cb - rb_out cb) nb)
      in do {
        it1 \<leftarrow> rb_copy_out cb (rb_out cb) chunk1 it;
        let out1 = to_short (rb_out cb + chunk1);
        let cb1 = cb\<lparr>rb_out := (if out1 \<ge> rb_max cb then 0 else out1)\<rparr>;
        let nb1 = sub32 nb (to_size chunk1);
        if nb1 \<le> 0 \<or> rb_out cb1 = rb_in cb1 then Some (cb1, it1, chunk1)
        else
          let chunk2 = chunk_min (rb_in cb1 - rb_out cb1) nb1
          in do {
            it2 \<leftarrow> rb_copy_out cb1 (rb_out cb1) chunk2 it1;
            Some (cb1\<lparr>rb_out := to_short (rb_out cb1 + chunk2)\<rparr>, it2, to_short (chunk1 + chunk2))
          }
      })"

definition buf_put_iter :: "ringbuffer \<Rightarrow> iovec_iter \<Rightarrow> (ringbuffer \<times> iovec_iter \<times> int) option" where
  "buf_put_iter cb it =
     (let nb = iovec_iter_remaining it;
          chunk1 = (if rb_out cb > rb_in cb then chunk_min (rb_out cb - rb_in cb - 1) nb
                    else to_short (if to_size (rb_max cb - rb_in cb) < nb
                                   then rb_max cb - rb_in cb - (if rb_out cb \<noteq> 0 then 0 else 1)
                                   else int nb))
      in do {
        (cb0, it1) \<leftarrow> rb_copy_in cb (rb_in cb) chunk1 it;
        let in1 = to_short (rb_in cb0 + chunk1);
        let cb1 = cb0\<lparr>rb_in := (if in1 \<ge> rb_max cb0 then 0 else in1)\<rparr>;
        let nb1 = sub32 nb (to_size chunk1);
        if nb1 \<le> 0 \<or> rb_in cb1 + 1 = rb_out cb1 \<or> rb_in cb1 + 1 = rb_max cb1 then Some (cb1, it1, chunk1)
        else
          let chunk2 = chunk_min (rb_out cb1 - rb_in cb1 - 1) nb1
          in do {
            (cb2, it2) \<leftarrow> rb_copy_in cb1 (rb_in cb1) chunk2 it1;
            Some (cb2\<lparr>rb_in := to_short (rb_in cb2 + chunk2)\<rparr>, it2, to_short (chunk1 + chunk2))
          }
      })"

section \<open>The abstraction\<close>

definition rb_wf :: "ringbuffer \<Rightarrow> bool" where
  "rb_wf cb \<longleftrightarrow> 0 < rb_max cb \<and> rb_max cb \<le> int (length (rb_buffer cb)) \<and> rb_max cb < 32768 \<and>
     0 \<le> rb_in cb \<and> rb_in cb < rb_max cb \<and> 0 \<le> rb_out cb \<and> rb_out cb < rb_max cb"

definition rb_used :: "ringbuffer \<Rightarrow> nat" where
  "rb_used cb = nat ((rb_in cb - rb_out cb) mod rb_max cb)"

definition rb_contents :: "ringbuffer \<Rightarrow> u8 list" where
  "rb_contents cb = map (\<lambda>i. rb_buffer cb ! nat ((rb_out cb + int i) mod rb_max cb)) [0..<rb_used cb]"

definition rb_capacity :: "ringbuffer \<Rightarrow> nat" where
  "rb_capacity cb = nat (rb_max cb) - 1"

lemma length_rb_contents [simp]: "length (rb_contents cb) = rb_used cb"
  by (simp add: rb_contents_def)

lemma rb_used_less: "rb_wf cb \<Longrightarrow> rb_used cb < nat (rb_max cb)"
  by (simp add: rb_used_def rb_wf_def)

lemma mod_sub_cases:
  "0 \<le> a \<Longrightarrow> a < m \<Longrightarrow> 0 \<le> b \<Longrightarrow> b < m \<Longrightarrow>
     (a - b) mod m = (if a \<ge> b then a - b else m - b + a)" for a b m :: int
proof -
  assume a: "0 \<le> a" "a < m" "0 \<le> b" "b < m"
  show ?thesis
  proof (cases "a \<ge> b")
    case True
    then show ?thesis using a by simp
  next
    case False
    have "(a - b) mod m = (a - b + m) mod m" by simp
    also have "\<dots> = a - b + m" using a False by (intro mod_pos_pos_trivial) auto
    finally show ?thesis using False by simp
  qed
qed

lemma rb_used_eq:
  assumes "rb_wf cb"
  shows "int (rb_used cb) = (if rb_in cb \<ge> rb_out cb then rb_in cb - rb_out cb else rb_max cb - rb_out cb + rb_in cb)"
  using assms mod_sub_cases [of "rb_in cb" "rb_max cb" "rb_out cb"]
  by (simp add: rb_used_def rb_wf_def)

lemma buf_used_space_eq: "rb_wf cb \<Longrightarrow> buf_used_space cb = int (rb_used cb)"
  by (simp only: buf_used_space_def rb_used_eq) (auto simp: rb_wf_def c_arith)

lemma buf_free_space_eq: "rb_wf cb \<Longrightarrow> buf_free_space cb = int (rb_capacity cb) - int (rb_used cb)"
  by (simp only: buf_free_space_def rb_used_eq) (auto simp: rb_wf_def c_arith rb_capacity_def)

lemma rb_contents_nil: "rb_wf cb \<Longrightarrow> rb_contents cb = [] \<longleftrightarrow> rb_in cb = rb_out cb"
  using rb_used_eq [of cb] by (auto simp: rb_contents_def rb_wf_def split: if_splits)

text \<open>Advancing \<^verbatim>\<open>out\<close> by \<open>n\<close> drops \<open>n\<close> bytes.\<close>

lemma rb_advance:
  assumes "rb_wf cb" "n \<le> rb_used cb" "cb' = cb\<lparr>rb_out := (rb_out cb + int n) mod rb_max cb\<rparr>"
  shows "rb_wf cb' \<and> rb_contents cb' = drop n (rb_contents cb)"
proof -
  have m: "0 < rb_max cb" using assms(1) by (simp add: rb_wf_def)
  have "int (rb_used cb') = ((rb_in cb - rb_out cb) mod rb_max cb - int n) mod rb_max cb"
    using assms(3) m by (simp add: rb_used_def mod_simps algebra_simps)
  also have "\<dots> = int (rb_used cb - n)"
  proof -
    have "(rb_in cb - rb_out cb) mod rb_max cb = int (rb_used cb)" using m by (simp add: rb_used_def)
    moreover have "(int (rb_used cb) - int n) mod rb_max cb = int (rb_used cb) - int n"
      using assms(2) m rb_used_less [OF assms(1)] by (intro mod_pos_pos_trivial) auto
    ultimately show ?thesis using assms(2) by simp
  qed
  finally have u: "rb_used cb' = rb_used cb - n" by simp
  have "rb_contents cb' = drop n (rb_contents cb)"
  proof (rule nth_equalityI)
    show "length (rb_contents cb') = length (drop n (rb_contents cb))" using u by simp
    fix i assume "i < length (rb_contents cb')"
    then have i: "i < rb_used cb'" "n + i < rb_used cb" using u by simp_all
    have "rb_contents cb' ! i = rb_buffer cb ! nat ((rb_out cb + int n + int i) mod rb_max cb)"
      using i(1) assms(3) by (simp add: rb_contents_def mod_simps)
    then show "rb_contents cb' ! i = drop n (rb_contents cb) ! i"
      using i(2) by (simp add: rb_contents_def add.assoc)
  qed
  then show ?thesis using assms(1,3) m by (simp add: rb_wf_def)
qed

text \<open>Writing \<open>ys\<close> at \<^verbatim>\<open>in\<close>, without running over the end of the array, appends them.\<close>

lemma rb_index_distinct:
  assumes "0 < m" "i < u" "k < l" "u + l \<le> nat m"
  shows "(a + int i) mod m \<noteq> (a + int u + int k) mod m"
proof
  assume "(a + int i) mod m = (a + int u + int k) mod m"
  then have "m dvd (a + int u + int k) - (a + int i)" by (metis mod_eq_dvd_iff)
  then have "m dvd int (u + k - i)" using assms(2) by (simp add: algebra_simps)
  moreover have "0 < int (u + k - i)" "int (u + k - i) < m" using assms by auto
  ultimately show False using zdvd_not_zless by blast
qed

lemma rb_append:
  assumes wf: "rb_wf cb" and fit: "rb_in cb + int (length ys) \<le> rb_max cb"
    and space: "rb_used cb + length ys < nat (rb_max cb)"
    and cb': "cb' = cb\<lparr>rb_buffer := overwrite (nat (rb_in cb)) ys (rb_buffer cb),
                        rb_in := (rb_in cb + int (length ys)) mod rb_max cb\<rparr>"
  shows "rb_wf cb' \<and> rb_contents cb' = rb_contents cb @ ys"
proof -
  let ?m = "rb_max cb" and ?u = "rb_used cb" and ?l = "length ys"
  have m: "0 < ?m" "0 \<le> rb_in cb" using wf by (simp_all add: rb_wf_def)
  have len: "nat (rb_in cb) + ?l \<le> length (rb_buffer cb)" using fit wf unfolding rb_wf_def by linarith
  have u: "(rb_in cb - rb_out cb) mod ?m = int ?u" using m by (simp add: rb_used_def)
  have "(rb_in cb + int ?l - rb_out cb) mod ?m = (int ?u + int ?l) mod ?m"
    using u by (metis add_diff_eq add.commute mod_add_left_eq)
  also have "\<dots> = int ?u + int ?l" using space m by (intro mod_pos_pos_trivial) auto
  finally have e: "(rb_in cb + int ?l - rb_out cb) mod ?m = int (?u + ?l)" by simp
  have "rb_used cb' = nat ((rb_in cb + int ?l - rb_out cb) mod ?m)"
    using cb' by (simp add: rb_used_def mod_simps)
  then have u': "rb_used cb' = ?u + ?l" by (simp only: e nat_int)
  have inpos: "(rb_out cb + int ?u) mod ?m = rb_in cb"
    using u wf by (metis diff_add_cancel add.commute mod_add_left_eq mod_pos_pos_trivial rb_wf_def)
  have "rb_contents cb' = rb_contents cb @ ys"
  proof (rule nth_equalityI)
    show "length (rb_contents cb') = length (rb_contents cb @ ys)" using u' by simp
    fix i assume "i < length (rb_contents cb')"
    then have i: "i < ?u + ?l" using u' by simp
    let ?j = "nat ((rb_out cb + int i) mod ?m)"
    have j: "?j < length (rb_buffer cb)"
      using wf pos_mod_bound [OF m(1), of "rb_out cb + int i"] pos_mod_sign [OF m(1), of "rb_out cb + int i"]
      unfolding rb_wf_def by linarith
    have nth: "rb_contents cb' ! i = overwrite (nat (rb_in cb)) ys (rb_buffer cb) ! ?j"
      using i u' cb' by (simp add: rb_contents_def)
    show "rb_contents cb' ! i = (rb_contents cb @ ys) ! i"
    proof (cases "i < ?u")
      case True
      have "\<not> (nat (rb_in cb) \<le> ?j \<and> ?j < nat (rb_in cb) + ?l)"
      proof
        assume a: "nat (rb_in cb) \<le> ?j \<and> ?j < nat (rb_in cb) + ?l"
        define k where "k = ?j - nat (rb_in cb)"
        have k: "k < ?l" "int ?j = rb_in cb + int k" using a m by (auto simp: k_def)
        have "(rb_out cb + int ?u + int k) mod ?m = (rb_in cb + int k) mod ?m"
          using inpos by (metis mod_add_left_eq)
        also have "\<dots> = rb_in cb + int k" using k fit m by (intro mod_pos_pos_trivial) auto
        finally have "(rb_out cb + int i) mod ?m = (rb_out cb + int ?u + int k) mod ?m"
          using k m by simp
        then show False using rb_index_distinct [of ?m i ?u k ?l "rb_out cb"] True k space m by simp
      qed
      then have "rb_contents cb' ! i = rb_buffer cb ! ?j" using nth nth_overwrite [OF len j] by presburger
      then show ?thesis using True by (simp add: nth_append rb_contents_def)
    next
      case False
      define k where "k = i - ?u"
      have k: "k < ?l" "int i = int ?u + int k" using i False by (auto simp: k_def)
      have "(rb_out cb + int i) mod ?m = (rb_in cb + int k) mod ?m"
        using inpos k(2) by (metis add.assoc mod_add_left_eq)
      also have "\<dots> = rb_in cb + int k" using k fit m by (intro mod_pos_pos_trivial) auto
      finally have jk: "?j = nat (rb_in cb) + k" using m by simp
      have "overwrite (nat (rb_in cb)) ys (rb_buffer cb) ! (nat (rb_in cb) + k) = ys ! k"
        using nth_overwrite [OF len, of "nat (rb_in cb) + k"] len k(1) by simp
      then have "rb_contents cb' ! i = ys ! k" by (simp only: nth jk)
      then show ?thesis using False by (simp add: nth_append k_def)
    qed
  qed
  then show ?thesis using cb' wf m len by (auto simp: rb_wf_def)
qed

section \<open>Single characters\<close>

lemma rb_wrap: "0 \<le> i \<Longrightarrow> i < m \<Longrightarrow> (if i + 1 \<ge> m then 0 else i + 1) = (i + 1) mod m" for i m :: int
  by (cases "i + 1 = m") auto

lemma rb_at_out: "rb_wf cb \<Longrightarrow> rb_at cb (rb_out cb) = Some (rb_buffer cb ! nat (rb_out cb))"
  by (simp add: rb_at_def rb_wf_def)

lemma rb_in_index: "rb_wf cb \<Longrightarrow> nat (rb_in cb) < length (rb_buffer cb)"
  unfolding rb_wf_def by linarith

lemma rb_store_in:
  "rb_wf cb \<Longrightarrow> rb_store cb (rb_in cb) ch = Some (cb\<lparr>rb_buffer := overwrite (nat (rb_in cb)) [ch] (rb_buffer cb)\<rparr>)"
  using overwrite_single [OF rb_in_index, of cb ch] by (simp add: rb_store_def rb_wf_def)

lemma buf_next_in_cases: "rb_wf cb \<Longrightarrow> buf_next_in cb = (if rb_in cb + 1 \<ge> rb_max cb then 0 else rb_in cb + 1)"
  by (simp add: buf_next_in_def rb_wf_def to_short_id)

lemma buf_next_in_mod: "rb_wf cb \<Longrightarrow> buf_next_in cb = (rb_in cb + 1) mod rb_max cb"
  unfolding buf_next_in_cases by (rule rb_wrap) (simp_all add: rb_wf_def)

lemma rb_out_next:
  assumes "rb_wf cb"
  shows "(if to_short (rb_out cb + 1) \<ge> rb_max cb then 0 else to_short (rb_out cb + 1))
     = (rb_out cb + int 1) mod rb_max cb"
proof -
  have "to_short (rb_out cb + 1) = rb_out cb + 1" using assms by (simp add: rb_wf_def to_short_id)
  then show ?thesis using rb_wrap [of "rb_out cb" "rb_max cb"] assms by (simp only: rb_wf_def of_nat_1)
qed

lemma rb_full:
  assumes "rb_wf cb"
  shows "buf_next_in cb = rb_out cb \<longleftrightarrow> rb_used cb = rb_capacity cb"
proof -
  have "rb_used cb = rb_capacity cb \<longleftrightarrow> int (rb_used cb) = rb_max cb - 1"
    using assms unfolding rb_capacity_def rb_wf_def by linarith
  then show ?thesis
    using buf_next_in_cases [OF assms] rb_used_eq [OF assms] assms unfolding rb_wf_def
    by (cases "rb_in cb + 1 \<ge> rb_max cb"; cases "rb_in cb \<ge> rb_out cb") (simp_all, linarith+)
qed

text \<open>One step of \<^verbatim>\<open>out\<close> over a byte of the contents.\<close>

lemma rb_pop:
  assumes "rb_wf cb" "rb_contents cb = x # xs"
    and "cb' = cb\<lparr>rb_out := (if to_short (rb_out cb + 1) \<ge> rb_max cb then 0 else to_short (rb_out cb + 1))\<rparr>"
  shows "rb_out cb \<noteq> rb_in cb \<and> rb_at cb (rb_out cb) = Some x \<and> rb_wf cb' \<and> rb_contents cb' = xs \<and>
         rb_max cb' = rb_max cb"
proof -
  have u: "1 \<le> rb_used cb" using assms(2) by (metis length_rb_contents length_Cons le_add1 plus_1_eq_Suc)
  have "x = rb_contents cb ! 0" using assms(2) by simp
  then have "x = rb_buffer cb ! nat (rb_out cb)"
    using u assms(1) by (simp add: rb_contents_def rb_wf_def del: upt.simps)
  then show ?thesis
    using rb_advance [OF assms(1) u, of cb'] assms rb_out_next [OF assms(1)] rb_at_out [OF assms(1)]
      rb_contents_nil [OF assms(1)] by auto
qed

lemma buf_get_char_spec:
  assumes "rb_wf cb"
  shows "rb_contents cb = [] \<Longrightarrow> buf_get_char cb = Some (cb, - 1)"
    and "rb_contents cb = x # xs \<Longrightarrow> \<exists>cb'. buf_get_char cb = Some (cb', uint x) \<and> rb_wf cb' \<and>
           rb_contents cb' = xs \<and> rb_max cb' = rb_max cb"
proof -
  show "rb_contents cb = [] \<Longrightarrow> buf_get_char cb = Some (cb, - 1)"
    using rb_contents_nil [OF assms] by (simp add: buf_get_char_def)
  assume c: "rb_contents cb = x # xs"
  show "\<exists>cb'. buf_get_char cb = Some (cb', uint x) \<and> rb_wf cb' \<and> rb_contents cb' = xs \<and> rb_max cb' = rb_max cb"
    using rb_pop [OF assms c refl] by (simp add: buf_get_char_def Let_def)
qed

lemma buf_put_char_spec:
  assumes "rb_wf cb"
  shows "rb_used cb = rb_capacity cb \<Longrightarrow> buf_put_char cb ch = Some (cb, - 1)"
    and "rb_used cb < rb_capacity cb \<Longrightarrow> \<exists>cb'. buf_put_char cb ch = Some (cb', uint ch) \<and> rb_wf cb' \<and>
           rb_contents cb' = rb_contents cb @ [ch] \<and> rb_max cb' = rb_max cb"
proof -
  show "rb_used cb = rb_capacity cb \<Longrightarrow> buf_put_char cb ch = Some (cb, - 1)"
    using rb_full [OF assms] by (simp add: buf_put_char_def)
  assume u: "rb_used cb < rb_capacity cb"
  define cb' where "cb' = cb\<lparr>rb_buffer := overwrite (nat (rb_in cb)) [ch] (rb_buffer cb),
      rb_in := (rb_in cb + int (length [ch])) mod rb_max cb\<rparr>"
  have "rb_wf cb' \<and> rb_contents cb' = rb_contents cb @ [ch]"
    by (rule rb_append [OF assms _ _ cb'_def]) (use u assms in \<open>auto simp: rb_capacity_def rb_wf_def\<close>)
  moreover have "buf_put_char cb ch = Some (cb', uint ch)"
    using rb_full [OF assms] u rb_store_in [OF assms] buf_next_in_mod [OF assms]
    by (simp add: buf_put_char_def Let_def cb'_def)
  ultimately show "\<exists>cb'. buf_put_char cb ch = Some (cb', uint ch) \<and> rb_wf cb' \<and>
      rb_contents cb' = rb_contents cb @ [ch] \<and> rb_max cb' = rb_max cb"
    by (simp add: cb'_def)
qed

section \<open>Bulk transfers\<close>

lemma buf_get_loop_spec:
  "rb_wf cb \<Longrightarrow> \<exists>cb'. buf_get_loop n cb = Some (cb', take n (rb_contents cb)) \<and> rb_wf cb' \<and>
     rb_contents cb' = drop n (rb_contents cb)"
proof (induction n arbitrary: cb)
  case 0
  then show ?case by simp
next
  case (Suc n)
  show ?case
  proof (cases "rb_contents cb")
    case Nil
    then show ?thesis using Suc.prems rb_contents_nil [of cb] by simp
  next
    case (Cons x xs)
    let ?cb = "cb\<lparr>rb_out := (if to_short (rb_out cb + 1) \<ge> rb_max cb then 0 else to_short (rb_out cb + 1))\<rparr>"
    note pop = rb_pop [OF Suc.prems Cons refl]
    obtain cb' where "buf_get_loop n ?cb = Some (cb', take n xs)" "rb_wf cb'" "rb_contents cb' = drop n xs"
      using Suc.IH [of ?cb] pop by auto
    then show ?thesis using pop Cons by (simp add: Let_def)
  qed
qed

lemma buf_peek_loop_spec:
  assumes "rb_wf cb" "k \<le> rb_used cb" "j = (rb_out cb + int k) mod rb_max cb"
  shows "buf_peek_loop cb n j = Some (take n (drop k (rb_contents cb)))"
  using assms
proof (induction n arbitrary: k j)
  case 0
  then show ?case by simp
next
  case (Suc n)
  let ?cb = "cb\<lparr>rb_out := j\<rparr>"
  have adv: "rb_wf ?cb" "rb_contents ?cb = drop k (rb_contents cb)"
    using rb_advance [OF Suc.prems(1,2), of ?cb] Suc.prems(3) by simp_all
  show ?case
  proof (cases "drop k (rb_contents cb)")
    case Nil
    then show ?thesis using adv rb_contents_nil [OF adv(1)] by simp
  next
    case (Cons x xs)
    then have c: "rb_contents ?cb = x # xs" using adv(2) by simp
    have k: "Suc k \<le> rb_used cb" using Cons by (metis Suc_leI drop_all length_rb_contents list.distinct(1) not_le)
    have "rb_at ?cb j = rb_at cb j" by (simp add: rb_at_def)
    then have "rb_at cb j = Some x" "j \<noteq> rb_in cb"
      using rb_pop [OF adv(1) c refl] by simp_all
    moreover have "(j + 1) mod rb_max cb = (rb_out cb + int (Suc k)) mod rb_max cb"
      unfolding Suc.prems(3) by (simp add: mod_simps algebra_simps)
    then have "(if to_short (j + 1) \<ge> rb_max cb then 0 else to_short (j + 1)) = (rb_out cb + int (Suc k)) mod rb_max cb"
      using rb_out_next [OF adv(1)] by (simp cong: if_cong)
    moreover have "drop (Suc k) (rb_contents cb) = xs" using Cons by (metis drop_Suc list.sel(3) tl_drop)
    ultimately show ?thesis
      using Suc.IH [OF Suc.prems(1) k refl] Cons by (simp add: Let_def)
  qed
qed

text \<open>The cell at \<^verbatim>\<open>in\<close> is not part of the contents.\<close>

lemma rb_store_free:
  assumes wf: "rb_wf cb" and cb': "cb' = cb\<lparr>rb_buffer := overwrite (nat (rb_in cb)) [ch] (rb_buffer cb)\<rparr>"
  shows "rb_wf cb' \<and> rb_contents cb' = rb_contents cb \<and> rb_used cb' = rb_used cb"
proof -
  let ?m = "rb_max cb"
  have m: "0 < ?m" using wf by (simp add: rb_wf_def)
  have inpos: "(rb_out cb + int (rb_used cb)) mod ?m = rb_in cb"
    using wf m by (simp add: rb_used_def mod_simps) (simp add: rb_wf_def)
  have "nat (rb_in cb) \<noteq> nat ((rb_out cb + int i) mod ?m)" if "i < rb_used cb" for i
    using rb_index_distinct [OF m that, of 0 1 "rb_out cb"] rb_used_less [OF wf] inpos m wf
    by (simp add: rb_wf_def eq_nat_nat_iff eq_commute)
  then have "rb_contents cb' = rb_contents cb"
    using cb' rb_in_index [OF wf]
    by (auto simp: rb_contents_def rb_used_def overwrite_single [symmetric])
  then show ?thesis
    using wf cb' rb_in_index [OF wf] by (simp add: rb_wf_def rb_used_def)
qed

lemma buf_put_loop_spec:
  assumes "rb_wf cb" "k = min (length data) (rb_capacity cb - rb_used cb)"
  shows "\<exists>cb'. buf_put_loop cb data i = Some (cb', i + int k) \<and> rb_wf cb' \<and>
           rb_contents cb' = rb_contents cb @ take k data"
  using assms
proof (induction data arbitrary: cb i k)
  case Nil
  then show ?case by simp
next
  case (Cons d data)
  note wf = Cons.prems(1)
  define cb1 where "cb1 = cb\<lparr>rb_buffer := overwrite (nat (rb_in cb)) [d] (rb_buffer cb)\<rparr>"
  have st: "rb_store cb (rb_in cb) d = Some cb1" using rb_store_in [OF wf] by (simp add: cb1_def)
  have nx: "buf_next_in cb1 = buf_next_in cb" by (simp add: buf_next_in_def cb1_def)
  show ?case
  proof (cases "rb_used cb = rb_capacity cb")
    case True
    then have "buf_put_loop cb (d # data) i = Some (cb1, i)"
      using st nx rb_full [OF wf] by (simp add: Let_def cb1_def)
    then show ?thesis using rb_store_free [OF wf cb1_def] True Cons.prems(2) by simp
  next
    case False
    then have less: "rb_used cb < rb_capacity cb"
      using rb_used_less [OF wf] by (simp add: rb_capacity_def)
    define cb2 where "cb2 = cb1\<lparr>rb_in := buf_next_in cb1\<rparr>"
    have "rb_wf cb2 \<and> rb_contents cb2 = rb_contents cb @ [d]"
      by (rule rb_append [OF wf]) (use less wf in \<open>auto simp: rb_capacity_def rb_wf_def cb2_def cb1_def
            nx [unfolded cb1_def] buf_next_in_mod\<close>)
    then have c2: "rb_wf cb2" "rb_contents cb2 = rb_contents cb @ [d]" by simp_all
    have u2: "rb_used cb2 = rb_used cb + 1" using c2(2) by (metis length_append_singleton length_rb_contents Suc_eq_plus1)
    have cap: "rb_capacity cb2 = rb_capacity cb" by (simp add: rb_capacity_def cb2_def cb1_def)
    define k' where "k' = k - 1"
    have k: "k = Suc k'" using Cons.prems(2) less by (simp add: k'_def)
    have k': "k' = min (length data) (rb_capacity cb2 - rb_used cb2)"
      using Cons.prems(2) k u2 cap less by auto
    obtain cb' where "buf_put_loop cb2 data (i + 1) = Some (cb', i + 1 + int k')" "rb_wf cb'"
        "rb_contents cb' = rb_contents cb2 @ take k' data"
      using Cons.IH [OF c2(1) k'] by blast
    moreover have "buf_put_loop cb (d # data) i = buf_put_loop cb2 data (i + 1)"
      using st nx rb_full [OF wf] False by (simp add: Let_def cb2_def) (simp add: cb1_def)
    ultimately show ?thesis using c2(2) k by simp
  qed
qed

text \<open>
  Discarding bytes from the front. The sum of \<^verbatim>\<open>out\<close> and the count must fit into a \<^verbatim>\<open>short\<close>,
  which it does for the rings of the kernel (at most one page). A negative count moves \<^verbatim>\<open>out\<close> in
  front of the array.
\<close>

lemma rb_out_sum:
  assumes "rb_wf cb" "k \<le> rb_used cb"
  shows "(if rb_out cb + int k \<ge> rb_max cb then rb_out cb + int k - rb_max cb else rb_out cb + int k)
           = (rb_out cb + int k) mod rb_max cb"
proof -
  have r: "0 \<le> rb_out cb" "rb_out cb < rb_max cb" "int k < rb_max cb"
    using assms rb_used_less [OF assms(1)] by (auto simp: rb_wf_def)
  show ?thesis
  proof (cases "rb_out cb + int k \<ge> rb_max cb")
    case True
    have "(rb_out cb + int k) mod rb_max cb = (rb_out cb + int k - rb_max cb) mod rb_max cb" by simp
    also have "\<dots> = rb_out cb + int k - rb_max cb" using True r by (intro mod_pos_pos_trivial) auto
    finally show ?thesis using True by simp
  qed (use r in simp)
qed

lemma buf_drop_spec:
  assumes wf: "rb_wf cb" and nb: "0 \<le> nb" and small: "rb_max cb \<le> 16384"
    and dr: "buf_drop cb nb = (cb', r)"
  shows "rb_wf cb' \<and> rb_contents cb' = drop (nat nb) (rb_contents cb) \<and> r = min nb (int (rb_used cb))"
proof -
  define k where "k = min (nat nb) (rb_used cb)"
  have k: "k \<le> rb_used cb" "(if nb > buf_used_space cb then buf_used_space cb else nb) = int k"
    using nb by (auto simp: k_def buf_used_space_eq [OF wf])
  have r: "0 < rb_max cb" "0 \<le> rb_out cb" "rb_out cb < rb_max cb" "int k < rb_max cb"
    using wf k(1) rb_used_less [OF wf] by (auto simp: rb_wf_def)
  have sh: "to_short (rb_out cb + int k) = rb_out cb + int k"
    "to_short (rb_out cb + int k - rb_max cb) = rb_out cb + int k - rb_max cb"
    using r small by (simp_all add: to_short_id)
  have "cb' = cb\<lparr>rb_out := (rb_out cb + int k) mod rb_max cb\<rparr>" "r = int k"
    using dr unfolding buf_drop_def Let_def k(2) sh rb_out_sum [OF wf k(1)] by auto
  then show ?thesis
    using rb_advance [OF wf k(1), of cb'] nb by (auto simp: k_def min_def)
qed

lemma buf_drop_negative:
  assumes "rb_wf cb" "nb < 0" "rb_out cb + nb < 0" "- 32768 \<le> nb"
  shows "rb_out (fst (buf_drop cb nb)) < 0"
proof -
  have "0 \<le> rb_out cb" "0 < rb_max cb" using assms(1) by (auto simp: rb_wf_def)
  then show ?thesis
    using assms buf_used_space_eq [OF assms(1)] by (simp add: buf_drop_def Let_def to_short_id)
qed

text \<open>
  Looking at bytes without taking them. The start index is right unless it is exactly \<^verbatim>\<open>max\<close>,
  which the comparison with \<^verbatim>\<open>>\<close> lets through.
\<close>

lemma buf_peek_spec:
  assumes wf: "rb_wf cb" and off: "0 \<le> off" "off \<le> int (rb_used cb)" and small: "rb_max cb \<le> 16384"
    and ne: "rb_out cb + off \<noteq> rb_max cb"
  shows "buf_peek cb off nb = Some (take (nat nb) (drop (nat off) (rb_contents cb)))"
proof -
  define k where "k = nat off"
  have k: "k \<le> rb_used cb" "off = int k" using off by (auto simp: k_def)
  have r: "0 < rb_max cb" "0 \<le> rb_out cb" "rb_out cb < rb_max cb" "int k < rb_max cb"
    using wf k(1) rb_used_less [OF wf] by (auto simp: rb_wf_def)
  have sh: "to_short (rb_out cb + int k) = rb_out cb + int k"
    "to_short (rb_out cb + int k - rb_max cb) = rb_out cb + int k - rb_max cb"
    using r small by (simp_all add: to_short_id)
  have wrap: "(if rb_out cb + int k > rb_max cb then rb_out cb + int k - rb_max cb else rb_out cb + int k)
      = (rb_out cb + int k) mod rb_max cb"
    using rb_out_sum [OF wf k(1)] ne k(2) by (cases "rb_out cb + int k > rb_max cb") simp_all
  have "(if int k > buf_used_space cb then buf_used_space cb else int k) = int k"
    using k(1) buf_used_space_eq [OF wf] by simp
  then show ?thesis
    unfolding buf_peek_def Let_def k(2) by (simp only: sh wrap buf_peek_loop_spec [OF wf k(1) refl] nat_int)
qed

lemma buf_peek_at_max:
  assumes wf: "rb_wf cb" and "rb_in cb < rb_out cb" "rb_max cb \<le> 16384" "0 < nb"
  shows "buf_peek cb (rb_max cb - rb_out cb) nb
           = Option.bind (rb_at cb (rb_max cb)) (\<lambda>ch. map_option ((#) ch) (buf_peek_loop cb (nat nb - 1) 0))"
proof -
  have r: "0 < rb_max cb" "0 \<le> rb_out cb" "rb_out cb < rb_max cb" "rb_in cb < rb_max cb" "0 \<le> rb_in cb"
    using wf by (auto simp: rb_wf_def)
  have "buf_used_space cb = rb_max cb - rb_out cb + rb_in cb"
    using buf_used_space_eq [OF wf] rb_used_eq [OF wf] assms(2) by simp
  moreover obtain n where "nat nb = Suc n" using assms(4) by (metis gr0_implies_Suc zero_less_nat_eq)
  ultimately show ?thesis
    using r assms(3) by (simp add: buf_peek_def Let_def to_short_id map_option_case split: option.splits Option.bind_splits)
qed

section \<open>Transfers through an iterator\<close>

lemma rb_contiguous:
  assumes "rb_wf cb" "n \<le> rb_used cb" "rb_out cb + int n \<le> rb_max cb"
  shows "take n (drop (nat (rb_out cb)) (rb_buffer cb)) = take n (rb_contents cb)"
proof (rule nth_equalityI)
  have len: "nat (rb_out cb) + n \<le> length (rb_buffer cb)" using assms(1,3) unfolding rb_wf_def by linarith
  then show "length (take n (drop (nat (rb_out cb)) (rb_buffer cb))) = length (take n (rb_contents cb))"
    using assms(2) by simp
  fix i assume "i < length (take n (drop (nat (rb_out cb)) (rb_buffer cb)))"
  then have i: "i < n" by simp
  have "(rb_out cb + int i) mod rb_max cb = rb_out cb + int i"
    using assms(1,3) i unfolding rb_wf_def by (intro mod_pos_pos_trivial) linarith+
  moreover have "nat (rb_out cb + int i) = nat (rb_out cb) + i" using assms(1) by (simp add: rb_wf_def nat_add_distrib)
  ultimately show "take n (drop (nat (rb_out cb)) (rb_buffer cb)) ! i = take n (rb_contents cb) ! i"
    using i assms(2) len by (simp add: rb_contents_def)
qed

lemma iovec_iter_remaining_eq: "iter_wf it \<Longrightarrow> iovec_iter_remaining it = length (iter_content it) - iter_pos it"
  by (simp add: iovec_iter_remaining_def iter_remaining_sub32)

text \<open>Reading a contiguous chunk of the contents into an iterator.\<close>

lemma rb_copy_out_chunk:
  assumes wf: "rb_wf cb" "iter_wf it" and n: "n \<le> rb_used cb" "rb_out cb + int n \<le> rb_max cb"
    "n \<le> iovec_iter_remaining it"
  shows "\<exists>it'. rb_copy_out cb (rb_out cb) (int n) it = Some it' \<and> iter_wf it' \<and> iter_pos it' = iter_pos it + n \<and>
           iter_content it' = overwrite (iter_pos it) (take n (rb_contents cb)) (iter_content it)"
proof -
  let ?b = "drop (nat (rb_out cb)) (rb_buffer cb)"
  have i: "0 \<le> rb_out cb" "rb_out cb + int n \<le> int (length (rb_buffer cb))" "n < 32768"
    using wf(1) n(2) unfolding rb_wf_def by linarith+
  have nb: "n \<le> length ?b" using i(1,2) by simp
  obtain it' m where w: "memcpy_into_iter it ?b n = (it', m)" by fastforce
  have "n = min n (length (iter_content it) - iter_pos it)"
    using n(3) iovec_iter_remaining_eq [OF wf(2)] by simp
  from it.put_law [OF wf(2) nb w this] show ?thesis
    using i w rb_contiguous [OF wf(1) n(1,2)] by (simp add: rb_copy_out_def to_size_of_nat)
qed

lemma chunk_min_eq: "0 \<le> d \<Longrightarrow> d < 32768 \<Longrightarrow> nb < 4294967296 \<Longrightarrow> chunk_min d nb = int (min (nat d) nb)"
proof -
  assume d: "0 \<le> d" "d < 32768" and nb: "nb < 4294967296"
  have "to_size d = nat d" using to_size_of_nat [of "nat d"] d by simp
  then show ?thesis using d by (cases "nat d < nb") (simp_all add: chunk_min_def to_short_id)
qed

lemma iovec_iter_remaining_less: "iter_wf it \<Longrightarrow> iovec_iter_remaining it < 2147483648"
  using iovec_iter_remaining_eq iter_wf_bound by fastforce

lemma rb_out_wrap:
  assumes "rb_wf cb" "rb_out cb + int n \<le> rb_max cb"
  shows "(if to_short (rb_out cb + int n) \<ge> rb_max cb then 0 else to_short (rb_out cb + int n))
           = (rb_out cb + int n) mod rb_max cb"
proof -
  have "to_short (rb_out cb + int n) = rb_out cb + int n"
    using assms unfolding rb_wf_def by (intro to_short_id) linarith+
  then show ?thesis using assms by (cases "rb_out cb + int n = rb_max cb") (simp_all add: rb_wf_def)
qed

lemma buf_get_iter_spec:
  assumes wf: "rb_wf cb" "iter_wf it" and ne: "rb_contents cb \<noteq> []"
    and n: "n = min (rb_used cb) (iovec_iter_remaining it)"
  shows "\<exists>cb' it'. buf_get_iter cb it = Some (cb', it', int n) \<and> rb_wf cb' \<and> iter_wf it' \<and>
           rb_contents cb' = drop n (rb_contents cb) \<and> iter_pos it' = iter_pos it + n \<and>
           iter_content it' = overwrite (iter_pos it) (take n (rb_contents cb)) (iter_content it)"
proof -
  let ?nb = "iovec_iter_remaining it"
  have r: "0 < rb_max cb" "rb_max cb < 32768" "0 \<le> rb_out cb" "rb_out cb < rb_max cb" "0 \<le> rb_in cb" "rb_in cb < rb_max cb"
    using wf(1) by (simp_all add: rb_wf_def)
  have nb: "?nb < 2147483648" using wf(2) by (rule iovec_iter_remaining_less)
  have io: "rb_in cb \<noteq> rb_out cb" using ne rb_contents_nil [OF wf(1)] by simp
  note u = rb_used_eq [OF wf(1)]
  define avail where "avail = (if rb_in cb > rb_out cb then rb_in cb - rb_out cb else rb_max cb - rb_out cb)"
  have av: "0 \<le> avail" "avail < 32768" "avail \<le> int (rb_used cb)" "rb_out cb + avail \<le> rb_max cb"
    using r u io by (auto simp: avail_def)
  define c1 where "c1 = min (nat avail) ?nb"
  have chunk1: "(if rb_in cb > rb_out cb then chunk_min (rb_in cb - rb_out cb) ?nb
                 else chunk_min (rb_max cb - rb_out cb) ?nb) = int c1"
    using chunk_min_eq [OF av(1,2), of ?nb] nb by (simp add: avail_def c1_def split: if_splits)
  have c1: "c1 \<le> rb_used cb" "rb_out cb + int c1 \<le> rb_max cb" "c1 \<le> ?nb" "c1 < 32768"
    using av by (auto simp: c1_def)
  obtain it1 where 1: "rb_copy_out cb (rb_out cb) (int c1) it = Some it1" "iter_wf it1" "iter_pos it1 = iter_pos it + c1"
      "iter_content it1 = overwrite (iter_pos it) (take c1 (rb_contents cb)) (iter_content it)"
    using rb_copy_out_chunk [OF wf c1(1-3)] by blast
  define cb1 where "cb1 = cb\<lparr>rb_out := (rb_out cb + int c1) mod rb_max cb\<rparr>"
  have cb1: "rb_wf cb1" "rb_contents cb1 = drop c1 (rb_contents cb)"
    using rb_advance [OF wf(1) c1(1) cb1_def] by simp_all
  have nb1: "sub32 ?nb (to_size (int c1)) = ?nb - c1"
    using c1 nb by (simp add: c_arith)
  have unf: "buf_get_iter cb it =
      (if ?nb - c1 \<le> 0 \<or> rb_out cb1 = rb_in cb1 then Some (cb1, it1, int c1)
       else let chunk2 = chunk_min (rb_in cb1 - rb_out cb1) (?nb - c1)
            in do {
              it2 \<leftarrow> rb_copy_out cb1 (rb_out cb1) chunk2 it1;
              Some (cb1\<lparr>rb_out := to_short (rb_out cb1 + chunk2)\<rparr>, it2, to_short (int c1 + chunk2))
            })"
    unfolding buf_get_iter_def
    by (simp only: chunk1 1(1) rb_out_wrap [OF wf(1) c1(2)] nb1 Let_def cb1_def [symmetric] bind.bind_lunit)
  show ?thesis
  proof (cases "?nb - c1 \<le> 0 \<or> rb_out cb1 = rb_in cb1")
    case True
    then have "n = c1"
      using c1 n rb_contents_nil [OF cb1(1)] cb1(2) by auto
    then show ?thesis using unf True cb1 1 by simp
  next
    case False
    have out1: "rb_out cb1 = 0" "int (rb_used cb) = int c1 + rb_in cb" "c1 < ?nb"
    proof -
      show "c1 < ?nb" using False by simp
      then have a: "c1 = nat avail" by (simp add: c1_def split: if_splits)
      have "\<not> rb_in cb > rb_out cb"
      proof
        assume "rb_in cb > rb_out cb"
        then have "(rb_out cb + int c1) mod rb_max cb = rb_in cb" using a av r by (simp add: avail_def)
        then show False using False by (simp add: cb1_def)
      qed
      then show "rb_out cb1 = 0" "int (rb_used cb) = int c1 + rb_in cb"
        using a av u io r by (simp_all add: cb1_def avail_def)
    qed
    have in1: "rb_in cb1 = rb_in cb" "rb_max cb1 = rb_max cb" by (simp_all add: cb1_def)
    define c2 where "c2 = min (nat (rb_in cb)) (?nb - c1)"
    have chunk2: "chunk_min (rb_in cb1 - rb_out cb1) (?nb - c1) = int c2"
      using chunk_min_eq [of "rb_in cb" "?nb - c1"] r nb out1(1) in1 by (simp add: c2_def)
    have "rb_used cb1 = rb_used cb - c1" using cb1(2) by (metis length_drop length_rb_contents)
    then have u1: "rb_used cb1 = nat (rb_in cb)" using out1(2) by linarith
    have b2: "int c2 \<le> rb_in cb" "c2 \<le> ?nb - c1" using r(5) by (simp_all add: c2_def)
    have len1: "length (iter_content it1) = length (iter_content it)"
      using 1(4) c1(1,3) iovec_iter_remaining_eq [OF wf(2)] iter_wf_pos [OF wf(2)] by simp
    have rem1: "iovec_iter_remaining it1 = ?nb - c1"
      using len1 1(3) iovec_iter_remaining_eq [OF 1(2)] iovec_iter_remaining_eq [OF wf(2)] by simp
    have c2: "c2 \<le> rb_used cb1" "rb_out cb1 + int c2 \<le> rb_max cb1" "c2 \<le> iovec_iter_remaining it1" "int c2 < rb_max cb"
      using b2 u1 rem1 out1(1) in1(2) r(6) by linarith+
    obtain it2 where 2: "rb_copy_out cb1 (rb_out cb1) (int c2) it1 = Some it2" "iter_wf it2" "iter_pos it2 = iter_pos it1 + c2"
        "iter_content it2 = overwrite (iter_pos it1) (take c2 (rb_contents cb1)) (iter_content it1)"
      using rb_copy_out_chunk [OF cb1(1) 1(2) c2(1-3)] by blast
    have sh: "to_short (rb_out cb1 + int c2) = (rb_out cb1 + int c2) mod rb_max cb1" "to_short (int c1 + int c2) = int (c1 + c2)"
    proof -
      show "to_short (rb_out cb1 + int c2) = (rb_out cb1 + int c2) mod rb_max cb1"
        using out1(1) in1(2) c2(4) r(2) by (simp add: to_short_id)
      have "int c1 + int c2 < 32768" using b2(1) out1(2) rb_used_less [OF wf(1)] r(2) by linarith
      then show "to_short (int c1 + int c2) = int (c1 + c2)" by (simp add: to_short_id)
    qed
    define cb2 where "cb2 = cb1\<lparr>rb_out := (rb_out cb1 + int c2) mod rb_max cb1\<rparr>"
    have cb2: "rb_wf cb2" "rb_contents cb2 = drop c2 (rb_contents cb1)"
      using rb_advance [OF cb1(1) c2(1) cb2_def] by simp_all
    have nn: "n = c1 + c2" using n out1(2,3) r(5) unfolding c2_def by linarith
    have le: "iter_pos it + c1 \<le> length (iter_content it)"
      using c1(3) iovec_iter_remaining_eq [OF wf(2)] iter_wf_pos [OF wf(2)] by simp
    have "iter_content it2 = overwrite (iter_pos it) (take n (rb_contents cb)) (iter_content it)"
      using copy_chunk_join [OF le, of "rb_contents cb" c2] c1(1) 2(4) 1(3,4) cb1(2) nn by simp
    moreover have "buf_get_iter cb it = Some (cb2, it2, int n)"
      using unf False chunk2 2(1) sh nn by (simp add: Let_def cb2_def)
    ultimately show ?thesis using cb2 cb1(2) 2(2,3) 1(3) nn by (simp add: add.commute)
  qed
qed

text \<open>Writing a contiguous chunk from an iterator at \<^verbatim>\<open>in\<close>, and the step of \<^verbatim>\<open>in\<close> behind it.\<close>

lemma rb_copy_in_chunk:
  assumes wf: "rb_wf cb" "iter_wf it" and n: "rb_used cb + n < nat (rb_max cb)" "rb_in cb + int n \<le> rb_max cb"
    "n \<le> iovec_iter_remaining it"
  shows "\<exists>cb0 it'. rb_copy_in cb (rb_in cb) (int n) it = Some (cb0, it') \<and>
           rb_in cb0 = rb_in cb \<and> rb_out cb0 = rb_out cb \<and> rb_max cb0 = rb_max cb \<and>
           (\<forall>cb1. cb1 = cb0\<lparr>rb_in := (rb_in cb + int n) mod rb_max cb\<rparr> \<longrightarrow>
              rb_wf cb1 \<and> rb_contents cb1 = rb_contents cb @ take n (drop (iter_pos it) (iter_content it))) \<and>
           iter_wf it' \<and> iter_pos it' = iter_pos it + n \<and> iter_content it' = iter_content it"
proof -
  let ?i = "nat (rb_in cb)" and ?ys = "take n (drop (iter_pos it) (iter_content it))"
  let ?b = "drop ?i (rb_buffer cb)"
  have i: "0 \<le> rb_in cb" "rb_in cb + int n \<le> int (length (rb_buffer cb))" "n < 32768"
    using wf(1) n(2) unfolding rb_wf_def by linarith+
  have nb: "n \<le> length ?b" using i(1,2) by simp
  have rem: "n = min n (length (iter_content it) - iter_pos it)"
    using n(3) iovec_iter_remaining_eq [OF wf(2)] by simp
  then have ly: "length ?ys = n" by simp
  obtain it' b' m where g: "memcpy_out_of_iter it ?b n = (it', b', m)" by (metis prod_cases3)
  note law = it.get_law [OF wf(2) nb g rem]
  define cb0 where "cb0 = cb\<lparr>rb_buffer := overwrite ?i ?ys (rb_buffer cb)\<rparr>"
  have "take ?i (rb_buffer cb) @ b' = overwrite ?i ?ys (rb_buffer cb)"
    using law overwrite_append2 [of "take ?i (rb_buffer cb)" 0 ?ys ?b] rb_in_index [OF wf(1)] by simp
  then have c: "rb_copy_in cb (rb_in cb) (int n) it = Some (cb0, it')"
    using i g by (simp add: rb_copy_in_def to_size_of_nat cb0_def)
  have "rb_wf cb1 \<and> rb_contents cb1 = rb_contents cb @ ?ys"
    if "cb1 = cb0\<lparr>rb_in := (rb_in cb + int n) mod rb_max cb\<rparr>" for cb1
    by (rule rb_append [OF wf(1)]) (use ly n that in \<open>simp_all add: cb0_def\<close>)
  then show ?thesis using c law by (simp add: cb0_def)
qed

lemma rb_in_wrap:
  assumes "rb_wf cb" "rb_in cb + int n \<le> rb_max cb"
  shows "(if to_short (rb_in cb + int n) \<ge> rb_max cb then 0 else to_short (rb_in cb + int n))
           = (rb_in cb + int n) mod rb_max cb"
proof -
  have "to_short (rb_in cb + int n) = rb_in cb + int n"
    using assms unfolding rb_wf_def by (intro to_short_id) linarith+
  then show ?thesis using assms by (cases "rb_in cb + int n = rb_max cb") (simp_all add: rb_wf_def)
qed

lemma buf_put_iter_spec:
  assumes wf: "rb_wf cb" "iter_wf it"
    and fits: "\<not> (rb_out cb = 0 \<and> int (iovec_iter_remaining it) = rb_max cb - rb_in cb)"
    and n: "n = min (rb_capacity cb - rb_used cb) (iovec_iter_remaining it)"
  shows "\<exists>cb' it'. buf_put_iter cb it = Some (cb', it', int n) \<and> rb_wf cb' \<and> iter_wf it' \<and>
           rb_contents cb' = rb_contents cb @ take n (drop (iter_pos it) (iter_content it)) \<and>
           iter_pos it' = iter_pos it + n \<and> iter_content it' = iter_content it"
proof -
  let ?nb = "iovec_iter_remaining it"
  have r: "0 < rb_max cb" "rb_max cb < 32768" "0 \<le> rb_out cb" "rb_out cb < rb_max cb" "0 \<le> rb_in cb" "rb_in cb < rb_max cb"
    using wf(1) by (simp_all add: rb_wf_def)
  have nb: "?nb < 2147483648" using wf(2) by (rule iovec_iter_remaining_less)
  note u = rb_used_eq [OF wf(1)]
  define free where "free = rb_capacity cb - rb_used cb"
  have free: "int free = (if rb_out cb > rb_in cb then rb_out cb - rb_in cb - 1
                          else rb_max cb - rb_in cb + rb_out cb - 1)"
    using u r rb_used_less [OF wf(1)] unfolding free_def rb_capacity_def by (auto split: if_splits)
  define c1 where "c1 = (if rb_out cb > rb_in cb then min (nat (rb_out cb - rb_in cb - 1)) ?nb
      else if nat (rb_max cb - rb_in cb) < ?nb then nat (rb_max cb - rb_in cb - (if rb_out cb \<noteq> 0 then 0 else 1))
      else ?nb)"
  have ts: "to_size (rb_max cb - rb_in cb) = nat (rb_max cb - rb_in cb)"
    using to_size_of_nat [of "nat (rb_max cb - rb_in cb)"] r by simp
  have chunk1: "(if rb_out cb > rb_in cb then chunk_min (rb_out cb - rb_in cb - 1) ?nb
                 else to_short (if to_size (rb_max cb - rb_in cb) < ?nb
                                then rb_max cb - rb_in cb - (if rb_out cb \<noteq> 0 then 0 else 1)
                                else int ?nb)) = int c1"
    unfolding ts using chunk_min_eq [of "rb_out cb - rb_in cb - 1" ?nb] r nb by (simp add: c1_def to_short_id)
  have c1: "c1 \<le> free" "rb_in cb + int c1 \<le> rb_max cb" "c1 \<le> ?nb"
    using free fits r unfolding c1_def by (auto split: if_splits)
  have used1: "rb_used cb + c1 < nat (rb_max cb)"
    using c1(1) rb_used_less [OF wf(1)] unfolding free_def rb_capacity_def by linarith
  obtain cb0 it1 where 0: "rb_copy_in cb (rb_in cb) (int c1) it = Some (cb0, it1)"
      "rb_in cb0 = rb_in cb" "rb_out cb0 = rb_out cb" "rb_max cb0 = rb_max cb"
      "iter_wf it1" "iter_pos it1 = iter_pos it + c1" "iter_content it1 = iter_content it"
    and adv: "\<And>cb1. cb1 = cb0\<lparr>rb_in := (rb_in cb + int c1) mod rb_max cb\<rparr> \<Longrightarrow>
      rb_wf cb1 \<and> rb_contents cb1 = rb_contents cb @ take c1 (drop (iter_pos it) (iter_content it))"
    using rb_copy_in_chunk [OF wf used1 c1(2,3)] by blast
  define cb1 where "cb1 = cb0\<lparr>rb_in := (rb_in cb + int c1) mod rb_max cb\<rparr>"
  have cb1: "rb_wf cb1" "rb_contents cb1 = rb_contents cb @ take c1 (drop (iter_pos it) (iter_content it))"
    "rb_out cb1 = rb_out cb" "rb_max cb1 = rb_max cb" "rb_in cb1 = (rb_in cb + int c1) mod rb_max cb"
    using adv [OF cb1_def] 0 by (simp_all add: cb1_def)
  have nb1: "sub32 ?nb (to_size (int c1)) = ?nb - c1" using c1 nb r by (simp add: c_arith)
  have unf: "buf_put_iter cb it =
      (if ?nb - c1 \<le> 0 \<or> rb_in cb1 + 1 = rb_out cb1 \<or> rb_in cb1 + 1 = rb_max cb1 then Some (cb1, it1, int c1)
       else let chunk2 = chunk_min (rb_out cb1 - rb_in cb1 - 1) (?nb - c1)
            in do {
              (cb2, it2) \<leftarrow> rb_copy_in cb1 (rb_in cb1) chunk2 it1;
              Some (cb2\<lparr>rb_in := to_short (rb_in cb2 + chunk2)\<rparr>, it2, to_short (int c1 + chunk2))
            })"
    unfolding buf_put_iter_def
    by (simp only: chunk1 0(1,2,4) rb_in_wrap [OF wf(1) c1(2)] nb1 Let_def cb1_def [symmetric]
        bind.bind_lunit prod.case)
  show ?thesis
  proof (cases "rb_out cb \<le> rb_in cb \<and> nat (rb_max cb - rb_in cb) < ?nb \<and> rb_out cb > 1")
    case False
    then have early: "?nb - c1 \<le> 0 \<or> rb_in cb1 + 1 = rb_out cb1 \<or> rb_in cb1 + 1 = rb_max cb1"
      unfolding cb1(3-5) using r by (auto simp: c1_def zmod_minus1)
    have "n = c1" using False n free r fits unfolding free_def [symmetric] c1_def by (auto split: if_splits)
    then show ?thesis using unf early cb1 0 by simp
  next
    case True
    have in1: "rb_in cb1 = 0" "int c1 = rb_max cb - rb_in cb" "c1 < ?nb" "int free = int c1 + rb_out cb - 1"
      using True r free unfolding cb1(5) by (auto simp: c1_def)
    have late: "\<not> (?nb - c1 \<le> 0 \<or> rb_in cb1 + 1 = rb_out cb1 \<or> rb_in cb1 + 1 = rb_max cb1)"
      using in1 cb1(3,4) True r by auto
    define c2 where "c2 = min (nat (rb_out cb - 1)) (?nb - c1)"
    have chunk2: "chunk_min (rb_out cb1 - rb_in cb1 - 1) (?nb - c1) = int c2"
      using chunk_min_eq [of "rb_out cb - 1" "?nb - c1"] r nb in1(1) cb1(3) True by (simp add: c2_def)
    have b2: "int c2 \<le> rb_out cb - 1" "c2 \<le> ?nb - c1" using True unfolding c2_def by linarith+
    have u1: "rb_used cb1 = rb_used cb + c1"
      using cb1(2) c1(3) iovec_iter_remaining_eq [OF wf(2)] length_rb_contents [of cb1] by simp
    have rem1: "iovec_iter_remaining it1 = ?nb - c1"
      using 0 iovec_iter_remaining_eq [OF 0(5)] iovec_iter_remaining_eq [OF wf(2)] by simp
    have c2: "rb_used cb1 + c2 < nat (rb_max cb1)" "rb_in cb1 + int c2 \<le> rb_max cb1" "c2 \<le> iovec_iter_remaining it1"
      using b2 u1 rem1 in1 cb1(4) r u rb_used_less [OF wf(1)] unfolding free_def rb_capacity_def by linarith+
    obtain cb2 it2 where 2: "rb_copy_in cb1 (rb_in cb1) (int c2) it1 = Some (cb2, it2)" "rb_in cb2 = rb_in cb1"
        "iter_wf it2" "iter_pos it2 = iter_pos it1 + c2" "iter_content it2 = iter_content it1"
      and adv2: "\<And>cb3. cb3 = cb2\<lparr>rb_in := (rb_in cb1 + int c2) mod rb_max cb1\<rparr> \<Longrightarrow>
        rb_wf cb3 \<and> rb_contents cb3 = rb_contents cb1 @ take c2 (drop (iter_pos it1) (iter_content it1))"
      using rb_copy_in_chunk [OF cb1(1) 0(5) c2] by blast
    have sh: "to_short (rb_in cb2 + int c2) = (rb_in cb1 + int c2) mod rb_max cb1" "to_short (int c1 + int c2) = int (c1 + c2)"
      using 2(2) in1 cb1(4) b2(1) r True by (simp_all add: to_short_id)
    have nn: "n = c1 + c2" using n in1(3,4) True unfolding free_def [symmetric] c2_def by linarith
    have "buf_put_iter cb it = Some (cb2\<lparr>rb_in := (rb_in cb1 + int c2) mod rb_max cb1\<rparr>, it2, int n)"
      using unf late chunk2 2(1) sh nn by (simp add: Let_def)
    then show ?thesis
      using adv2 [OF refl] cb1(2) 2 0 nn by (simp add: take_add add.commute)
  qed
qed

section \<open>The queue interface\<close>

text \<open>
  The contract of a bounded queue that the drivers rely on: an element goes in at the back unless
  the queue is full, and comes out at the front unless it is empty.
\<close>

text \<open>
  A run of queue operations: \<open>Some x\<close> offers \<open>x\<close>, \<open>None\<close> takes an element out. The result is the
  final queue with the elements taken out; \<open>fifo_accepted\<close> lists the elements that were let in.
\<close>

fun fifo_run :: "('q \<Rightarrow> 'a \<Rightarrow> 'q option) \<Rightarrow> ('q \<Rightarrow> ('a \<times> 'q) option) \<Rightarrow> 'q \<Rightarrow> 'a option list \<Rightarrow> 'q \<times> 'a list" where
  "fifo_run enq deq q [] = (q, [])"
| "fifo_run enq deq q (Some x # ops) = fifo_run enq deq (case enq q x of Some q' \<Rightarrow> q' | None \<Rightarrow> q) ops"
| "fifo_run enq deq q (None # ops) = (case deq q of
      None \<Rightarrow> fifo_run enq deq q ops
    | Some (x, q') \<Rightarrow> (let (r, out) = fifo_run enq deq q' ops in (r, x # out)))"

fun fifo_accepted :: "('q \<Rightarrow> 'a \<Rightarrow> 'q option) \<Rightarrow> ('q \<Rightarrow> ('a \<times> 'q) option) \<Rightarrow> 'q \<Rightarrow> 'a option list \<Rightarrow> 'a list" where
  "fifo_accepted enq deq q [] = []"
| "fifo_accepted enq deq q (Some x # ops) = (case enq q x of
      Some q' \<Rightarrow> x # fifo_accepted enq deq q' ops | None \<Rightarrow> fifo_accepted enq deq q ops)"
| "fifo_accepted enq deq q (None # ops) = (case deq q of
      None \<Rightarrow> fifo_accepted enq deq q ops | Some (_, q') \<Rightarrow> fifo_accepted enq deq q' ops)"

locale bounded_fifo =
  fixes inv :: "'q \<Rightarrow> bool" and contents :: "'q \<Rightarrow> 'a list" and cap :: "'q \<Rightarrow> nat"
    and enq :: "'q \<Rightarrow> 'a \<Rightarrow> 'q option" and deq :: "'q \<Rightarrow> ('a \<times> 'q) option"
  assumes enq_full: "inv q \<Longrightarrow> length (contents q) = cap q \<Longrightarrow> enq q x = None"
    and enq_ok: "inv q \<Longrightarrow> length (contents q) < cap q \<Longrightarrow>
      \<exists>q'. enq q x = Some q' \<and> inv q' \<and> contents q' = contents q @ [x] \<and> cap q' = cap q"
    and deq_empty: "inv q \<Longrightarrow> contents q = [] \<Longrightarrow> deq q = None"
    and deq_ok: "inv q \<Longrightarrow> contents q = x # xs \<Longrightarrow>
      \<exists>q'. deq q = Some (x, q') \<and> inv q' \<and> contents q' = xs \<and> cap q' = cap q"
    and bound: "inv q \<Longrightarrow> length (contents q) \<le> cap q"
begin

lemma run_order:
  "inv q \<Longrightarrow> fifo_run enq deq q ops = (r, out) \<Longrightarrow>
     inv r \<and> out @ contents r = contents q @ fifo_accepted enq deq q ops"
proof (induction ops arbitrary: q out)
  case Nil
  then show ?case by simp
next
  case (Cons op ops)
  show ?case
  proof (cases op)
    case (Some x)
    show ?thesis
    proof (cases "length (contents q) = cap q")
      case True
      then show ?thesis using Cons Some enq_full [OF Cons.prems(1) True] by simp
    next
      case False
      then have "length (contents q) < cap q" using bound [OF Cons.prems(1)] by simp
      then obtain q' where "enq q x = Some q'" "inv q'" "contents q' = contents q @ [x]"
        using enq_ok [OF Cons.prems(1)] by blast
      then show ?thesis using Cons.IH [of q' out] Cons.prems(2) Some by simp
    qed
  next
    case None
    show ?thesis
    proof (cases "contents q")
      case Nil
      then show ?thesis using Cons None deq_empty [OF Cons.prems(1) Nil] by simp
    next
      case C: (Cons x xs)
      then obtain q' where q': "deq q = Some (x, q')" "inv q'" "contents q' = xs"
        using deq_ok [OF Cons.prems(1)] by blast
      obtain out' where "fifo_run enq deq q' ops = (r, out')" "out = x # out'"
        using Cons.prems(2) None q' by (auto split: prod.splits)
      then show ?thesis using Cons.IH [of q' out'] q' None C by simp
    qed
  qed
qed

end

text \<open>The character operations of the ring as such a queue.\<close>

definition ring_enq :: "ringbuffer \<Rightarrow> u8 \<Rightarrow> ringbuffer option" where
  "ring_enq cb ch = (case buf_put_char cb ch of
      Some (cb', r) \<Rightarrow> (if r = - 1 then None else Some cb') | None \<Rightarrow> None)"

definition ring_deq :: "ringbuffer \<Rightarrow> (u8 \<times> ringbuffer) option" where
  "ring_deq cb = (case buf_get_char cb of
      Some (cb', r) \<Rightarrow> (if r = - 1 then None else Some (word_of_int r, cb')) | None \<Rightarrow> None)"

lemma uint_not_minus1: "uint (w :: u8) \<noteq> - 1"
  using uint_ge_0 [of w] by linarith

interpretation ring: bounded_fifo rb_wf rb_contents rb_capacity ring_enq ring_deq
proof
  fix q :: ringbuffer and x :: u8 and xs :: "u8 list"
  assume wf: "rb_wf q"
  show "ring_enq q x = None" if "length (rb_contents q) = rb_capacity q"
    using buf_put_char_spec(1) [OF wf] that by (simp add: ring_enq_def)
  show "\<exists>q'. ring_enq q x = Some q' \<and> rb_wf q' \<and> rb_contents q' = rb_contents q @ [x] \<and> rb_capacity q' = rb_capacity q"
    if "length (rb_contents q) < rb_capacity q"
    using buf_put_char_spec(2) [OF wf, of x] that uint_not_minus1 [of x]
    by (auto simp: ring_enq_def rb_capacity_def)
  show "ring_deq q = None" if "rb_contents q = []"
    using buf_get_char_spec(1) [OF wf that] by (simp add: ring_deq_def)
  show "\<exists>q'. ring_deq q = Some (x, q') \<and> rb_wf q' \<and> rb_contents q' = xs \<and> rb_capacity q' = rb_capacity q"
    if "rb_contents q = x # xs"
    using buf_get_char_spec(2) [OF wf that] uint_not_minus1 [of x]
    by (auto simp: ring_deq_def rb_capacity_def)
  show "length (rb_contents q) \<le> rb_capacity q"
    using rb_used_less [OF wf] by (simp add: rb_capacity_def)
qed

section \<open>Properties of the ring buffer\<close>

text \<open>
  C9. Whatever characters are put into a ring and taken out of it, in any order of calls, the
  characters taken out are the characters accepted, in the same order and none twice: taken out so
  far, followed by what the ring still holds, is what it held first followed by what was accepted.
  The ring stays well formed.
\<close>

theorem ring_fifo_order:
  assumes "rb_wf cb" "fifo_run ring_enq ring_deq cb ops = (cb', out)"
  shows "rb_wf cb' \<and> out @ rb_contents cb' = rb_contents cb @ fifo_accepted ring_enq ring_deq cb ops"
  using assms by (rule ring.run_order)

definition demo_ring :: ringbuffer where
  "demo_ring = \<lparr>rb_max = 4, rb_in = 0, rb_out = 2, rb_buffer = [10, 11, 12, 13]\<rparr>"

lemma demo_ring_facts: "rb_wf demo_ring" "rb_contents demo_ring = [12, 13]" "rb_used demo_ring = 2"
  "rb_capacity demo_ring = 3"
  by (simp_all add: demo_ring_def rb_wf_def rb_contents_def rb_used_def rb_capacity_def upt_rec numeral_2_eq_2)

theorem ring_fifo_order_witness:
  "snd (fifo_run ring_enq ring_deq demo_ring [Some 7, Some 8, None, None])
     @ rb_contents (fst (fifo_run ring_enq ring_deq demo_ring [Some 7, Some 8, None, None]))
   = [12, 13] @ fifo_accepted ring_enq ring_deq demo_ring [Some 7, Some 8, None, None]"
  using ring_fifo_order [of demo_ring "[Some 7, Some 8, None, None]"
      "fst (fifo_run ring_enq ring_deq demo_ring [Some 7, Some 8, None, None])"
      "snd (fifo_run ring_enq ring_deq demo_ring [Some 7, Some 8, None, None])"] demo_ring_facts
  by simp



text \<open>
  C33. \<^verbatim>\<open>_buf_put_iter\<close> into a ring that reads from index 0 with exactly the bytes that reach the end
  of the array overruns the cell that must stay free: it reports all bytes as written and leaves
  the ring empty, so that these bytes and everything that was queued before are lost.
\<close>

theorem buf_put_iter_exact_fill_empties:
  assumes wf: "rb_wf cb" "iter_wf it"
    and "rb_out cb = 0" "int (iovec_iter_remaining it) = rb_max cb - rb_in cb"
  shows "\<exists>cb' it'. buf_put_iter cb it = Some (cb', it', rb_max cb - rb_in cb) \<and> rb_contents cb' = []"
proof -
  let ?nb = "iovec_iter_remaining it"
  have r: "0 < rb_max cb" "rb_max cb < 32768" "0 \<le> rb_in cb" "rb_in cb < rb_max cb"
    "rb_max cb \<le> int (length (rb_buffer cb))"
    using wf(1) by (simp_all add: rb_wf_def)
  obtain it' b m where g: "memcpy_out_of_iter it (drop (nat (rb_in cb)) (rb_buffer cb)) ?nb = (it', b, m)"
    by (metis prod_cases3)
  have s: "to_size (rb_max cb - rb_in cb) = ?nb" "?nb < 32768"
    using to_size_of_nat [of ?nb] assms(4) r by simp_all
  have c: "to_short (int ?nb) = int ?nb" "to_short (rb_in cb + int ?nb) = rb_max cb"
    using s assms(4) r by (simp_all add: to_short_id)
  have "rb_copy_in cb (rb_in cb) (int ?nb) it
      = Some (cb\<lparr>rb_buffer := take (nat (rb_in cb)) (rb_buffer cb) @ b\<rparr>, it')"
    using g r assms(4) s by (simp add: rb_copy_in_def)
  moreover have "rb_contents (cb\<lparr>rb_buffer := take (nat (rb_in cb)) (rb_buffer cb) @ b, rb_in := 0\<rparr>) = []"
    using assms(3) by (simp add: rb_contents_def rb_used_def)
  ultimately show ?thesis
    using assms(3,4) r s c by (simp add: buf_put_iter_def Let_def sub32_id to_size_of_nat)
qed

theorem buf_put_iter_exact_fill_empties_witness:
  "\<exists>cb' it'. buf_put_iter (demo_ring\<lparr>rb_out := 0, rb_in := 1\<rparr>) (iovec_iter_init_simple_kvec [7, 8, 9] 3)
     = Some (cb', it', 3) \<and> rb_contents cb' = []"
proof -
  let ?s = "iovec_iter_init_simple_kvec [7, 8, 9] 3"
  have w: "iter_wf ?s" "iter_pos ?s = 0" "iter_content ?s = [7, 8, 9]"
    by (simp_all add: iter_wf_def iovec_iter_init_simple_kvec_def iter_pos_def iter_content_def)
  then have "iovec_iter_remaining ?s = 3" by (simp add: iovec_iter_remaining_eq)
  then show ?thesis
    using buf_put_iter_exact_fill_empties [OF _ w(1), of "demo_ring\<lparr>rb_out := 0, rb_in := 1\<rparr>"]
    by (simp add: demo_ring_def rb_wf_def)
qed

text \<open>
  \<^verbatim>\<open>_buf_get_iter\<close> does not notice an empty ring: when less is asked for than lies between
  \<^verbatim>\<open>out\<close> and the end of the array, it delivers that many stale bytes, reports them as read, and
  leaves a ring that claims to hold the other \<open>max - nb\<close> stale bytes.
\<close>

theorem buf_get_iter_empty_stale:
  assumes wf: "rb_wf cb" "iter_wf it" and "rb_contents cb = []"
    and nb: "nb = iovec_iter_remaining it" "0 < nb" "int nb < rb_max cb - rb_out cb"
  shows "\<exists>cb' it'. buf_get_iter cb it = Some (cb', it', int nb) \<and>
           rb_used cb' = nat (rb_max cb) - nb \<and> rb_wf cb'"
proof -
  have io: "rb_in cb = rb_out cb" using assms(3) rb_contents_nil [OF wf(1)] by simp
  have r: "0 < rb_max cb" "rb_max cb < 32768" "0 \<le> rb_out cb" "rb_out cb < rb_max cb"
    "rb_max cb \<le> int (length (rb_buffer cb))"
    using wf(1) by (simp_all add: rb_wf_def)
  have c: "chunk_min (rb_max cb - rb_out cb) nb = int nb"
    using chunk_min_eq [of "rb_max cb - rb_out cb" nb] nb r by simp
  define cb' where "cb' = cb\<lparr>rb_out := rb_out cb + int nb\<rparr>"
  have "to_short (rb_out cb + int nb) = rb_out cb + int nb" using nb r by (simp add: to_short_id)
  then have "buf_get_iter cb it = Some (cb', fst (memcpy_into_iter it (drop (nat (rb_out cb)) (rb_buffer cb)) nb), int nb)"
    using io c nb r by (simp add: buf_get_iter_def Let_def rb_copy_out_def sub32_id to_size_of_nat cb'_def)
  moreover have wf': "rb_wf cb'" using wf(1) nb by (simp add: rb_wf_def cb'_def)
  moreover have "rb_used cb' = nat (rb_max cb) - nb"
    using rb_used_eq [OF wf'] io nb r by (simp add: cb'_def)
  ultimately show ?thesis by blast
qed

theorem buf_get_iter_empty_stale_witness:
  "\<exists>cb' it'. buf_get_iter (demo_ring\<lparr>rb_out := 0\<rparr>) (iovec_iter_init_user_buf [0] 1) = Some (cb', it', 1) \<and>
     rb_used cb' = 3"
proof -
  let ?d = "iovec_iter_init_user_buf [0] 1"
  have w: "iter_wf ?d" "iter_pos ?d = 0" "iter_content ?d = [0]"
    by (simp_all add: iter_wf_def iovec_iter_init_user_buf_def iter_pos_def iter_content_def)
  then have "iovec_iter_remaining ?d = 1" by (simp add: iovec_iter_remaining_eq)
  then show ?thesis
    using buf_get_iter_empty_stale [OF _ w(1), of "demo_ring\<lparr>rb_out := 0\<rparr>" 1]
    by (auto simp: demo_ring_def rb_wf_def rb_contents_def rb_used_def)
qed

end
