(* ===== verification/Pages.thy ===== *)
theory Pages
  imports Kernel_Prelude
begin

text \<open>
  The physical page allocator of \<^verbatim>\<open>src/kernel/mm/pages.c\<close>: blocks of pages with a bitmap of 16 bit
  words, a reference count per page and a count of free pages, and the table of global blocks.
  Modelled with \<^verbatim>\<open>CONFIG_MMU\<close> and pages of 4 KiB, as the MMU configurations build it.

  A physical address is a \<^typ>\<open>nat\<close> below \<open>2 ^ 32\<close> and \<^verbatim>\<open>NULL\<close> is 0. The arrays a block points to are
  lists; an operation on a block whose arrays are too short for its pages is out of bounds and gives
  \<open>None\<close>, as does an access to a page number outside of them.

  The lemmas show that the bitmap search, which skips full words, is a first fit search; that
  the counters agree with the bitmap; that allocations never overlap; and where the page counter
  and the global functions go wrong.
\<close>

section \<open>The data\<close>

definition PAGE_ADDR_BITS :: nat where "PAGE_ADDR_BITS = 12"
definition PAGE_SIZE :: nat where "PAGE_SIZE = 4096"
definition ALL_PAGES_AT_INDEX :: u16 where "ALL_PAGES_AT_INDEX = 65535"
definition PAGES_PER_INDEX :: nat where "PAGES_PER_INDEX = 16"
definition PAGE_F_TYPE :: u32 where "PAGE_F_TYPE = 15"
definition CONFIG_MAX_PAGE_BLOCKS :: nat where "CONFIG_MAX_PAGE_BLOCKS = 4"

definition BIT_INDEX :: "nat \<Rightarrow> nat" where "BIT_INDEX b = b div 16"
definition BIT_MASK :: "nat \<Rightarrow> u16" where "BIT_MASK b = push_bit (b mod 16) 1"

text \<open>The bitmap words, the reference counts of the page descriptors, and the rest of the block.\<close>

record page_block =
  pb_flags :: u32
  pb_total_pages :: nat
  pb_free_pages :: int
  pb_base :: nat
  pb_bitmap_size :: nat
  pb_bitmap :: "u16 list"
  pb_refcount :: "u16 list"

definition pages_of :: "nat \<Rightarrow> nat" where
  "pages_of nb = nb div PAGE_SIZE"

definition pb_backed :: "page_block \<Rightarrow> bool" where
  "pb_backed b \<longleftrightarrow> pb_total_pages b \<le> 16 * length (pb_bitmap b) \<and> pb_total_pages b \<le> length (pb_refcount b)"

definition page_bit :: "page_block \<Rightarrow> nat \<Rightarrow> bool" where
  "page_bit b i \<longleftrightarrow> pb_bitmap b ! BIT_INDEX i AND BIT_MASK i \<noteq> 0"

section \<open>Initialisation\<close>

text \<open>
  The arguments \<open>bitmap\<close> and \<open>refs\<close> are the memory the two pointers designate. The calls of
  \<^verbatim>\<open>memset\<close> clear \<^verbatim>\<open>bitmap_size\<close> and \<^verbatim>\<open>total_pages\<close> bytes, which are half as many 16 bit entries.
\<close>

definition clear_bytes :: "nat \<Rightarrow> u16 list \<Rightarrow> u16 list" where
  "clear_bytes n ws =
     replicate (n div 2) 0 @
     (if odd n then [ws ! (n div 2) AND 255] else []) @ drop ((n + 1) div 2) ws"

definition init_page_block_with_bitmap ::
    "nat \<Rightarrow> nat \<Rightarrow> u16 list \<Rightarrow> nat \<Rightarrow> u16 list \<Rightarrow> u32 \<Rightarrow> page_block \<times> int" where
  "init_page_block_with_bitmap nb addr bitmap bitmap_size refs flags =
     (let total = pages_of nb
      in (\<lparr>pb_flags = flags, pb_total_pages = total, pb_free_pages = int total, pb_base = addr,
           pb_bitmap_size = bitmap_size, pb_bitmap = clear_bytes bitmap_size bitmap,
           pb_refcount = clear_bytes total refs\<rparr>,
          if bitmap_size * 16 < total then - 1 else 0))"

text \<open>
  \<^verbatim>\<open>init_page_block\<close> puts the bitmap and the descriptors in front of the pages. \<open>mem\<close> gives the
  16 bit words found at an address. The result is \<open>None\<close> when the area is too small for its own
  bookkeeping or the bitmap overlaps the descriptors.
\<close>

definition init_page_block :: "(nat \<Rightarrow> nat \<Rightarrow> u16 list) \<Rightarrow> nat \<Rightarrow> nat \<Rightarrow> u32 \<Rightarrow> (page_block \<times> int) option" where
  "init_page_block mem addr nb flags =
     (let total = pages_of nb;
          bitmap_size = (total div 16 + 15) div 16 * 16;
          bitmap_pages = (bitmap_size + (PAGE_SIZE - 1)) div PAGE_SIZE;
          descriptors_size = (total - bitmap_pages) * 2;
          descriptors_pages = (descriptors_size + (PAGE_SIZE - 1)) div PAGE_SIZE;
          allocatable = total - bitmap_pages - descriptors_pages;
          pages_addr = add32 addr ((bitmap_pages + descriptors_pages) * PAGE_SIZE)
      in if total < bitmap_pages + descriptors_pages \<or> 2 * bitmap_size > bitmap_pages * PAGE_SIZE then None
         else Some (init_page_block_with_bitmap (allocatable * PAGE_SIZE) pages_addr
                (mem addr bitmap_size) bitmap_size
                (mem (addr + bitmap_pages * PAGE_SIZE) allocatable) flags))"

section \<open>Allocation in one block\<close>

text \<open>The inner loop: the first set bit after \<open>start_bit\<close>, or the bound on \<open>end_bit\<close>.\<close>

function scan_end :: "page_block \<Rightarrow> nat \<Rightarrow> nat \<Rightarrow> nat \<Rightarrow> nat" where
  "scan_end b contiguous start_bit end_bit =
     (if end_bit < pb_total_pages b \<and> end_bit - start_bit < contiguous then
        if page_bit b end_bit then end_bit else scan_end b contiguous start_bit (end_bit + 1)
      else end_bit)"
  by pat_completeness auto
termination by (relation "measure (\<lambda>(b, c, s, e). pb_total_pages b - e)") auto

declare scan_end.simps [simp del]

text \<open>The outer loop returns the bits \<open>start_bit\<close> and \<open>end_bit\<close> it stops at, if it finds a run.\<close>

function page_search :: "page_block \<Rightarrow> nat \<Rightarrow> nat \<Rightarrow> (nat \<times> nat) option" where
  "page_search b contiguous start_bit =
     (if start_bit < pb_total_pages b then
        if pb_bitmap b ! BIT_INDEX start_bit = ALL_PAGES_AT_INDEX
        then page_search b contiguous (start_bit + PAGES_PER_INDEX)
        else if page_bit b start_bit then page_search b contiguous (start_bit + 1)
        else let end_bit = scan_end b contiguous start_bit (start_bit + 1)
             in if end_bit > pb_total_pages b \<or> end_bit - start_bit < contiguous
                then page_search b contiguous (start_bit + 1)
                else Some (start_bit, end_bit)
      else None)"
  by pat_completeness auto
termination
  by (relation "measure (\<lambda>(b, c, s). pb_total_pages b - s)") (auto simp: PAGES_PER_INDEX_def)

declare page_search.simps [simp del]

definition mark_page :: "nat \<Rightarrow> page_block \<Rightarrow> page_block" where
  "mark_page bit' b =
     b\<lparr>pb_refcount := (pb_refcount b)[bit' := 1],
       pb_bitmap := (pb_bitmap b)[BIT_INDEX bit' := pb_bitmap b ! BIT_INDEX bit' OR BIT_MASK bit']\<rparr>"

definition page_addr :: "page_block \<Rightarrow> nat \<Rightarrow> nat" where
  "page_addr b i = add32 (pb_base b) (i * PAGE_SIZE)"

definition page_block_alloc :: "page_block \<Rightarrow> nat \<Rightarrow> (page_block \<times> nat) option" where
  "page_block_alloc b nb =
     (if pb_backed b then
        case page_search b (pages_of nb) 0 of
          None \<Rightarrow> Some (b, 0)
        | Some (start_bit, end_bit) \<Rightarrow>
            let b' = fold mark_page [start_bit..<end_bit] b
            in Some (b'\<lparr>pb_free_pages := pb_free_pages b' - int (pages_of nb)\<rparr>, page_addr b' start_bit)
      else None)"

definition page_number :: "page_block \<Rightarrow> nat \<Rightarrow> nat" where
  "page_number b ptr = sub32 ptr (pb_base b) div PAGE_SIZE"

text \<open>One pass of the loop of \<^verbatim>\<open>page_block_free\<close>; the count is unsigned and wraps around.\<close>

definition unref_page :: "nat \<Rightarrow> page_block \<Rightarrow> page_block option" where
  "unref_page i b =
     (if i < length (pb_refcount b) \<and> BIT_INDEX i < length (pb_bitmap b) then
        let r = pb_refcount b ! i - 1;
            b1 = b\<lparr>pb_refcount := (pb_refcount b)[i := r]\<rparr>
        in if r \<noteq> 0 then Some b1
           else Some (b1\<lparr>pb_bitmap := (pb_bitmap b1)[BIT_INDEX i := pb_bitmap b1 ! BIT_INDEX i AND NOT (BIT_MASK i)],
                         pb_free_pages := pb_free_pages b1 + 1\<rparr>)
      else None)"

fun unref_pages :: "nat \<Rightarrow> nat \<Rightarrow> page_block \<Rightarrow> page_block option" where
  "unref_pages i 0 b = Some b"
| "unref_pages i (Suc n) b = Option.bind (unref_page i b) (unref_pages (i + 1) n)"

definition page_block_free :: "page_block \<Rightarrow> nat \<Rightarrow> nat \<Rightarrow> page_block option" where
  "page_block_free b ptr nb = unref_pages (page_number b ptr) (pages_of nb) b"

fun ref_pages :: "nat \<Rightarrow> nat \<Rightarrow> page_block \<Rightarrow> page_block option" where
  "ref_pages i 0 b = Some b"
| "ref_pages i (Suc n) b =
     (if i < length (pb_refcount b)
      then ref_pages (i + 1) n (b\<lparr>pb_refcount := (pb_refcount b)[i := pb_refcount b ! i + 1]\<rparr>) else None)"

definition page_block_make_ref :: "page_block \<Rightarrow> nat \<Rightarrow> nat \<Rightarrow> (page_block \<times> nat) option" where
  "page_block_make_ref b ptr nb = map_option (\<lambda>b'. (b', ptr)) (ref_pages (page_number b ptr) (pages_of nb) b)"

definition page_block_get_ref_single :: "page_block \<Rightarrow> nat \<Rightarrow> u16 option" where
  "page_block_get_ref_single b ptr =
     (if page_number b ptr < length (pb_refcount b) then Some (pb_refcount b ! page_number b ptr) else None)"

section \<open>The global blocks\<close>

record page_table =
  num_global_blocks :: nat
  global_blocks :: "page_block list"

definition block_end :: "page_block \<Rightarrow> nat" where
  "block_end b = add32 (pb_base b) (pb_total_pages b * PAGE_SIZE)"

definition append_global_page_block ::
    "(nat \<Rightarrow> nat \<Rightarrow> u16 list) \<Rightarrow> page_table \<Rightarrow> nat \<Rightarrow> nat \<Rightarrow> u32 \<Rightarrow> (page_table \<times> int) option" where
  "append_global_page_block mem t start nb flags =
     (let n = num_global_blocks t
      in if n > 0 \<and> n \<ge> length (global_blocks t) then None
         else if n > 0 \<and> start < block_end (global_blocks t ! n) then Some (t, EINVAL)
         else if n \<ge> length (global_blocks t) then None
         else map_option (\<lambda>(b, err). (t\<lparr>num_global_blocks := n + 1, global_blocks := (global_blocks t)[n := b]\<rparr>, err))
                (init_page_block mem start nb flags))"

definition init_pages ::
    "(nat \<Rightarrow> nat \<Rightarrow> u16 list) \<Rightarrow> page_table \<Rightarrow> nat \<Rightarrow> nat \<Rightarrow> u32 \<Rightarrow> (page_table \<times> int) option" where
  "init_pages mem t start nb flags =
     map_option (\<lambda>(t', err). (t', if err < 0 then err else 0))
       (append_global_page_block mem (t\<lparr>num_global_blocks := 0\<rparr>) start nb flags)"

definition block_matches :: "page_block \<Rightarrow> u32 \<Rightarrow> nat \<Rightarrow> bool" where
  "block_matches b flags contiguous \<longleftrightarrow>
     pb_flags b AND (PAGE_F_TYPE AND flags) = PAGE_F_TYPE AND flags \<and> pb_free_pages b > int contiguous"

fun page_alloc_from :: "page_table \<Rightarrow> nat \<Rightarrow> u32 \<Rightarrow> nat list \<Rightarrow> (page_table \<times> nat) option" where
  "page_alloc_from t nb flags [] = Some (t, 0)"
| "page_alloc_from t nb flags (i # is) =
     (if i < length (global_blocks t) then
        if block_matches (global_blocks t ! i) flags (pages_of nb) then
          map_option (\<lambda>(b, p). (t\<lparr>global_blocks := (global_blocks t)[i := b]\<rparr>, p))
            (page_block_alloc (global_blocks t ! i) nb)
        else page_alloc_from t nb flags is
      else None)"

definition page_alloc :: "page_table \<Rightarrow> nat \<Rightarrow> u32 \<Rightarrow> (page_table \<times> nat) option" where
  "page_alloc t nb flags = page_alloc_from t nb flags [0..<num_global_blocks t]"

definition block_contains :: "page_block \<Rightarrow> nat \<Rightarrow> bool" where
  "block_contains b ptr \<longleftrightarrow> ptr \<ge> pb_base b \<and> ptr \<le> block_end b"

fun page_free_from :: "page_table \<Rightarrow> nat \<Rightarrow> nat \<Rightarrow> nat list \<Rightarrow> page_table option" where
  "page_free_from t ptr nb [] = Some t"
| "page_free_from t ptr nb (i # is) =
     (if i < length (global_blocks t) then
        if block_contains (global_blocks t ! i) ptr then
          map_option (\<lambda>b. t\<lparr>global_blocks := (global_blocks t)[i := b]\<rparr>)
            (page_block_free (global_blocks t ! i) ptr nb)
        else page_free_from t ptr nb is
      else None)"

definition page_free :: "page_table \<Rightarrow> nat \<Rightarrow> nat \<Rightarrow> page_table option" where
  "page_free t ptr nb = page_free_from t ptr nb [0..<num_global_blocks t]"

text \<open>The loops of the two reference functions do not leave at the first match and drop its result.\<close>

fun page_make_ref_from :: "page_table \<Rightarrow> nat \<Rightarrow> nat \<Rightarrow> nat list \<Rightarrow> (page_table \<times> nat) option" where
  "page_make_ref_from t ptr nb [] = Some (t, 0)"
| "page_make_ref_from t ptr nb (i # is) =
     (if i < length (global_blocks t) then
        if block_contains (global_blocks t ! i) ptr then
          Option.bind (page_block_make_ref (global_blocks t ! i) ptr nb)
            (\<lambda>(b, _). page_make_ref_from (t\<lparr>global_blocks := (global_blocks t)[i := b]\<rparr>) ptr nb is)
        else page_make_ref_from t ptr nb is
      else None)"

definition page_make_ref :: "page_table \<Rightarrow> nat \<Rightarrow> nat \<Rightarrow> (page_table \<times> nat) option" where
  "page_make_ref t ptr nb = page_make_ref_from t ptr nb [0..<num_global_blocks t]"

fun page_get_ref_from :: "page_table \<Rightarrow> nat \<Rightarrow> nat list \<Rightarrow> int option" where
  "page_get_ref_from t ptr [] = Some 0"
| "page_get_ref_from t ptr (i # is) =
     (if i < length (global_blocks t) then
        if block_contains (global_blocks t ! i) ptr then
          Option.bind (page_block_get_ref_single (global_blocks t ! i) ptr) (\<lambda>_. page_get_ref_from t ptr is)
        else page_get_ref_from t ptr is
      else None)"

definition page_get_ref_single :: "page_table \<Rightarrow> nat \<Rightarrow> int option" where
  "page_get_ref_single t ptr = page_get_ref_from t ptr [0..<num_global_blocks t]"

section \<open>Bits of the bitmap\<close>

lemma page_bit_iff: "page_bit b i \<longleftrightarrow> bit (pb_bitmap b ! (i div 16)) (i mod 16)"
  by (simp add: page_bit_def BIT_INDEX_def BIT_MASK_def push_bit_of_1 and_exp_eq_0_iff_not_bit)

lemma full_word: "pb_bitmap b ! BIT_INDEX i = ALL_PAGES_AT_INDEX \<Longrightarrow> j div 16 = i div 16 \<Longrightarrow> page_bit b j"
proof -
  assume w: "pb_bitmap b ! BIT_INDEX i = ALL_PAGES_AT_INDEX" "j div 16 = i div 16"
  have "(65535 :: u16) = - 1" by simp
  then have "pb_bitmap b ! (j div 16) = - 1" using w by (simp add: ALL_PAGES_AT_INDEX_def BIT_INDEX_def)
  then show "page_bit b j" by (simp add: page_bit_iff bit_minus_1_iff)
qed

lemma bit_mask_iff: "bit (BIT_MASK i) k \<longleftrightarrow> k = i mod 16"
  by (auto simp: BIT_MASK_def push_bit_of_1 bit_exp_iff possible_bit_def)

lemma page_bit_set:
  assumes "i div 16 < length (pb_bitmap b)"
    and "pb_bitmap b' = (pb_bitmap b)[BIT_INDEX i := pb_bitmap b ! BIT_INDEX i OR BIT_MASK i]"
  shows "page_bit b' j \<longleftrightarrow> j = i \<or> page_bit b j"
proof (cases "j div 16 = i div 16")
  case True
  then have "page_bit b' j \<longleftrightarrow> bit (pb_bitmap b ! (i div 16)) (j mod 16) \<or> j mod 16 = i mod 16"
    using assms by (simp add: page_bit_iff BIT_INDEX_def bit_or_iff bit_mask_iff)
  moreover have "j mod 16 = i mod 16 \<longleftrightarrow> j = i" using True by (metis div_mult_mod_eq)
  ultimately show ?thesis using True by (auto simp: page_bit_iff)
next
  case False
  then show ?thesis using assms by (auto simp: page_bit_iff BIT_INDEX_def)
qed

lemma page_bit_clear:
  assumes "i div 16 < length (pb_bitmap b)"
    and "pb_bitmap b' = (pb_bitmap b)[BIT_INDEX i := pb_bitmap b ! BIT_INDEX i AND NOT (BIT_MASK i)]"
  shows "page_bit b' j \<longleftrightarrow> j \<noteq> i \<and> page_bit b j"
proof (cases "j div 16 = i div 16")
  case True
  then have "page_bit b' j \<longleftrightarrow> bit (pb_bitmap b ! (i div 16)) (j mod 16) \<and> j mod 16 \<noteq> i mod 16"
    using assms by (simp add: page_bit_iff BIT_INDEX_def bit_and_iff bit_not_iff bit_mask_iff possible_bit_def)
  moreover have "j mod 16 = i mod 16 \<longleftrightarrow> j = i" using True by (metis div_mult_mod_eq)
  ultimately show ?thesis using True by (auto simp: page_bit_iff)
next
  case False
  then show ?thesis using assms by (auto simp: page_bit_iff BIT_INDEX_def)
qed

section \<open>The search is a first fit search\<close>

definition run_free :: "page_block \<Rightarrow> nat \<Rightarrow> nat \<Rightarrow> bool" where
  "run_free b c s \<longleftrightarrow> s + c \<le> pb_total_pages b \<and> (\<forall>i \<in> {s..<s + c}. \<not> page_bit b i)"

definition first_fit :: "page_block \<Rightarrow> nat \<Rightarrow> nat option" where
  "first_fit b c = find (run_free b c) [0..<pb_total_pages b]"

lemma scan_end_spec:
  assumes "s < e" "e \<le> pb_total_pages b" "e - s \<le> c"
  shows "e \<le> scan_end b c s e \<and> scan_end b c s e \<le> pb_total_pages b \<and> scan_end b c s e - s \<le> c \<and>
         (\<forall>i. e \<le> i \<and> i < scan_end b c s e \<longrightarrow> \<not> page_bit b i) \<and>
         (scan_end b c s e - s < c \<longrightarrow> scan_end b c s e = pb_total_pages b \<or> page_bit b (scan_end b c s e))"
  using assms
proof (induction b c s e rule: scan_end.induct)
  case (1 b c s e)
  show ?case
  proof (cases "e < pb_total_pages b \<and> e - s < c \<and> \<not> page_bit b e")
    case True
    then have eq: "scan_end b c s e = scan_end b c s (e + 1)" by (simp add: scan_end.simps [of b c s e])
    have "s < e + 1" "e + 1 \<le> pb_total_pages b" "e + 1 - s \<le> c" using True "1.prems" by linarith+
    note IH = "1.IH" [OF _ _ this]
    have "\<not> page_bit b i" if "e \<le> i \<and> i < scan_end b c s (e + 1)" for i
      using IH True that by (cases "i = e") auto
    then show ?thesis using IH True unfolding eq by auto
  next
    case False
    then have "scan_end b c s e = e" by (auto simp: scan_end.simps [of b c s e])
    then show ?thesis using False "1.prems" by auto
  qed
qed

lemma find_skip:
  assumes "s \<le> t" "\<And>x. s \<le> x \<Longrightarrow> x < t \<Longrightarrow> x < m \<Longrightarrow> \<not> P x"
  shows "find P [s..<m] = find P [t..<m]"
proof (cases "t \<le> m")
  case True
  then have "[s..<m] = [s..<t] @ [t..<m]" using upt_add_eq_append [of s t "m - t"] assms(1) by simp
  moreover have "find P [s..<t] = None" using assms(2) True by (auto simp: find_None_iff)
  moreover have "find P (xs @ ys) = (case find P xs of None \<Rightarrow> find P ys | r \<Rightarrow> r)" for xs ys
    by (induction xs) auto
  ultimately show ?thesis by simp
next
  case False
  then have "find P [s..<m] = None" using assms(2) by (auto simp: find_None_iff)
  then show ?thesis using False by simp
qed

lemma find_here: "s < m \<Longrightarrow> P s \<Longrightarrow> find P [s..<m] = Some s"
  by (simp add: upt_conv_Cons)

lemma same_word: "s mod 16 = 0 \<Longrightarrow> s \<le> x \<Longrightarrow> x < s + 16 \<Longrightarrow> x div 16 = s div 16" for s x :: nat
proof -
  assume a: "s mod 16 = 0" "s \<le> x" "x < s + 16"
  obtain q where "s = 16 * q" using a(1) by (auto simp: mod_eq_0_iff_dvd)
  then show ?thesis using a(2,3) by (auto intro!: div_nat_eqI)
qed

lemma page_search_first_fit:
  assumes "1 \<le> c" "s mod 16 = 0 \<or> pb_bitmap b ! BIT_INDEX s \<noteq> ALL_PAGES_AT_INDEX"
  shows "page_search b c s = map_option (\<lambda>x. (x, x + c)) (find (run_free b c) [s..<pb_total_pages b])"
  using assms
proof (induction b c s rule: page_search.induct)
  case (1 b c s)
  note unfold = page_search.simps [of b c s]
  let ?full = "pb_bitmap b ! BIT_INDEX s = ALL_PAGES_AT_INDEX"
  have next_word: "(s + 1) mod 16 = 0 \<or> pb_bitmap b ! BIT_INDEX (s + 1) \<noteq> ALL_PAGES_AT_INDEX" if "\<not> ?full"
  proof (cases "(s + 1) mod 16 = 0")
    case False
    then have "(s + 1) div 16 = s div 16" by (simp add: div_Suc mod_Suc split: if_splits)
    then show ?thesis using that by (simp add: BIT_INDEX_def)
  qed simp
  have not_run: "\<not> run_free b c x" if "page_bit b x" for x
    using that "1.prems"(1) by (auto simp: run_free_def)
  consider (over) "\<not> s < pb_total_pages b" | (full) "s < pb_total_pages b" ?full
    | (taken) "s < pb_total_pages b" "\<not> ?full" "page_bit b s"
    | (free) "s < pb_total_pages b" "\<not> ?full" "\<not> page_bit b s" by blast
  then show ?case
  proof cases
    case over
    then show ?thesis using unfold by simp
  next
    case full
    then have al: "s mod 16 = 0" using "1.prems"(2) by simp
    have "find (run_free b c) [s..<pb_total_pages b] = find (run_free b c) [s + 16..<pb_total_pages b]"
      by (rule find_skip) (simp_all add: not_run [OF full_word [OF full(2) same_word [OF al]]])
    then show ?thesis
      using "1.IH"(1) [OF full] "1.prems"(1) full unfold al by (simp add: PAGES_PER_INDEX_def)
  next
    case taken
    then have "find (run_free b c) [s..<pb_total_pages b] = find (run_free b c) [s + 1..<pb_total_pages b]"
      using not_run by (intro find_skip) (auto simp: le_less_Suc_eq)
    then show ?thesis
      using "1.IH"(2) [OF taken] "1.prems"(1) next_word taken unfold by simp
  next
    case free
    define e where "e = scan_end b c s (s + 1)"
    have e: "s + 1 \<le> e" "e \<le> pb_total_pages b" "e - s \<le> c" "\<And>i. s + 1 \<le> i \<Longrightarrow> i < e \<Longrightarrow> \<not> page_bit b i"
        "e - s < c \<Longrightarrow> e = pb_total_pages b \<or> page_bit b e"
      using scan_end_spec [of s "s + 1" b c] free(1) "1.prems"(1) by (auto simp: e_def)
    show ?thesis
    proof (cases "e - s < c")
      case True
      then have "\<not> run_free b c s" using e by (auto simp: run_free_def)
      then have "find (run_free b c) [s..<pb_total_pages b] = find (run_free b c) [s + 1..<pb_total_pages b]"
        by (intro find_skip) (auto simp: le_less_Suc_eq)
      then show ?thesis
        using "1.IH"(3) [OF free e_def] True "1.prems"(1) next_word free unfold by (simp add: e_def Let_def)
    next
      case False
      then have "e = s + c" using e(1,3) by simp
      then have "run_free b c s" using e(2,4) free(3) by (auto simp: run_free_def) (metis Suc_leI le_neq_implies_less)
      then show ?thesis
        using find_here [of s] free unfold False e(2) \<open>e = s + c\<close> by (simp add: e_def Let_def)
    qed
  qed
qed

lemma page_search_eq:
  "1 \<le> c \<Longrightarrow> page_search b c 0 = map_option (\<lambda>x. (x, x + c)) (first_fit b c)"
  by (simp add: first_fit_def page_search_first_fit)

section \<open>The invariant of a block\<close>

text \<open>
  The free counter counts the clear bits, and a bit is set exactly when the page is referenced.
  The pages lie in the address space above address 0.
\<close>

definition pb_free_set :: "page_block \<Rightarrow> nat set" where
  "pb_free_set b = {i. i < pb_total_pages b \<and> \<not> page_bit b i}"

definition pb_inv :: "page_block \<Rightarrow> bool" where
  "pb_inv b \<longleftrightarrow> pb_backed b \<and> 0 < pb_base b \<and> pb_base b + pb_total_pages b * PAGE_SIZE < 4294967296 \<and>
     pb_free_pages b = int (card (pb_free_set b)) \<and>
     (\<forall>i < pb_total_pages b. page_bit b i \<longleftrightarrow> pb_refcount b ! i \<noteq> 0)"

lemma finite_pb_free_set [simp]: "finite (pb_free_set b)"
  by (simp add: pb_free_set_def)

lemma pb_backed_index: "pb_backed b \<Longrightarrow> i < pb_total_pages b \<Longrightarrow> i div 16 < length (pb_bitmap b) \<and> i < length (pb_refcount b)"
  by (auto simp: pb_backed_def less_mult_imp_div_less mult.commute)

text \<open>What an operation on the pages of a block leaves alone.\<close>

definition pb_shape :: "page_block \<Rightarrow> u32 \<times> nat \<times> nat \<times> nat \<times> nat \<times> nat" where
  "pb_shape b = (pb_flags b, pb_total_pages b, pb_base b, pb_bitmap_size b, length (pb_bitmap b), length (pb_refcount b))"

lemma pb_backed_shape: "pb_shape b' = pb_shape b \<Longrightarrow> pb_backed b' = pb_backed b"
  by (simp add: pb_shape_def pb_backed_def)

lemma fold_mark:
  assumes "pb_backed b" "s \<le> e" "e \<le> pb_total_pages b"
  shows "pb_shape (fold mark_page [s..<e] b) = pb_shape b \<and>
         pb_free_pages (fold mark_page [s..<e] b) = pb_free_pages b \<and>
         (\<forall>j. page_bit (fold mark_page [s..<e] b) j \<longleftrightarrow> (s \<le> j \<and> j < e) \<or> page_bit b j) \<and>
         (\<forall>j < length (pb_refcount b). pb_refcount (fold mark_page [s..<e] b) ! j
            = (if s \<le> j \<and> j < e then 1 else pb_refcount b ! j))"
  using assms(2,3)
proof (induction e rule: dec_induct)
  case base
  then show ?case by auto
next
  case (step e)
  let ?b = "fold mark_page [s..<e] b"
  have IH: "pb_shape ?b = pb_shape b" "pb_free_pages ?b = pb_free_pages b"
      "\<And>j. page_bit ?b j \<longleftrightarrow> (s \<le> j \<and> j < e) \<or> page_bit b j"
      "\<And>j. j < length (pb_refcount b) \<Longrightarrow> pb_refcount ?b ! j = (if s \<le> j \<and> j < e then 1 else pb_refcount b ! j)"
    using step by auto
  have len: "e div 16 < length (pb_bitmap ?b)" "length (pb_refcount ?b) = length (pb_refcount b)"
    using pb_backed_index [OF assms(1), of e] step.prems IH(1) by (auto simp: pb_shape_def)
  have "page_bit (mark_page e ?b) j \<longleftrightarrow> j = e \<or> page_bit ?b j" for j
    by (rule page_bit_set [OF len(1)]) (simp add: mark_page_def)
  then have "page_bit (mark_page e ?b) j \<longleftrightarrow> (s \<le> j \<and> j < Suc e) \<or> page_bit b j" for j
    using IH(3) step.hyps by (auto simp: less_Suc_eq)
  moreover have "pb_refcount (mark_page e ?b) ! j = (if s \<le> j \<and> j < Suc e then 1 else pb_refcount b ! j)"
    if "j < length (pb_refcount b)" for j
    using IH(4) [OF that] that step.hyps len(2) by (auto simp: mark_page_def nth_list_update less_Suc_eq)
  moreover have "pb_shape (mark_page e ?b) = pb_shape ?b" "pb_free_pages (mark_page e ?b) = pb_free_pages ?b"
    by (simp_all add: mark_page_def pb_shape_def)
  moreover have "fold mark_page [s..<Suc e] b = mark_page e ?b" using step.hyps by simp
  ultimately show ?case using IH(1,2) by simp
qed

lemma first_fit_run: "first_fit b c = Some x \<Longrightarrow> run_free b c x"
  by (auto simp: first_fit_def find_Some_iff)

lemma pb_shape_fields:
  assumes "pb_shape b' = pb_shape b"
  shows "pb_total_pages b' = pb_total_pages b" "pb_base b' = pb_base b" "pb_flags b' = pb_flags b"
    "pb_bitmap_size b' = pb_bitmap_size b" "length (pb_bitmap b') = length (pb_bitmap b)"
    "length (pb_refcount b') = length (pb_refcount b)"
  using assms by (simp_all add: pb_shape_def)

lemma page_addr_eq:
  "pb_inv b \<Longrightarrow> i \<le> pb_total_pages b \<Longrightarrow> page_addr b i = pb_base b + i * PAGE_SIZE \<and> page_addr b i \<noteq> 0 \<and>
     page_number b (page_addr b i) = i"
proof -
  assume inv: "pb_inv b" and i: "i \<le> pb_total_pages b"
  have le: "pb_base b + i * PAGE_SIZE < 4294967296"
    using inv mult_le_mono1 [OF i, of PAGE_SIZE] unfolding pb_inv_def by linarith
  then show ?thesis
    using inv by (simp add: page_addr_def page_number_def c_arith pb_inv_def PAGE_SIZE_def)
qed

text \<open>A successful allocation of \<open>c\<close> pages takes the pages of the first fit out of the free set.\<close>

lemma page_block_alloc_spec:
  assumes inv: "pb_inv b" and c: "pages_of nb = c" "1 \<le> c" and fit: "first_fit b c = Some x"
  shows "\<exists>b'. page_block_alloc b nb = Some (b', page_addr b x) \<and> pb_inv b' \<and> pb_shape b' = pb_shape b \<and>
           x + c \<le> pb_total_pages b \<and> {x..<x + c} \<subseteq> pb_free_set b \<and> pb_free_set b' = pb_free_set b - {x..<x + c} \<and>
           pb_free_pages b' = pb_free_pages b - int c \<and>
           (\<forall>j. page_bit b' j \<longleftrightarrow> (x \<le> j \<and> j < x + c) \<or> page_bit b j) \<and>
           (\<forall>j < length (pb_refcount b). pb_refcount b' ! j = (if x \<le> j \<and> j < x + c then 1 else pb_refcount b ! j))"
proof -
  have bk: "pb_backed b" using inv by (simp add: pb_inv_def)
  have run: "x + c \<le> pb_total_pages b" "\<And>i. i \<in> {x..<x + c} \<Longrightarrow> \<not> page_bit b i"
    using first_fit_run [OF fit] by (auto simp: run_free_def)
  let ?m = "fold mark_page [x..<x + c] b"
  note m = fold_mark [OF bk _ run(1), of x]
  define b' where "b' = ?m\<lparr>pb_free_pages := pb_free_pages ?m - int c\<rparr>"
  have alloc: "page_block_alloc b nb = Some (b', page_addr b x)"
    using bk fit c m page_search_eq [OF c(2), of b]
    by (simp add: page_block_alloc_def Let_def b'_def page_addr_def pb_shape_def)
  have shape: "pb_shape b' = pb_shape b" and bits: "\<And>j. page_bit b' j \<longleftrightarrow> (x \<le> j \<and> j < x + c) \<or> page_bit b j"
    using m by (simp_all add: b'_def pb_shape_def page_bit_def)
  have refs: "\<And>j. j < length (pb_refcount b) \<Longrightarrow> pb_refcount b' ! j = (if x \<le> j \<and> j < x + c then 1 else pb_refcount b ! j)"
    using m by (simp add: b'_def)
  have sub: "{x..<x + c} \<subseteq> pb_free_set b" using run by (auto simp: pb_free_set_def)
  have fs: "pb_free_set b' = pb_free_set b - {x..<x + c}"
    unfolding pb_free_set_def bits pb_shape_fields(1) [OF shape] by auto
  have "card (pb_free_set b') = card (pb_free_set b) - c" "c \<le> card (pb_free_set b)"
    using card_Diff_subset [of "{x..<x + c}" "pb_free_set b"] sub fs card_mono [OF _ sub] by simp_all
  then have "pb_free_pages b' = int (card (pb_free_set b'))"
    using inv m by (simp add: b'_def pb_inv_def of_nat_diff)
  moreover have "page_bit b' i \<longleftrightarrow> pb_refcount b' ! i \<noteq> 0" if "i < pb_total_pages b" for i
    using that inv refs [of i] pb_backed_index [OF bk that] unfolding bits pb_inv_def
    by (cases "x \<le> i \<and> i < x + c") auto
  ultimately have "pb_inv b'"
    using inv pb_backed_shape [OF shape] pb_shape_fields(1,2) [OF shape] by (simp add: pb_inv_def)
  moreover have "pb_free_pages b' = pb_free_pages b - int c" using m by (simp add: b'_def)
  ultimately show ?thesis using alloc shape run(1) sub fs refs bits by blast
qed

lemma page_block_alloc_none:
  assumes "pb_inv b" "1 \<le> pages_of nb" "first_fit b (pages_of nb) = None"
  shows "page_block_alloc b nb = Some (b, 0)"
  using assms page_search_eq [OF assms(2), of b] by (simp add: page_block_alloc_def pb_inv_def)

section \<open>Releasing pages\<close>

lemma unref_page_last:
  assumes "pb_backed b" "i < pb_total_pages b" "pb_refcount b ! i = 1"
  shows "\<exists>b'. unref_page i b = Some b' \<and> pb_shape b' = pb_shape b \<and> pb_free_pages b' = pb_free_pages b + 1 \<and>
           (\<forall>j. page_bit b' j \<longleftrightarrow> j \<noteq> i \<and> page_bit b j) \<and> pb_refcount b' = (pb_refcount b)[i := 0]"
proof -
  let ?b' = "b\<lparr>pb_refcount := (pb_refcount b)[i := 0],
       pb_bitmap := (pb_bitmap b)[BIT_INDEX i := pb_bitmap b ! BIT_INDEX i AND NOT (BIT_MASK i)],
       pb_free_pages := pb_free_pages b + 1\<rparr>"
  note idx = pb_backed_index [OF assms(1,2)]
  have "unref_page i b = Some ?b'"
    using idx assms(3) by (simp add: unref_page_def BIT_INDEX_def Let_def)
  moreover have "page_bit ?b' j \<longleftrightarrow> j \<noteq> i \<and> page_bit b j" for j
    by (rule page_bit_clear) (use idx in simp_all)
  ultimately show ?thesis by (simp add: pb_shape_def)
qed

lemma unref_pages_last:
  assumes "pb_backed b" "i + n \<le> pb_total_pages b" "\<And>j. i \<le> j \<Longrightarrow> j < i + n \<Longrightarrow> pb_refcount b ! j = 1"
  shows "\<exists>b'. unref_pages i n b = Some b' \<and> pb_shape b' = pb_shape b \<and> pb_free_pages b' = pb_free_pages b + int n \<and>
           (\<forall>j. page_bit b' j \<longleftrightarrow> \<not> (i \<le> j \<and> j < i + n) \<and> page_bit b j) \<and>
           (\<forall>j < length (pb_refcount b). pb_refcount b' ! j = (if i \<le> j \<and> j < i + n then 0 else pb_refcount b ! j))"
  using assms
proof (induction n arbitrary: i b)
  case 0
  then show ?case by auto
next
  case (Suc n)
  obtain b1 where 1: "unref_page i b = Some b1" "pb_shape b1 = pb_shape b" "pb_free_pages b1 = pb_free_pages b + 1"
      "\<And>j. page_bit b1 j \<longleftrightarrow> j \<noteq> i \<and> page_bit b j" "pb_refcount b1 = (pb_refcount b)[i := 0]"
    using unref_page_last [OF Suc.prems(1), of i] Suc.prems(2,3) by auto
  have bk1: "pb_backed b1" and le1: "i + 1 + n \<le> pb_total_pages b1"
    using Suc.prems(1,2) pb_backed_shape [OF 1(2)] pb_shape_fields(1) [OF 1(2)] by simp_all
  have "pb_refcount b1 ! j = 1" if "i + 1 \<le> j" "j < i + 1 + n" for j
    using Suc.prems(3) [of j] that 1(5) by simp
  then obtain b' where 2: "unref_pages (i + 1) n b1 = Some b'" "pb_shape b' = pb_shape b1"
      "pb_free_pages b' = pb_free_pages b1 + int n"
      "\<And>j. page_bit b' j \<longleftrightarrow> \<not> (i + 1 \<le> j \<and> j < i + 1 + n) \<and> page_bit b1 j"
      "\<And>j. j < length (pb_refcount b1) \<Longrightarrow> pb_refcount b' ! j = (if i + 1 \<le> j \<and> j < i + 1 + n then 0 else pb_refcount b1 ! j)"
    using Suc.IH [OF bk1 le1] by blast
  have "page_bit b' j \<longleftrightarrow> \<not> (i \<le> j \<and> j < i + Suc n) \<and> page_bit b j" for j
    unfolding 2(4) 1(4) by (cases "j = i") auto
  moreover have "pb_refcount b' ! j = (if i \<le> j \<and> j < i + Suc n then 0 else pb_refcount b ! j)"
    if "j < length (pb_refcount b)" for j
    using 2(5) [of j] 1(5) that by (cases "j = i") auto
  ultimately show ?case using 1 2 by simp
qed

lemma bitmap_eqI:
  assumes "length (pb_bitmap b') = length (pb_bitmap b)" "\<And>j. j < 16 * length (pb_bitmap b) \<Longrightarrow> page_bit b' j \<longleftrightarrow> page_bit b j"
  shows "pb_bitmap b' = pb_bitmap b"
proof (rule nth_equalityI)
  show "length (pb_bitmap b') = length (pb_bitmap b)" by fact
  fix w assume "w < length (pb_bitmap b')"
  then have w: "w < length (pb_bitmap b)" using assms(1) by simp
  show "pb_bitmap b' ! w = pb_bitmap b ! w"
  proof (rule bit_word_eqI)
    fix k assume "k < LENGTH(16)"
    then have "(16 * w + k) div 16 = w" "(16 * w + k) mod 16 = k" "16 * w + k < 16 * length (pb_bitmap b)"
      using w by simp_all
    then show "bit (pb_bitmap b' ! w) k = bit (pb_bitmap b ! w) k"
      using assms(2) [of "16 * w + k"] by (simp add: page_bit_iff)
  qed
qed

lemma page_block_free_alloc:
  assumes inv: "pb_inv b" and c: "1 \<le> pages_of nb" and fit: "first_fit b (pages_of nb) = Some x"
    and alloc: "page_block_alloc b nb = Some (b', p)"
  shows "page_block_free b' p nb = Some b"
proof -
  let ?c = "pages_of nb"
  have a: "p = page_addr b x" "pb_inv b'" "pb_shape b' = pb_shape b" "x + ?c \<le> pb_total_pages b"
      "{x..<x + ?c} \<subseteq> pb_free_set b" "pb_free_set b' = pb_free_set b - {x..<x + ?c}"
      "\<And>j. j < length (pb_refcount b) \<Longrightarrow> pb_refcount b' ! j = (if x \<le> j \<and> j < x + ?c then 1 else pb_refcount b ! j)"
      "pb_free_pages b' = pb_free_pages b - int ?c" "\<And>j. page_bit b' j \<longleftrightarrow> (x \<le> j \<and> j < x + ?c) \<or> page_bit b j"
    using page_block_alloc_spec [OF inv refl c fit] alloc by auto
  note sh = pb_shape_fields [OF a(3)]
  have bk: "pb_backed b" "pb_backed b'" using inv a(2) by (auto simp: pb_inv_def)
  have "x \<le> pb_total_pages b" using a(4) by simp
  then have "page_number b (page_addr b x) = x" using page_addr_eq [OF inv] by blast
  then have pn: "page_number b' p = x" by (simp only: a(1) page_number_def sh(2))
  obtain b2 where 2: "unref_pages x ?c b' = Some b2" "pb_shape b2 = pb_shape b'" "pb_free_pages b2 = pb_free_pages b' + int ?c"
      "\<And>j. page_bit b2 j \<longleftrightarrow> \<not> (x \<le> j \<and> j < x + ?c) \<and> page_bit b' j"
      "\<And>j. j < length (pb_refcount b') \<Longrightarrow> pb_refcount b2 ! j = (if x \<le> j \<and> j < x + ?c then 0 else pb_refcount b' ! j)"
    using unref_pages_last [OF bk(2), of x ?c] a(4,7) sh pb_backed_index [OF bk(1)] by auto
  note sh2 = pb_shape_fields [OF 2(2)]
  have free: "\<not> page_bit b j \<and> pb_refcount b ! j = 0" if "x \<le> j" "j < x + ?c" for j
    using that a(5) inv by (auto simp: pb_free_set_def pb_inv_def)
  have "pb_bitmap b2 = pb_bitmap b"
    by (rule bitmap_eqI) (use sh sh2 free in \<open>auto simp: 2(4) a(9)\<close>)
  moreover have "pb_refcount b2 = pb_refcount b"
  proof (rule nth_equalityI)
    show "length (pb_refcount b2) = length (pb_refcount b)" using sh sh2 by simp
    fix j assume "j < length (pb_refcount b2)"
    then have "j < length (pb_refcount b)" "j < length (pb_refcount b')" using sh sh2 by simp_all
    then show "pb_refcount b2 ! j = pb_refcount b ! j"
      using 2(5) a(7) free by (cases "x \<le> j \<and> j < x + ?c") simp_all
  qed
  moreover have "pb_free_pages b2 = pb_free_pages b" using 2(3) a(8) by simp
  ultimately have "b2 = b" using sh sh2 by (intro page_block.equality) simp_all
  then show ?thesis using 2(1) pn by (simp add: page_block_free_def)
qed

section \<open>The interface of an allocator\<close>

text \<open>
  What the users of pages rely on: a region handed out was free and is no longer. The lemma lifts
  this to any number of allocations.
\<close>

fun alloc_seq :: "('s \<Rightarrow> nat \<Rightarrow> ('s \<times> nat) option) \<Rightarrow> 's \<Rightarrow> nat list \<Rightarrow> ('s \<times> nat set list) option" where
  "alloc_seq alloc s [] = Some (s, [])"
| "alloc_seq alloc s (c # cs) = (case alloc s c of
      None \<Rightarrow> None
    | Some (s', x) \<Rightarrow> map_option (\<lambda>(t, rs). (t, {x..<x + c} # rs)) (alloc_seq alloc s' cs))"

fun disjoint_list :: "'a set list \<Rightarrow> bool" where
  "disjoint_list [] \<longleftrightarrow> True"
| "disjoint_list (r # rs) \<longleftrightarrow> (\<forall>q \<in> set rs. r \<inter> q = {}) \<and> disjoint_list rs"

locale region_allocator =
  fixes inv :: "'s \<Rightarrow> bool" and free :: "'s \<Rightarrow> nat set" and alloc :: "'s \<Rightarrow> nat \<Rightarrow> ('s \<times> nat) option"
  assumes alloc_region: "inv s \<Longrightarrow> 1 \<le> c \<Longrightarrow> alloc s c = Some (s', x) \<Longrightarrow>
      inv s' \<and> {x..<x + c} \<subseteq> free s \<and> free s' = free s - {x..<x + c}"
begin

lemma alloc_seq_disjoint:
  assumes "inv s" "\<forall>c \<in> set cs. 1 \<le> c" "alloc_seq alloc s cs = Some (t, rs)"
  shows "inv t \<and> disjoint_list rs \<and> \<Union> (set rs) \<subseteq> free s \<and> free t = free s - \<Union> (set rs)"
  using assms
proof (induction cs arbitrary: s rs)
  case Nil
  then show ?case by simp
next
  case (Cons c cs)
  obtain s' x qs where 1: "alloc s c = Some (s', x)" "alloc_seq alloc s' cs = Some (t, qs)" "rs = {x..<x + c} # qs"
    using Cons.prems(3) by (auto split: option.splits)
  have r: "inv s'" "{x..<x + c} \<subseteq> free s" "free s' = free s - {x..<x + c}"
    using alloc_region [OF Cons.prems(1) _ 1(1)] Cons.prems(2) by auto
  have "inv t \<and> disjoint_list qs \<and> \<Union> (set qs) \<subseteq> free s' \<and> free t = free s' - \<Union> (set qs)"
    using Cons.IH [OF r(1) _ 1(2)] Cons.prems(2) by simp
  then show ?case using 1(3) r by auto
qed

end

definition block_take :: "page_block \<Rightarrow> nat \<Rightarrow> (page_block \<times> nat) option" where
  "block_take b c = (case page_block_alloc b (c * PAGE_SIZE) of
      Some (b', p) \<Rightarrow> (if p = 0 then None else Some (b', page_number b p)) | None \<Rightarrow> None)"

lemma pages_of_mult [simp]: "pages_of (c * PAGE_SIZE) = c"
  by (simp add: pages_of_def PAGE_SIZE_def)

lemma block_take_spec:
  assumes "pb_inv b" "1 \<le> c" "block_take b c = Some (b', x)"
  shows "first_fit b c = Some x \<and> page_block_alloc b (c * PAGE_SIZE) = Some (b', page_addr b x)"
proof (cases "first_fit b c")
  case None
  then show ?thesis
    using page_block_alloc_none [of b "c * PAGE_SIZE"] assms by (simp add: block_take_def)
next
  case (Some y)
  obtain b1 where b1: "page_block_alloc b (c * PAGE_SIZE) = Some (b1, page_addr b y)" "y + c \<le> pb_total_pages b"
    using page_block_alloc_spec [OF assms(1) _ assms(2) Some, of "c * PAGE_SIZE"] by auto
  have "y \<le> pb_total_pages b" using b1(2) by simp
  then have "page_addr b y \<noteq> 0" "page_number b (page_addr b y) = y"
    using page_addr_eq [OF assms(1)] by blast+
  then show ?thesis using assms(3) b1(1) Some by (simp add: block_take_def)
qed

interpretation page_region: region_allocator pb_inv pb_free_set block_take
proof
  fix s s' :: page_block and c x :: nat
  assume a: "pb_inv s" "1 \<le> c" "block_take s c = Some (s', x)"
  have fit: "first_fit s c = Some x" "page_block_alloc s (c * PAGE_SIZE) = Some (s', page_addr s x)"
    using block_take_spec [OF a] by simp_all
  show "pb_inv s' \<and> {x..<x + c} \<subseteq> pb_free_set s \<and> pb_free_set s' = pb_free_set s - {x..<x + c}"
    using page_block_alloc_spec [OF a(1) _ a(2) fit(1), of "c * PAGE_SIZE"] fit(2) by auto
qed

section \<open>All page blocks together\<close>

text \<open>The bytes of the free pages of a block and of all blocks, and blocks that do not overlap.\<close>

definition page_bytes :: "page_block \<Rightarrow> nat \<Rightarrow> nat set" where
  "page_bytes b x = {pb_base b + x * PAGE_SIZE..<pb_base b + x * PAGE_SIZE + PAGE_SIZE}"

definition block_free_bytes :: "page_block \<Rightarrow> nat set" where
  "block_free_bytes b = (\<Union>x \<in> pb_free_set b. page_bytes b x)"

definition block_range :: "page_block \<Rightarrow> nat set" where
  "block_range b = {pb_base b..<pb_base b + pb_total_pages b * PAGE_SIZE}"

definition table_free_bytes :: "page_table \<Rightarrow> nat set" where
  "table_free_bytes t = (\<Union>i \<in> {..<num_global_blocks t}. block_free_bytes (global_blocks t ! i))"

definition pt_inv :: "page_table \<Rightarrow> bool" where
  "pt_inv t \<longleftrightarrow> num_global_blocks t \<le> length (global_blocks t) \<and>
     (\<forall>i < num_global_blocks t. pb_inv (global_blocks t ! i)) \<and>
     (\<forall>i < num_global_blocks t. \<forall>j < num_global_blocks t. i \<noteq> j \<longrightarrow>
        block_range (global_blocks t ! i) \<inter> block_range (global_blocks t ! j) = {})"

lemma page_bytes_run: "(\<Union>x \<in> {s..<s + c}. page_bytes b x) = {pb_base b + s * PAGE_SIZE..<pb_base b + s * PAGE_SIZE + c * PAGE_SIZE}"
proof (induction c)
  case (Suc c)
  have "{s..<s + Suc c} = insert (s + c) {s..<s + c}" by auto
  then show ?case using Suc by (auto simp: page_bytes_def algebra_simps)
qed simp

lemma page_bytes_disjoint: "x \<noteq> y \<Longrightarrow> page_bytes b x \<inter> page_bytes b y = {}"
proof -
  assume "x \<noteq> y"
  then have "Suc x \<le> y \<or> Suc y \<le> x" by linarith
  then have "Suc x * PAGE_SIZE \<le> y * PAGE_SIZE \<or> Suc y * PAGE_SIZE \<le> x * PAGE_SIZE"
    using mult_le_mono1 by blast
  then show ?thesis by (auto simp: page_bytes_def)
qed

lemma block_free_in_range: "block_free_bytes b \<subseteq> block_range b"
proof
  fix y
  assume "y \<in> block_free_bytes b"
  then obtain x where x: "x < pb_total_pages b" "y \<in> page_bytes b x"
    by (auto simp: block_free_bytes_def pb_free_set_def)
  have "Suc x * PAGE_SIZE \<le> pb_total_pages b * PAGE_SIZE" using x(1) by (intro mult_le_mono1) simp
  then show "y \<in> block_range b" using x(2) by (auto simp: page_bytes_def block_range_def)
qed

lemma block_free_bytes_alloc:
  assumes "pb_shape b' = pb_shape b" "pb_free_set b' = pb_free_set b - {x..<x + c}"
  shows "block_free_bytes b' = block_free_bytes b - {pb_base b + x * PAGE_SIZE..<pb_base b + x * PAGE_SIZE + c * PAGE_SIZE}"
proof -
  have "page_bytes b' = page_bytes b" using assms(1) by (simp add: page_bytes_def pb_shape_def fun_eq_iff)
  then have "block_free_bytes b' = (\<Union>y \<in> pb_free_set b - {x..<x + c}. page_bytes b y)"
    by (simp only: block_free_bytes_def assms(2))
  also have "\<dots> = block_free_bytes b - (\<Union>y \<in> {x..<x + c}. page_bytes b y)"
  proof -
    have "z \<notin> page_bytes b v" if "z \<in> page_bytes b u" "u \<notin> {x..<x + c}" "v \<in> {x..<x + c}" for z u v
      using page_bytes_disjoint [of u v b] that by blast
    then show ?thesis unfolding block_free_bytes_def by blast
  qed
  finally show ?thesis by (simp only: page_bytes_run)
qed

lemma page_block_alloc_bytes:
  assumes inv: "pb_inv b" and c: "1 \<le> c"
  shows "\<exists>b' p. page_block_alloc b (c * PAGE_SIZE) = Some (b', p) \<and> pb_inv b' \<and> block_range b' = block_range b \<and>
           (p = 0 \<and> b' = b \<or> p \<noteq> 0 \<and> p + c * PAGE_SIZE < 4294967296 \<and> {p..<p + c * PAGE_SIZE} \<subseteq> block_free_bytes b \<and>
              block_free_bytes b' = block_free_bytes b - {p..<p + c * PAGE_SIZE})"
proof (cases "first_fit b c")
  case None
  then show ?thesis using page_block_alloc_none [of b "c * PAGE_SIZE"] inv c by simp
next
  case (Some x)
  obtain b' where b': "page_block_alloc b (c * PAGE_SIZE) = Some (b', page_addr b x)" "pb_inv b'" "pb_shape b' = pb_shape b"
      "{x..<x + c} \<subseteq> pb_free_set b" "pb_free_set b' = pb_free_set b - {x..<x + c}" "x + c \<le> pb_total_pages b"
    using page_block_alloc_spec [OF inv _ c Some, of "c * PAGE_SIZE"] by auto
  have "x \<le> pb_total_pages b" using b'(6) by simp
  then have p: "page_addr b x = pb_base b + x * PAGE_SIZE" "page_addr b x \<noteq> 0" using page_addr_eq [OF inv] by blast+
  have "(x + c) * PAGE_SIZE \<le> pb_total_pages b * PAGE_SIZE" using b'(6) by (rule mult_le_mono1)
  then have "page_addr b x + c * PAGE_SIZE < 4294967296" using inv p by (simp add: pb_inv_def algebra_simps)
  moreover have "{page_addr b x..<page_addr b x + c * PAGE_SIZE} \<subseteq> block_free_bytes b"
    unfolding p(1) page_bytes_run [symmetric] using b'(4) by (auto simp: block_free_bytes_def)
  moreover have "block_free_bytes b' = block_free_bytes b - {page_addr b x..<page_addr b x + c * PAGE_SIZE}"
    unfolding p(1) by (rule block_free_bytes_alloc [OF b'(3,5)])
  moreover have "block_range b' = block_range b" using b'(3) by (simp add: block_range_def pb_shape_def)
  ultimately show ?thesis using b' p by blast
qed

lemma page_alloc_from_spec:
  assumes inv: "pt_inv t" and c: "1 \<le> c" and "is": "\<forall>i \<in> set is. i < num_global_blocks t"
  shows "\<exists>t' p. page_alloc_from t (c * PAGE_SIZE) flags is = Some (t', p) \<and> pt_inv t' \<and>
           (p = 0 \<and> table_free_bytes t' = table_free_bytes t \<or>
            p \<noteq> 0 \<and> p + c * PAGE_SIZE < 4294967296 \<and> {p..<p + c * PAGE_SIZE} \<subseteq> table_free_bytes t \<and>
            table_free_bytes t' = table_free_bytes t - {p..<p + c * PAGE_SIZE})"
  using "is"
proof (induction "is")
  case Nil
  then show ?case using inv by simp
next
  case (Cons i "is")
  let ?b = "global_blocks t ! i"
  have i: "i < num_global_blocks t" "i < length (global_blocks t)" using Cons.prems inv by (auto simp: pt_inv_def)
  show ?case
  proof (cases "block_matches ?b flags c")
    case False
    then show ?thesis using Cons i by simp
  next
    case True
    obtain b' p where b': "page_block_alloc ?b (c * PAGE_SIZE) = Some (b', p)" "pb_inv b'" "block_range b' = block_range ?b"
      "p = 0 \<and> b' = ?b \<or> p \<noteq> 0 \<and> p + c * PAGE_SIZE < 4294967296 \<and> {p..<p + c * PAGE_SIZE} \<subseteq> block_free_bytes ?b \<and>
              block_free_bytes b' = block_free_bytes ?b - {p..<p + c * PAGE_SIZE}"
      using page_block_alloc_bytes [OF _ c, of ?b] inv i by (auto simp: pt_inv_def)
    let ?t = "t\<lparr>global_blocks := (global_blocks t)[i := b']\<rparr>"
    have run: "page_alloc_from t (c * PAGE_SIZE) flags (i # is) = Some (?t, p)" using True i b'(1) by simp
    have nth: "global_blocks ?t ! j = (if j = i then b' else global_blocks t ! j)" if "j < num_global_blocks t" for j
      using that i by (simp add: nth_list_update)
    have "pt_inv ?t" using inv b'(2,3) i by (auto simp: pt_inv_def nth_list_update)
    moreover have "p = 0 \<and> table_free_bytes ?t = table_free_bytes t \<or>
            p \<noteq> 0 \<and> p + c * PAGE_SIZE < 4294967296 \<and> {p..<p + c * PAGE_SIZE} \<subseteq> table_free_bytes t \<and>
            table_free_bytes ?t = table_free_bytes t - {p..<p + c * PAGE_SIZE}"
    proof (cases "p = 0")
      case True
      then show ?thesis using b'(4) by (simp add: list_update_id)
    next
      case False
      let ?R = "{p..<p + c * PAGE_SIZE}"
      have R: "?R \<subseteq> block_free_bytes ?b" "block_free_bytes b' = block_free_bytes ?b - ?R" "p + c * PAGE_SIZE < 4294967296"
        using b'(4) False by auto
      have "block_free_bytes (global_blocks t ! j) \<inter> ?R = {}" if "j < num_global_blocks t" "j \<noteq> i" for j
      proof -
        have "block_range (global_blocks t ! j) \<inter> block_range ?b = {}" using inv that i by (simp add: pt_inv_def)
        then show ?thesis using R(1) block_free_in_range [of ?b] block_free_in_range [of "global_blocks t ! j"] by blast
      qed
      then have "block_free_bytes (global_blocks ?t ! j) = block_free_bytes (global_blocks t ! j) - ?R"
        if "j < num_global_blocks t" for j
        using nth [OF that] R(2) that by auto
      then have "table_free_bytes ?t = table_free_bytes t - ?R" by (simp add: table_free_bytes_def)
      moreover have "?R \<subseteq> table_free_bytes t" using R(1) i(1) by (auto simp: table_free_bytes_def)
      ultimately show ?thesis using False R(3) by blast
    qed
    ultimately show ?thesis using run by blast
  qed
qed

lemma page_alloc_spec:
  assumes "pt_inv t" "1 \<le> c"
  shows "\<exists>t' p. page_alloc t (c * PAGE_SIZE) flags = Some (t', p) \<and> pt_inv t' \<and>
           (p = 0 \<and> table_free_bytes t' = table_free_bytes t \<or>
            p \<noteq> 0 \<and> p + c * PAGE_SIZE < 4294967296 \<and> {p..<p + c * PAGE_SIZE} \<subseteq> table_free_bytes t \<and>
            table_free_bytes t' = table_free_bytes t - {p..<p + c * PAGE_SIZE})"
  unfolding page_alloc_def using page_alloc_from_spec [OF assms, of "[0..<num_global_blocks t]"] by simp

section \<open>Properties of the page allocator\<close>

text \<open>
  C13. The search of \<^verbatim>\<open>page_block_alloc\<close>, which steps over whole words of the bitmap when they are
  full and restarts one bit further when a run is too short, finds exactly the first run of \<open>c\<close>
  free pages of the block, and finds nothing only when there is none.
\<close>

theorem page_search_is_first_fit:
  assumes "1 \<le> c"
  shows "page_search b c 0 = map_option (\<lambda>x. (x, x + c)) (find (run_free b c) [0..<pb_total_pages b])"
  using page_search_eq [OF assms] by (simp add: first_fit_def)

definition demo_block :: page_block where
  "demo_block = \<lparr>pb_flags = 0, pb_total_pages = 6, pb_free_pages = 4, pb_base = 8192, pb_bitmap_size = 16,
     pb_bitmap = [9], pb_refcount = [1, 0, 0, 1, 0, 0]\<rparr>"

lemma demo_total [simp]: "pb_total_pages demo_block = 6" "pb_base demo_block = 8192"
  by (simp_all add: demo_block_def)

lemma demo_block_bits: "page_bit demo_block i \<longleftrightarrow> i = 0 \<or> i = 3" if "i < 16"
proof -
  have "page_bit demo_block i \<longleftrightarrow> bit (9 :: u16) i" using that by (simp add: page_bit_iff demo_block_def)
  moreover have "bit (9 :: u16) i \<longleftrightarrow> i \<in> {0, 3}" using that
    by (simp add: less_Suc_eq numeral_eq_Suc bit_simps) auto
  ultimately show ?thesis using that by simp
qed

theorem page_search_is_first_fit_witness:
  "page_search demo_block 2 0 = map_option (\<lambda>x. (x, x + 2)) (find (run_free demo_block 2) [0..<6])"
  using page_search_is_first_fit [of 2 demo_block] by (simp add: demo_block_def)

lemma demo_block_inv: "pb_inv demo_block"
proof -
  have "pb_free_set demo_block = {i. i < 6 \<and> i \<noteq> 0 \<and> i \<noteq> 3}"
    using demo_block_bits by (auto simp: pb_free_set_def)
  also have "\<dots> = {1, 2, 4, 5}" by (rule set_eqI) (simp, presburger)
  finally have fs: "pb_free_set demo_block = {1, 2, 4, 5}" .
  have "page_bit demo_block i \<longleftrightarrow> pb_refcount demo_block ! i \<noteq> 0" if "i < 6" for i
  proof -
    have "i = 0 \<or> i = 1 \<or> i = 2 \<or> i = 3 \<or> i = 4 \<or> i = 5" using that by linarith
    then show ?thesis using demo_block_bits [of i] by (elim disjE) (simp_all add: demo_block_def)
  qed
  then show ?thesis
    unfolding pb_inv_def pb_backed_def fs PAGE_SIZE_def demo_total by (auto simp: demo_block_def)
qed

text \<open>
  C7. Allocating whole pages keeps the invariant of the block (the free counter counts the clear
  bits, a bit is set exactly for referenced pages). Either a region of \<open>c\<close> pages that were all
  free is returned, and exactly these leave the free set, or no region fits, \<^verbatim>\<open>NULL\<close> is returned
  and the block is unchanged.
\<close>

theorem page_block_alloc_correct:
  assumes "pb_inv b" "1 \<le> c"
  shows "\<exists>b' p. page_block_alloc b (c * PAGE_SIZE) = Some (b', p) \<and> pb_inv b' \<and>
           (if \<exists>x. run_free b c x
            then \<exists>x. p = pb_base b + x * PAGE_SIZE \<and> p \<noteq> 0 \<and> {x..<x + c} \<subseteq> pb_free_set b \<and>
                   pb_free_set b' = pb_free_set b - {x..<x + c}
            else p = 0 \<and> b' = b)"
proof (cases "first_fit b c")
  case None
  have "\<not> run_free b c x" for x
  proof
    assume r: "run_free b c x"
    then have "x \<in> set [0..<pb_total_pages b]" using assms(2) by (simp add: run_free_def)
    then show False using r None by (auto simp: first_fit_def find_None_iff)
  qed
  then show ?thesis using page_block_alloc_none [of b "c * PAGE_SIZE"] None assms by simp
next
  case (Some x)
  obtain b' where b': "page_block_alloc b (c * PAGE_SIZE) = Some (b', page_addr b x)" "pb_inv b'"
      "{x..<x + c} \<subseteq> pb_free_set b" "pb_free_set b' = pb_free_set b - {x..<x + c}" "x + c \<le> pb_total_pages b"
    using page_block_alloc_spec [OF assms(1) _ assms(2) Some, of "c * PAGE_SIZE"] by auto
  have "x \<le> pb_total_pages b" using b'(5) by simp
  then have "page_addr b x = pb_base b + x * PAGE_SIZE" "page_addr b x \<noteq> 0"
    using page_addr_eq [OF assms(1)] by blast+
  then show ?thesis using b' first_fit_run [OF Some] by (intro exI [of _ b'] exI [of _ "page_addr b x"]) auto
qed

theorem page_block_alloc_correct_witness:
  "\<exists>b' p. page_block_alloc demo_block (2 * PAGE_SIZE) = Some (b', p) \<and> pb_inv b'"
  using page_block_alloc_correct [OF demo_block_inv, of 2] by auto

text \<open>
  C14. Regions allocated one after the other from a block never overlap, and none of them contains
  a page that was in use before.
\<close>

theorem page_allocs_disjoint:
  assumes "pb_inv b" "\<forall>c \<in> set cs. 1 \<le> c" "alloc_seq block_take b cs = Some (b', regions)"
  shows "disjoint_list regions \<and> \<Union> (set regions) \<subseteq> pb_free_set b \<and>
         pb_free_set b' = pb_free_set b - \<Union> (set regions) \<and> pb_inv b'"
  using page_region.alloc_seq_disjoint [OF assms] by simp

lemma demo_take: "\<exists>b'. block_take demo_block 2 = Some (b', 1)"
proof -
  have r: "\<not> run_free demo_block 2 0" "run_free demo_block 2 1"
    using demo_block_bits by (auto simp: run_free_def)
  then have fit: "first_fit demo_block 2 = Some 1"
    by (simp add: first_fit_def upt_rec)
  obtain b' where "page_block_alloc demo_block (2 * PAGE_SIZE) = Some (b', page_addr demo_block 1)"
    using page_block_alloc_spec [OF demo_block_inv _ _ fit, of "2 * PAGE_SIZE"] by auto
  then show ?thesis
    by (simp add: block_take_def)
      (simp add: demo_block_def page_addr_def page_number_def c_arith PAGE_SIZE_def)
qed

theorem page_allocs_disjoint_witness:
  "\<exists>b'. alloc_seq block_take demo_block [2] = Some (b', [{1..<3}]) \<and> disjoint_list [{1..<3 :: nat}] \<and>
     pb_free_set b' = pb_free_set demo_block - {1..<3}"
proof -
  obtain b' where b': "block_take demo_block 2 = Some (b', 1)" using demo_take by blast
  then have "alloc_seq block_take demo_block [2] = Some (b', [{1..<3}])"
    by (simp add: numeral_3_eq_3 numeral_2_eq_2)
  then show ?thesis using page_allocs_disjoint [OF demo_block_inv, of "[2]"] by fastforce
qed

text \<open>
  C15. Freeing a region right after it was allocated restores the block completely: the bitmap,
  the reference counts and the free counter.
\<close>

theorem page_block_free_undoes_alloc:
  assumes "pb_inv b" "1 \<le> c" "block_take b c = Some (b', x)"
  shows "page_block_free b' (pb_base b + x * PAGE_SIZE) (c * PAGE_SIZE) = Some b"
proof -
  have fit: "first_fit b c = Some x" "page_block_alloc b (c * PAGE_SIZE) = Some (b', page_addr b x)"
    using block_take_spec [OF assms] by simp_all
  have "x \<le> pb_total_pages b" using first_fit_run [OF fit(1)] by (simp add: run_free_def)
  then have "page_addr b x = pb_base b + x * PAGE_SIZE" using page_addr_eq [OF assms(1)] by blast
  then show ?thesis using page_block_free_alloc [OF assms(1) _ _ fit(2)] assms(2) fit(1) by simp
qed

theorem page_block_free_undoes_alloc_witness:
  "\<exists>b'. block_take demo_block 2 = Some (b', 1) \<and> page_block_free b' 12288 (2 * PAGE_SIZE) = Some demo_block"
proof -
  obtain b' where b': "block_take demo_block 2 = Some (b', 1)" using demo_take by blast
  then show ?thesis
    using page_block_free_undoes_alloc [OF demo_block_inv _ b'] by (simp add: demo_block_def PAGE_SIZE_def)
qed

section \<open>Where the counters and results go wrong\<close>

lemma scan_end_start: "c \<le> 1 \<Longrightarrow> scan_end b c s (s + 1) = s + 1"
  by (subst scan_end.simps) simp

lemma page_search_zero: "page_search b 0 s = page_search b 1 s"
proof (induction b "0 :: nat" s rule: page_search.induct)
  case (1 b s)
  then show ?case
    by (simp add: page_search.simps [of b 0 s] page_search.simps [of b "Suc 0" s] Let_def
        scan_end_start [simplified])
qed

text \<open>
  A request for less than a page is rounded down to no page: the search marks one page as
  allocated and returns it, but the free counter is not decremented, so the counter and the
  bitmap disagree from then on.
\<close>

theorem page_block_alloc_subpage_miscount:
  assumes inv: "pb_inv b" and nb: "nb < PAGE_SIZE" and some: "pb_free_set b \<noteq> {}"
  shows "\<exists>b' p. page_block_alloc b nb = Some (b', p) \<and> p \<noteq> 0 \<and> pb_free_pages b' = pb_free_pages b \<and>
           card (pb_free_set b') + 1 = card (pb_free_set b) \<and> \<not> pb_inv b'"
proof -
  obtain i where i: "i < pb_total_pages b" "run_free b 1 i"
    using some by (auto simp: pb_free_set_def run_free_def)
  then obtain x where fit: "first_fit b 1 = Some x"
    by (cases "first_fit b 1") (auto simp: first_fit_def find_None_iff)
  obtain b1 where b1: "page_block_alloc b (1 * PAGE_SIZE) = Some (b1, page_addr b x)"
      "{x..<x + 1} \<subseteq> pb_free_set b" "pb_free_set b1 = pb_free_set b - {x..<x + 1}" "x + 1 \<le> pb_total_pages b"
      "pb_free_pages b1 = pb_free_pages b - int 1"
    using page_block_alloc_spec [OF inv pages_of_mult _ fit] by auto
  define b' where "b' = b1\<lparr>pb_free_pages := pb_free_pages b\<rparr>"
  have fs: "pb_free_set b' = pb_free_set b - {x}" using b1(3) by (simp add: b'_def pb_free_set_def page_bit_def)
  have "pages_of nb = 0" using nb by (simp add: pages_of_def)
  then have alloc: "page_block_alloc b nb = Some (b', page_addr b x)"
    using b1(1,5) page_search_zero [of b 0] page_search_eq [of 1 b] fit
    by (auto simp: page_block_alloc_def Let_def b'_def mark_page_def page_addr_def
        pages_of_mult [of 1, simplified] split: if_splits)
  have x: "x \<in> pb_free_set b" using b1(2) by auto
  then have card: "card (pb_free_set b') + 1 = card (pb_free_set b)"
    unfolding fs using card.remove [OF finite_pb_free_set x] by simp
  have "\<not> pb_inv b'"
  proof
    assume "pb_inv b'"
    then have "pb_free_pages b' = int (card (pb_free_set b'))" by (simp add: pb_inv_def)
    then show False using card inv by (simp add: b'_def pb_inv_def)
  qed
  moreover have "x \<le> pb_total_pages b" using b1(4) by simp
  then have "page_addr b x \<noteq> 0" using page_addr_eq [OF inv] by blast
  moreover have "pb_free_pages b' = pb_free_pages b" by (simp add: b'_def)
  ultimately show ?thesis using alloc card by blast
qed

theorem page_block_alloc_subpage_miscount_witness:
  "\<exists>b' p. page_block_alloc demo_block 512 = Some (b', p) \<and> \<not> pb_inv b'"
proof -
  have "1 \<in> pb_free_set demo_block" using demo_block_bits [of 1] by (simp add: pb_free_set_def)
  then show ?thesis
    using page_block_alloc_subpage_miscount [OF demo_block_inv, of 512] by (auto simp: PAGE_SIZE_def)
qed

text \<open>
  C34. \<^verbatim>\<open>init_page_block_with_bitmap\<close> clears \<^verbatim>\<open>bitmap_size\<close> bytes of a bitmap of \<^verbatim>\<open>bitmap_size\<close> 16 bit
  words: a bit that happens to be set in the second half of that memory stays set. The page
  is counted as free but can never be allocated.
\<close>

theorem init_page_block_leaves_garbage:
  assumes init: "init_page_block_with_bitmap nb addr bitmap bitmap_size refs flags = (b, err)"
    and "even bitmap_size" "i < pages_of nb" "bitmap_size div 2 \<le> i div 16" "i div 16 < length bitmap"
    and "bit (bitmap ! (i div 16)) (i mod 16)"
  shows "page_bit b i \<and> pb_free_pages b = int (pb_total_pages b) \<and> \<not> pb_inv b"
proof -
  have b: "pb_bitmap b = clear_bytes bitmap_size bitmap" "pb_total_pages b = pages_of nb"
      "pb_free_pages b = int (pages_of nb)"
    using init by (auto simp: init_page_block_with_bitmap_def Let_def)
  have half: "(bitmap_size + 1) div 2 = bitmap_size div 2" using assms(2) by presburger
  have "pb_bitmap b ! (i div 16) = bitmap ! (i div 16)"
    using assms(2,4,5) b(1) half by (simp add: clear_bytes_def nth_append)
  then have pb: "page_bit b i" using assms(6) by (simp add: page_bit_iff)
  then have "pb_free_set b \<subset> {..<pages_of nb}" using assms(3) b(2) by (auto simp: pb_free_set_def)
  then have "card (pb_free_set b) < pages_of nb"
    using psubset_card_mono [of "{..<pages_of nb}" "pb_free_set b"] by simp
  then show ?thesis using pb b by (simp add: pb_inv_def)
qed

theorem init_page_block_leaves_garbage_witness:
  "page_bit (fst (init_page_block_with_bitmap (32 * PAGE_SIZE) 4096 [0, 1] 2 (replicate 32 0) 0)) 16"
proof -
  let ?b = "init_page_block_with_bitmap (32 * PAGE_SIZE) 4096 [0, 1] 2 (replicate 32 0) 0"
  show ?thesis
    using init_page_block_leaves_garbage [of "32 * PAGE_SIZE" 4096 "[0, 1]" 2 "replicate 32 0" 0 "fst ?b" "snd ?b" 16]
    by simp
qed

text \<open>The global reference functions always return 0.\<close>

lemma page_make_ref_null: "page_make_ref t ptr nb = Some (t', p) \<Longrightarrow> p = 0"
proof -
  have "page_make_ref_from t ptr nb is = Some (t', p) \<Longrightarrow> p = 0" for "is"
    by (induction "is" arbitrary: t) (auto split: if_splits Option.bind_splits)
  then show "page_make_ref t ptr nb = Some (t', p) \<Longrightarrow> p = 0" by (simp add: page_make_ref_def)
qed

lemma page_get_ref_single_zero: "page_get_ref_single t ptr = Some r \<Longrightarrow> r = 0"
proof -
  have "page_get_ref_from t ptr is = Some r \<Longrightarrow> r = 0" for "is"
    by (induction "is") (auto split: if_splits Option.bind_splits)
  then show "page_get_ref_single t ptr = Some r \<Longrightarrow> r = 0" by (simp add: page_get_ref_single_def)
qed

text \<open>A request for exactly the number of free pages is refused by the global function.\<close>

lemma page_alloc_last_pages:
  assumes "num_global_blocks t = 1" "global_blocks t = b # bs" "pb_free_pages b = int (pages_of nb)"
  shows "page_alloc t nb flags = Some (t, 0)"
  using assms by (simp add: page_alloc_def block_matches_def)

end
