(* ===== verification/Kmalloc.thy ===== *)
theory Kmalloc
  imports Pages "HOL-Library.Monad_Syntax"
begin

text \<open>
  The kernel heap of \<^verbatim>\<open>src/kernel/mm/kmalloc.c\<close> (without \<^verbatim>\<open>CONFIG_KMALLOC_PRIVATE\<close>): a first fit
  allocator over a free list that is sorted by address and coalesced when blocks are freed, and
  that takes whole pages from the page allocator when it runs out.

  An address is a \<^typ>\<open>nat\<close>, \<^verbatim>\<open>NULL\<close> is 0, and the block headers are a function from addresses to
  headers: the headers of blocks that do not overlap do not overlap either. The loops over the free
  list follow pointers and need not end, so they are partial functions in the option type: \<open>None\<close> is a
  loop that does not end, or a page operation that is out of bounds. \<^verbatim>\<open>panic\<close> halts the kernel and is
  the value \<open>Halt\<close>.

  The invariant \<open>heap_inv h fl al\<close> says that the free list holds the blocks \<open>fl\<close> in ascending
  order, no two of them adjacent, that \<open>al\<close> are the blocks handed out, and that none of all these
  blocks overlap. The lemmas show that \<^verbatim>\<open>kmalloc\<close> and \<^verbatim>\<open>kmfree\<close> keep it and what they do to the two
  lists, so that a block handed out never overlaps another one.
\<close>

section \<open>The data\<close>

record kblock =
  kb_size :: nat
  kb_next :: nat

record kheap =
  kh_free_blocks :: nat
  kh_total_pages :: nat
  kh_bytes_free :: nat
  kh_bytes_allocated :: nat
  kh_blocks :: "nat \<Rightarrow> kblock"
  kh_pages :: page_table

datatype 'a outcome = Halt | Ret 'a

definition PAGE_F_SUPERVISOR :: u32 where "PAGE_F_SUPERVISOR = 16384"

definition sizeof_block :: nat where "sizeof_block = 8"

definition align_up_size :: "nat \<Rightarrow> nat \<Rightarrow> nat" where
  "align_up_size v s = unat (align_up (word_of_nat v) (word_of_nat s))"

definition set_kb_size :: "nat \<Rightarrow> nat \<Rightarrow> kheap \<Rightarrow> kheap" where
  "set_kb_size a s h = h\<lparr>kh_blocks := (kh_blocks h)(a := (kh_blocks h a)\<lparr>kb_size := s\<rparr>)\<rparr>"

definition set_kb_next :: "nat \<Rightarrow> nat \<Rightarrow> kheap \<Rightarrow> kheap" where
  "set_kb_next a n h = h\<lparr>kh_blocks := (kh_blocks h)(a := (kh_blocks h a)\<lparr>kb_next := n\<rparr>)\<rparr>"

definition blk_size :: "kheap \<Rightarrow> nat \<Rightarrow> nat" where "blk_size h a = kb_size (kh_blocks h a)"
definition blk_next :: "kheap \<Rightarrow> nat \<Rightarrow> nat" where "blk_next h a = kb_next (kh_blocks h a)"

text \<open>The store into \<^verbatim>\<open>prev->next\<close>, or into the list head when there is no predecessor.\<close>

definition link_after :: "nat \<Rightarrow> nat \<Rightarrow> kheap \<Rightarrow> kheap" where
  "link_after prev n h = (if prev \<noteq> 0 then set_kb_next prev n h else h\<lparr>kh_free_blocks := n\<rparr>)"

definition init_kernel_heap :: "kheap \<Rightarrow> kheap" where
  "init_kernel_heap h =
     h\<lparr>kh_free_blocks := 0, kh_total_pages := 0, kh_bytes_free := 0, kh_bytes_allocated := 0\<rparr>"

section \<open>Freeing\<close>

text \<open>
  The loop of \<^verbatim>\<open>kmfree\<close>. It ends in a state of the heap, in a panic, or at the end of the list with the
  last block in \<open>prev\<close>.
\<close>

definition kmfree_merge :: "kheap \<Rightarrow> nat \<Rightarrow> nat \<Rightarrow> kheap" where
  "kmfree_merge h block cur =
     (let h1 = set_kb_size cur (add32 (blk_size h cur) (blk_size h block)) h
      in if add32 cur (blk_size h1 cur) = blk_next h1 cur
         then let nx = blk_next h1 cur;
                  h2 = set_kb_size cur (add32 (blk_size h1 cur) (blk_size h1 nx)) h1
              in set_kb_next cur (blk_next h2 (blk_next h2 cur)) h2
         else h1)"

definition kmfree_insert :: "kheap \<Rightarrow> nat \<Rightarrow> nat \<Rightarrow> nat \<Rightarrow> kheap" where
  "kmfree_insert h block prev cur =
     (let h2 = set_kb_next block cur (link_after prev block h)
      in if add32 block (blk_size h2 block) = cur
         then let h3 = set_kb_size block (add32 (blk_size h2 block) (blk_size h2 cur)) h2
              in set_kb_next block (blk_next h3 cur) h3
         else h2)"

definition kmfree_append :: "kheap \<Rightarrow> nat \<Rightarrow> nat \<Rightarrow> kheap outcome" where
  "kmfree_append h block prev =
     (let h1 = set_kb_next block 0 h
      in if prev \<noteq> 0 then Ret (set_kb_next prev block h1)
         else if kh_free_blocks h1 = 0 then Ret (h1\<lparr>kh_free_blocks := block\<rparr>)
         else Halt)"

partial_function (option) kmfree_loop :: "kheap \<Rightarrow> nat \<Rightarrow> nat \<Rightarrow> nat \<Rightarrow> kheap outcome option" where
  "kmfree_loop h block prev cur =
     (if cur = 0 then Some (kmfree_append h block prev)
      else if blk_next h cur = block then Some Halt
      else if add32 cur (blk_size h cur) = block then Some (Ret (kmfree_merge h block cur))
      else if cur \<ge> block then Some (Ret (kmfree_insert h block prev cur))
      else kmfree_loop h block cur (blk_next h cur))"

definition kmfree :: "kheap \<Rightarrow> nat \<Rightarrow> kheap outcome option" where
  "kmfree h ptr =
     (let block = sub32 ptr sizeof_block
      in if blk_next h block \<noteq> 0 then Some Halt
         else let h1 = h\<lparr>kh_bytes_free := add32 (kh_bytes_free h) (blk_size h block),
                         kh_bytes_allocated := sub32 (kh_bytes_allocated h) (blk_size h block)\<rparr>
              in kmfree_loop h1 block 0 (kh_free_blocks h1))"

section \<open>Allocating\<close>

text \<open>The search for the first block that is big enough, with its predecessor.\<close>

partial_function (option) kmalloc_search :: "kheap \<Rightarrow> nat \<Rightarrow> nat \<Rightarrow> nat \<Rightarrow> (nat \<times> nat) option option" where
  "kmalloc_search h block_size prev cur =
     (if cur = 0 then Some None
      else if blk_size h cur \<ge> block_size then Some (Some (prev, cur))
      else kmalloc_search h block_size cur (blk_next h cur))"

definition kmalloc_take :: "kheap \<Rightarrow> nat \<Rightarrow> nat \<Rightarrow> nat \<Rightarrow> kheap \<times> nat" where
  "kmalloc_take h block_size prev cur =
     (let (h1, nextfree) =
        (if blk_size h cur \<ge> add32 (add32 block_size sizeof_block) 8 then
           let nf = add32 cur block_size;
               h1 = set_kb_size nf (sub32 (blk_size h cur) block_size) h;
               h2 = set_kb_size cur block_size h1
           in (set_kb_next nf (blk_next h2 cur) h2, nf)
         else (h, blk_next h cur));
          h3 = link_after prev nextfree (set_kb_next cur 0 h1);
          h4 = h3\<lparr>kh_bytes_free := sub32 (kh_bytes_free h3) (blk_size h3 cur),
                 kh_bytes_allocated := add32 (kh_bytes_allocated h3) (blk_size h3 cur)\<rparr>
      in (h4, add32 cur sizeof_block))"

definition kmalloc_grow :: "kheap \<Rightarrow> nat \<Rightarrow> (kheap \<times> nat) outcome option" where
  "kmalloc_grow h block_size =
     (let page_size = align_up_size block_size PAGE_SIZE
      in do {
        (t, cur) \<leftarrow> page_alloc (kh_pages h) page_size PAGE_F_SUPERVISOR;
        let h0 = h\<lparr>kh_pages := t\<rparr>;
        if cur = 0 then Some Halt
        else
          let h1 = set_kb_next cur 0 (set_kb_size cur page_size h0);
              h2 = h1\<lparr>kh_total_pages := add32 (kh_total_pages h1) page_size,
                     kh_bytes_allocated := add32 (kh_bytes_allocated h1) page_size\<rparr>
          in if sub32 page_size block_size > sizeof_block + 8 then
               let nf = add32 cur block_size;
                   h3 = set_kb_next nf 0 (set_kb_size nf (sub32 page_size block_size) (set_kb_size cur block_size h2))
               in do {
                 r \<leftarrow> kmfree h3 (add32 nf sizeof_block);
                 Some (case r of Halt \<Rightarrow> Halt | Ret h4 \<Rightarrow> Ret (h4, add32 cur sizeof_block))
               }
             else Some (Ret (h2, add32 cur sizeof_block))
      })"

definition kmalloc :: "kheap \<Rightarrow> nat \<Rightarrow> (kheap \<times> nat) outcome option" where
  "kmalloc h nb =
     (let block_size = add32 (align_up_size nb 4) sizeof_block
      in do {
        found \<leftarrow> kmalloc_search h block_size 0 (kh_free_blocks h);
        case found of
          Some (prev, cur) \<Rightarrow> Some (Ret (kmalloc_take h block_size prev cur))
        | None \<Rightarrow> kmalloc_grow h block_size
      })"

section \<open>Compaction\<close>

partial_function (option) kernel_heap_compact_loop :: "kheap \<Rightarrow> nat \<Rightarrow> nat \<Rightarrow> kheap option" where
  "kernel_heap_compact_loop h prev cur =
     (if cur = 0 then Some h
      else if cur mod PAGE_SIZE = 0 \<and> blk_size h cur mod PAGE_SIZE = 0 then
        let h1 = link_after prev (blk_next h cur) h
        in do {
          t \<leftarrow> page_free (kh_pages h1) cur (blk_size h1 cur div PAGE_SIZE);
          let h2 = h1\<lparr>kh_pages := t, kh_bytes_free := sub32 (kh_bytes_free h1) (blk_size h1 cur),
                     kh_total_pages := sub32 (kh_total_pages h1) (blk_size h1 cur)\<rparr>;
          kernel_heap_compact_loop h2 cur (blk_next h2 cur)
        }
      else kernel_heap_compact_loop h cur (blk_next h cur))"

definition kernel_heap_compact :: "kheap \<Rightarrow> kheap option" where
  "kernel_heap_compact h = kernel_heap_compact_loop h 0 (kh_free_blocks h)"

section \<open>The free list as a list of blocks\<close>

type_synonym region = "nat \<times> nat"

fun cseg :: "kheap \<Rightarrow> nat \<Rightarrow> region list \<Rightarrow> nat \<Rightarrow> bool" where
  "cseg h p [] q \<longleftrightarrow> p = q"
| "cseg h p ((a, s) # fl) q \<longleftrightarrow> p = a \<and> a \<noteq> 0 \<and> blk_size h a = s \<and> cseg h (blk_next h a) fl q"

definition free_chain :: "kheap \<Rightarrow> region list \<Rightarrow> bool" where
  "free_chain h fl \<longleftrightarrow> cseg h (kh_free_blocks h) fl 0"

definition prev_of :: "region list \<Rightarrow> nat" where
  "prev_of fl = (if fl = [] then 0 else fst (last fl))"

definition head_of :: "region list \<Rightarrow> nat" where
  "head_of fl = (case fl of [] \<Rightarrow> 0 | (a, _) # _ \<Rightarrow> a)"

lemma cseg_append: "cseg h p (xs @ ys) q \<longleftrightarrow> (\<exists>r. cseg h p xs r \<and> cseg h r ys q)"
  by (induction xs arbitrary: p) auto

lemma cseg_cong:
  "(\<And>a. a \<in> fst ` set xs \<Longrightarrow> kh_blocks h' a = kh_blocks h a) \<Longrightarrow> cseg h' p xs q = cseg h p xs q"
proof (induction xs arbitrary: p)
  case Nil
  then show ?case by simp
next
  case (Cons x xs)
  obtain a s where x: "x = (a, s)" by fastforce
  have "kh_blocks h' a = kh_blocks h a" using Cons.prems x by simp
  then show ?case using Cons x by (simp add: blk_size_def blk_next_def)
qed

lemma cseg_head: "cseg h p fl 0 \<Longrightarrow> p = head_of fl"
  by (cases fl) (auto simp: head_of_def)

lemma blk_simps [simp]:
  "blk_size (set_kb_size a v h) x = (if x = a then v else blk_size h x)"
  "blk_next (set_kb_size a v h) x = blk_next h x"
  "blk_size (set_kb_next a v h) x = blk_size h x"
  "blk_next (set_kb_next a v h) x = (if x = a then v else blk_next h x)"
  "kh_free_blocks (set_kb_size a v h) = kh_free_blocks h"
  "kh_free_blocks (set_kb_next a v h) = kh_free_blocks h"
  "blk_size (h\<lparr>kh_free_blocks := v\<rparr>) x = blk_size h x"
  "blk_next (h\<lparr>kh_free_blocks := v\<rparr>) x = blk_next h x"
  by (simp_all add: blk_size_def blk_next_def set_kb_size_def set_kb_next_def)

lemma kh_blocks_other [simp]:
  "x \<noteq> a \<Longrightarrow> kh_blocks (set_kb_size a v h) x = kh_blocks h x"
  "x \<noteq> a \<Longrightarrow> kh_blocks (set_kb_next a v h) x = kh_blocks h x"
  by (simp_all add: set_kb_size_def set_kb_next_def)

text \<open>The fields of the heap other than the list head and the block headers.\<close>

definition kh_rest :: "kheap \<Rightarrow> nat \<times> nat \<times> nat \<times> page_table" where
  "kh_rest h = (kh_total_pages h, kh_bytes_free h, kh_bytes_allocated h, kh_pages h)"

lemma kh_rest_simps [simp]:
  "kh_rest (set_kb_size a v h) = kh_rest h" "kh_rest (set_kb_next a v h) = kh_rest h"
  "kh_rest (h\<lparr>kh_free_blocks := v\<rparr>) = kh_rest h" "kh_rest (link_after q v h) = kh_rest h"
  by (simp_all add: kh_rest_def set_kb_size_def set_kb_next_def link_after_def)

lemma link_after_other [simp]: "x \<noteq> prev \<Longrightarrow> kh_blocks (link_after prev n h) x = kh_blocks h x"
  by (simp add: link_after_def)

lemma blk_link [simp]:
  "blk_size (link_after prev n h) x = blk_size h x"
  "prev \<noteq> x \<Longrightarrow> blk_next (link_after prev n h) x = blk_next h x"
  by (auto simp: link_after_def)

text \<open>Changing the pointer behind a prefix of the free list.\<close>

lemma free_chain_relink:
  assumes "free_chain h (pre @ fl)" "distinct (map fst pre)" "prev = prev_of pre"
    and same: "\<And>a. a \<in> fst ` set pre \<Longrightarrow> kh_blocks h' a = kh_blocks (link_after prev n h) a"
    and head: "kh_free_blocks h' = kh_free_blocks (link_after prev n h)"
    and rest: "cseg h' n ys 0"
  shows "free_chain h' (pre @ ys)"
proof (cases pre rule: rev_cases)
  case Nil
  then show ?thesis using assms(3) head rest by (simp add: free_chain_def prev_of_def link_after_def)
next
  case (snoc zs z)
  obtain b t where z: "z = (b, t)" by fastforce
  have prev: "prev = b" using assms(3) snoc z by (simp add: prev_of_def)
  obtain r where r: "cseg h (kh_free_blocks h) zs r" "cseg h r [(b, t)] (head_of fl)" "b \<noteq> 0"
    using assms(1) snoc z by (auto simp: free_chain_def cseg_append dest: cseg_head)
  have nb: "b \<notin> fst ` set zs" using assms(2) snoc z by auto
  have "kh_blocks h' a = kh_blocks h a" if "a \<in> fst ` set zs" for a
  proof -
    have "a \<noteq> b" using that nb by auto
    moreover have "a \<in> fst ` set pre" using that snoc by auto
    ultimately show ?thesis using same prev by simp
  qed
  then have "cseg h' (kh_free_blocks h) zs r" using r(1) cseg_cong [of zs h' h] by simp
  moreover have "kh_free_blocks h' = kh_free_blocks h" using head prev r(3) by (simp add: link_after_def)
  moreover have "kh_blocks h' b = (kh_blocks h b)\<lparr>kb_next := n\<rparr>"
    using same [of b] snoc z prev r(3) by (simp add: link_after_def set_kb_next_def)
  ultimately show ?thesis
    using snoc z r rest by (auto simp: free_chain_def cseg_append blk_size_def blk_next_def)
qed

section \<open>What the operations do to the free list\<close>

fun free_insert :: "region \<Rightarrow> region list \<Rightarrow> region list" where
  "free_insert (a, s) [] = [(a, s)]"
| "free_insert (a, s) ((b, t) # fl) =
     (if b + t = a then
        (case fl of
           (c, u) # fl' \<Rightarrow> if b + (t + s) = c then (b, t + s + u) # fl' else (b, t + s) # fl
         | [] \<Rightarrow> [(b, t + s)])
      else if b \<ge> a then (if a + s = b then (a, s + t) # fl else (a, s) # (b, t) # fl)
      else (b, t) # free_insert (a, s) fl)"

fun free_take :: "nat \<Rightarrow> region list \<Rightarrow> (region \<times> region list) option" where
  "free_take bs [] = None"
| "free_take bs ((b, t) # fl) =
     (if t \<ge> bs then Some (if t \<ge> bs + 16 then ((b, bs), (b + bs, t - bs) # fl) else ((b, t), fl))
      else map_option (\<lambda>(x, fl'). (x, (b, t) # fl')) (free_take bs fl))"

definition region_ok :: "region \<Rightarrow> bool" where
  "region_ok x \<longleftrightarrow> 0 < fst x \<and> 8 \<le> snd x \<and> fst x + snd x < 4294967296"

definition apart :: "region \<Rightarrow> region \<Rightarrow> bool" where
  "apart x y \<longleftrightarrow> fst x + snd x \<le> fst y \<or> fst y + snd y \<le> fst x"

definition spaced :: "region list \<Rightarrow> bool" where
  "spaced fl \<longleftrightarrow> sorted_wrt (\<lambda>x y. fst x + snd x < fst y) fl \<and> (\<forall>x \<in> set fl. region_ok x)"

lemma spaced_Cons: "spaced (x # fl) \<longleftrightarrow> region_ok x \<and> (\<forall>y \<in> set fl. fst x + snd x < fst y) \<and> spaced fl"
  by (auto simp: spaced_def)

lemma spaced_append:
  "spaced (xs @ ys) \<longleftrightarrow> spaced xs \<and> spaced ys \<and> (\<forall>x \<in> set xs. \<forall>y \<in> set ys. fst x + snd x < fst y)"
  by (auto simp: spaced_def sorted_wrt_append)

lemma spaced_distinct: "spaced fl \<Longrightarrow> distinct (map fst fl)"
proof (induction fl)
  case (Cons x fl)
  then have "fst x \<noteq> fst y" if "y \<in> set fl" for y using that by (auto simp: spaced_Cons)
  then show ?case using Cons by (auto simp: spaced_Cons)
qed simp

lemma spaced_ok: "spaced fl \<Longrightarrow> (a, s) \<in> set fl \<Longrightarrow> 0 < a \<and> 8 \<le> s \<and> a + s < 4294967296"
  by (fastforce simp: spaced_def region_ok_def)

lemma spaced_nonzero: "spaced fl \<Longrightarrow> 0 \<notin> fst ` set fl"
  using spaced_ok by fastforce

lemma apart_not_in: "spaced fl \<Longrightarrow> \<forall>x \<in> set fl. apart (a, s) x \<Longrightarrow> 8 \<le> s \<Longrightarrow> a \<notin> fst ` set fl"
  using spaced_ok by (fastforce simp: apart_def)

lemma apart_fst: "apart x y \<Longrightarrow> region_ok x \<Longrightarrow> region_ok y \<Longrightarrow> fst x \<noteq> fst y"
  by (auto simp: apart_def region_ok_def)

section \<open>Freeing refines the insertion into the list\<close>

lemma kmfree_append_refines:
  assumes chain: "free_chain h pre" and dist: "distinct (map fst pre)"
    and a: "a \<noteq> 0" "a \<notin> fst ` set pre" "blk_size h a = s"
  shows "\<exists>h'. kmfree_append h a (prev_of pre) = Ret h' \<and> free_chain h' (pre @ [(a, s)]) \<and>
           (\<forall>x. x \<notin> insert a (fst ` set pre) \<longrightarrow> kh_blocks h' x = kh_blocks h x) \<and> kh_rest h' = kh_rest h"
proof -
  let ?h1 = "set_kb_next a 0 h" and ?prev = "prev_of pre"
  let ?h' = "link_after ?prev a ?h1"
  have na: "?prev \<noteq> a" using a(1,2) by (cases pre rule: rev_cases) (auto simp: prev_of_def)
  have empty: "kh_free_blocks h = 0" if "?prev = 0"
  proof -
    have "pre = []" using that chain by (cases pre rule: rev_cases) (auto simp: prev_of_def free_chain_def cseg_append)
    then show ?thesis using chain by (simp add: free_chain_def)
  qed
  then have ret: "kmfree_append h a ?prev = Ret ?h'"
    by (auto simp: kmfree_append_def Let_def link_after_def)
  have "free_chain ?h' (pre @ [(a, s)])"
  proof (rule free_chain_relink [of h pre "[]" ?prev ?h' a])
    show "free_chain h (pre @ [])" using chain by simp
    show "kh_free_blocks ?h' = kh_free_blocks (link_after ?prev a h)" by (simp add: link_after_def)
    show "cseg ?h' a [(a, s)] 0" using a na by simp
    show "kh_blocks ?h' x = kh_blocks (link_after ?prev a h) x" if "x \<in> fst ` set pre" for x
    proof -
      have "x \<noteq> a" using that a(2) by auto
      then show ?thesis by (simp add: link_after_def set_kb_next_def)
    qed
  qed (use dist in simp_all)
  moreover have "kh_blocks ?h' x = kh_blocks h x" if "x \<notin> insert a (fst ` set pre)" for x
  proof -
    have "x \<noteq> a" "pre \<noteq> [] \<Longrightarrow> x \<noteq> ?prev"
      using that by (cases pre rule: rev_cases; auto simp: prev_of_def)+
    then show ?thesis by (cases "pre = []") (simp_all add: link_after_def prev_of_def)
  qed
  ultimately show ?thesis using ret by auto
qed

lemma kmfree_merge_refines:
  assumes chain: "free_chain h (pre @ (b, t) # fl)" and sp: "spaced (pre @ (b, t) # fl)"
    and a: "b + t = a" "blk_size h a = s" "a + s < 4294967296" "a \<notin> fst ` set (pre @ (b, t) # fl)"
    and h': "h' = kmfree_merge h a b"
  shows "free_chain h' (pre @ free_insert (a, s) ((b, t) # fl)) \<and>
         (\<forall>x. x \<notin> fst ` set (pre @ (b, t) # fl) \<longrightarrow> kh_blocks h' x = kh_blocks h x) \<and> kh_rest h' = kh_rest h"
proof -
  have c: "cseg h (kh_free_blocks h) pre b" "blk_size h b = t" "cseg h (blk_next h b) fl 0" "b \<noteq> 0"
    using chain by (auto simp: free_chain_def cseg_append)
  have nx: "blk_next h b = head_of fl" using c(3) by (rule cseg_head)
  have dist: "b \<notin> fst ` set pre" "b \<notin> fst ` set fl" using spaced_distinct [OF sp] by auto
  have ts: "add32 t s = t + s" "add32 b (t + s) = b + (t + s)" using a by (simp_all add: add32_id)
  let ?h1 = "set_kb_size b (t + s) h"
  have pre_same: "cseg g (kh_free_blocks h) pre b" if "\<And>x. x \<noteq> b \<Longrightarrow> kh_blocks g x = kh_blocks h x" for g
  proof -
    have "kh_blocks g x = kh_blocks h x" if "x \<in> fst ` set pre" for x using that dist(1) \<open>\<And>x. x \<noteq> b \<Longrightarrow> _\<close> by metis
    then show ?thesis using c(1) cseg_cong [of pre g h] by simp
  qed
  have fl_same: "cseg g p ys 0 = cseg h p ys 0" if "\<And>x. x \<noteq> b \<Longrightarrow> kh_blocks g x = kh_blocks h x" "set ys \<subseteq> set fl" for g p ys
    using that dist(2) by (intro cseg_cong) (metis image_mono subsetD)
  have ad: "a \<noteq> b" using a(4) by auto
  have unf: "h' = (if b + (t + s) = head_of fl
      then set_kb_next b (blk_next h (head_of fl)) (set_kb_size b (add32 (t + s) (blk_size ?h1 (head_of fl))) ?h1) else ?h1)"
    unfolding h' kmfree_merge_def Let_def c(2) a(2) ts(1) by (simp add: ts(2) nx)
  show ?thesis
  proof (cases "b + (t + s) = head_of fl")
    case False
    then have h1: "h' = ?h1" using unf by simp
    have "cseg h' (blk_next h b) fl 0" using c(3) fl_same [of h' fl] h1 by simp
    moreover have "cseg h' (kh_free_blocks h) pre b" using pre_same [of h'] h1 by simp
    ultimately have "free_chain h' (pre @ (b, t + s) # fl)"
      using c(4) h1 by (auto simp: free_chain_def cseg_append)
    moreover have "free_insert (a, s) ((b, t) # fl) = (b, t + s) # fl"
      using False a(1) by (auto simp: head_of_def split: list.splits)
    ultimately show ?thesis using h1 by auto
  next
    case True
    have "head_of fl \<noteq> 0" using True c(4) by auto
    then obtain d u fl' where fl: "fl = (d, u) # fl'" "d = b + (t + s)"
      using True by (cases fl) (auto simp: head_of_def)
    have u: "blk_size h d = u" "cseg h (blk_next h d) fl' 0" "d \<noteq> b" "d \<noteq> 0" "d + u < 4294967296"
      using c(3) fl dist sp by (auto simp: spaced_append spaced_Cons region_ok_def)
    have h2: "h' = set_kb_next b (blk_next h d) (set_kb_size b (t + s + u) ?h1)"
    proof -
      have "blk_size ?h1 d = u" using u(1,3) by simp
      moreover have "add32 (t + s) u = t + s + u" using u(5) fl(2) by (intro add32_id) linarith
      moreover have "head_of fl = d" by (simp add: fl(1) head_of_def)
      ultimately show ?thesis using unf by (simp only: fl(2) [symmetric] if_True simp_thms)
    qed
    have "set fl' \<subseteq> set fl" using fl(1) by auto
    then have "cseg h' (blk_next h d) fl' 0" using u(2) fl_same [of h' fl'] h2 by simp
    moreover have "cseg h' (kh_free_blocks h) pre b" using pre_same [of h'] h2 by simp
    ultimately have "free_chain h' (pre @ (b, t + s + u) # fl')"
      using c(4) h2 by (auto simp: free_chain_def cseg_append)
    moreover have "free_insert (a, s) ((b, t) # fl) = (b, t + s + u) # fl'"
      using a(1) fl by simp
    ultimately show ?thesis using h2 by auto
  qed
qed

lemma kmfree_insert_refines:
  assumes chain: "free_chain h (pre @ (b, t) # fl)" and sp: "spaced (pre @ (b, t) # fl)"
    and a: "a + s \<le> b" "a \<noteq> 0" "blk_size h a = s" "a \<notin> fst ` set (pre @ (b, t) # fl)"
      "b + t \<noteq> a" "a \<le> b"
    and h': "h' = kmfree_insert h a (prev_of pre) b"
  shows "free_chain h' (pre @ free_insert (a, s) ((b, t) # fl)) \<and>
         (\<forall>x. x \<notin> insert a (fst ` set (pre @ (b, t) # fl)) \<longrightarrow> kh_blocks h' x = kh_blocks h x) \<and> kh_rest h' = kh_rest h"
proof -
  let ?prev = "prev_of pre"
  let ?h2 = "set_kb_next a b (link_after ?prev a h)"
  have c: "cseg h b ((b, t) # fl) 0" using chain by (auto simp: free_chain_def cseg_append)
  have dist: "distinct (map fst pre)" "b \<notin> fst ` set fl"
    using spaced_distinct [OF sp] by auto
  have bt: "b + t < 4294967296" using sp by (simp add: spaced_append spaced_Cons region_ok_def)
  have prev: "?prev \<notin> insert a (fst ` set ((b, t) # fl))"
  proof (cases pre rule: rev_cases)
    case Nil
    have "0 \<notin> fst ` set ((b, t) # fl)" using spaced_nonzero [OF sp] by (auto simp: image_Un)
    then show ?thesis using Nil a(2) by (simp add: prev_of_def)
  next
    case (snoc zs z)
    then show ?thesis using spaced_distinct [OF sp] a(4) by (auto simp: prev_of_def)
  qed
  have ab: "a \<noteq> b" "a \<notin> fst ` set pre" "a \<notin> fst ` set fl" using a(4) by auto
  have pre_head: "kh_blocks g x = kh_blocks (link_after ?prev a h) x"
    if "\<And>y. y \<noteq> a \<Longrightarrow> kh_blocks g y = kh_blocks (link_after ?prev a h) y" "x \<in> fst ` set pre" for g x
    using that ab(2) by metis
  have tail: "cseg g (blk_next h b) fl 0"
    if "\<And>y. y \<noteq> a \<Longrightarrow> kh_blocks g y = kh_blocks (link_after ?prev a h) y" for g
  proof -
    have "kh_blocks g x = kh_blocks h x" if "x \<in> fst ` set fl" for x
      using that ab(3) prev \<open>\<And>y. y \<noteq> a \<Longrightarrow> _ y = _ y\<close> by (metis insertCI image_insert list.simps(15) link_after_other)
    then show ?thesis using c cseg_cong [of fl g h] by simp
  qed
  have other: "kh_blocks (link_after ?prev a h) x = kh_blocks h x" if "x \<notin> fst ` set pre" for x
    using that by (cases pre rule: rev_cases) (auto simp: link_after_def prev_of_def)
  have size2: "blk_size ?h2 a = s" "blk_size ?h2 b = t" "blk_next ?h2 b = blk_next h b"
    using a(3) c ab prev by simp_all
  show ?thesis
  proof (cases "a + s = b")
    case False
    have "add32 a s \<noteq> b" using False a(1) bt by (simp add: add32_id)
    then have h2: "h' = ?h2" unfolding h' kmfree_insert_def Let_def size2(1) by simp
    have "cseg h' a ((a, s) # (b, t) # fl) 0"
      using tail [of h'] h2 a(2) size2 c ab by simp
    moreover have "kh_blocks h' y = kh_blocks (link_after ?prev a h) y" if "y \<noteq> a" for y
      using that by (simp add: h2)
    moreover have "kh_free_blocks h' = kh_free_blocks (link_after ?prev a h)" by (simp add: h2)
    ultimately have "free_chain h' (pre @ (a, s) # (b, t) # fl)"
      using free_chain_relink [OF chain dist(1) refl pre_head] by blast
    moreover have "free_insert (a, s) ((b, t) # fl) = (a, s) # (b, t) # fl" using False a(5,6) by simp
    moreover have "kh_blocks h' x = kh_blocks h x" if "x \<notin> insert a (fst ` set (pre @ (b, t) # fl))" for x
      using that other [of x] h2 by auto
    ultimately show ?thesis using h2 by auto
  next
    case True
    have e: "add32 a s = b" "add32 s t = s + t" using True bt by (simp_all add: add32_id)
    have h3: "h' = set_kb_next a (blk_next h b) (set_kb_size a (s + t) ?h2)"
      unfolding h' kmfree_insert_def Let_def size2 e if_True using size2(3) ab(1) by simp
    have "cseg h' a ((a, s + t) # fl) 0"
      using tail [of h'] h3 a(2) by simp
    moreover have "kh_blocks h' y = kh_blocks (link_after ?prev a h) y" if "y \<noteq> a" for y
      using that by (simp add: h3)
    moreover have "kh_free_blocks h' = kh_free_blocks (link_after ?prev a h)" by (simp add: h3)
    ultimately have "free_chain h' (pre @ (a, s + t) # fl)"
      using free_chain_relink [OF chain dist(1) refl pre_head] by blast
    moreover have "free_insert (a, s) ((b, t) # fl) = (a, s + t) # fl" using True a(5,6) by simp
    moreover have "kh_blocks h' x = kh_blocks h x" if "x \<notin> insert a (fst ` set (pre @ (b, t) # fl))" for x
      using that other [of x] h3 by auto
    ultimately show ?thesis using h3 by auto
  qed
qed

lemma kmfree_loop_refines:
  assumes "free_chain h (pre @ fl)" "spaced (pre @ fl)"
    and a: "a \<noteq> 0" "blk_size h a = s" "a + s < 4294967296" "8 \<le> s" "\<forall>x \<in> set (pre @ fl). apart (a, s) x"
  shows "\<exists>h'. kmfree_loop h a (prev_of pre) (head_of fl) = Some (Ret h') \<and>
           free_chain h' (pre @ free_insert (a, s) fl) \<and>
           (\<forall>x. x \<notin> insert a (fst ` set (pre @ fl)) \<longrightarrow> kh_blocks h' x = kh_blocks h x) \<and> kh_rest h' = kh_rest h"
  using assms
proof (induction fl arbitrary: pre)
  case Nil
  have "a \<notin> fst ` set pre"
    using Nil.prems apart_not_in [of pre a s] by simp
  then obtain h' where "kmfree_append h a (prev_of pre) = Ret h' \<and> free_chain h' (pre @ [(a, s)]) \<and>
      (\<forall>x. x \<notin> insert a (fst ` set pre) \<longrightarrow> kh_blocks h' x = kh_blocks h x) \<and> kh_rest h' = kh_rest h"
    using kmfree_append_refines [of h pre a s] spaced_distinct [of pre] Nil.prems by auto
  then show ?case by (subst kmfree_loop.simps) (auto simp: head_of_def)
next
  case (Cons x fl)
  obtain b t where x: "x = (b, t)" by fastforce
  have na: "a \<notin> fst ` set (pre @ (b, t) # fl)"
    using Cons.prems x apart_not_in [of "pre @ x # fl" a s] by simp
  have b: "b \<noteq> 0" "b + t < 4294967296" "blk_size h b = t" "blk_next h b = head_of fl"
    using Cons.prems(1,2) x by (auto simp: free_chain_def cseg_append spaced_def region_ok_def dest: cseg_head)
  have hn: "head_of fl \<noteq> a" using na a(1) by (cases fl) (auto simp: head_of_def)
  have unf: "kmfree_loop h a (prev_of pre) (head_of (x # fl)) =
      (if b + t = a then Some (Ret (kmfree_merge h a b))
       else if b \<ge> a then Some (Ret (kmfree_insert h a (prev_of pre) b))
       else kmfree_loop h a b (head_of fl))"
    using b hn x by (subst kmfree_loop.simps) (simp add: head_of_def add32_id)
  consider (merge) "b + t = a" | (ins) "b + t \<noteq> a" "b \<ge> a" | (next') "b + t \<noteq> a" "b < a" by linarith
  then show ?case
  proof cases
    case merge
    then show ?thesis
      using kmfree_merge_refines [of h pre b t fl a s "kmfree_merge h a b"] Cons.prems x na unf by auto
  next
    case ins
    have "apart (a, s) (b, t)" using Cons.prems(7) x by simp
    then have "a + s \<le> b" using ins Cons.prems(6) by (auto simp: apart_def)
    then show ?thesis
      using kmfree_insert_refines [of h pre b t fl a s "kmfree_insert h a (prev_of pre) b"] Cons.prems x na unf ins
      by auto
  next
    case next'
    have "prev_of (pre @ [x]) = b" using x by (simp add: prev_of_def)
    then obtain h' where "kmfree_loop h a b (head_of fl) = Some (Ret h') \<and>
        free_chain h' ((pre @ [x]) @ free_insert (a, s) fl) \<and>
        (\<forall>y. y \<notin> insert a (fst ` set ((pre @ [x]) @ fl)) \<longrightarrow> kh_blocks h' y = kh_blocks h y) \<and> kh_rest h' = kh_rest h"
      using Cons.IH [of "pre @ [x]"] Cons.prems by auto
    moreover have "free_insert (a, s) (x # fl) = x # free_insert (a, s) fl" using next' x by simp
    ultimately show ?thesis using unf next' by auto
  qed
qed

section \<open>The invariant of the heap\<close>

definition rbytes :: "region \<Rightarrow> nat set" where
  "rbytes x = {fst x..<fst x + snd x}"

definition lbytes :: "region list \<Rightarrow> nat set" where
  "lbytes fl = (\<Union>x \<in> set fl. rbytes x)"

definition total_size :: "region list \<Rightarrow> nat" where
  "total_size fl = sum_list (map snd fl)"

definition heap_inv :: "kheap \<Rightarrow> region list \<Rightarrow> region set \<Rightarrow> bool" where
  "heap_inv h fl al \<longleftrightarrow> free_chain h fl \<and> spaced fl \<and> finite al \<and>
     (\<forall>x \<in> al. region_ok x \<and> blk_size h (fst x) = snd x \<and> blk_next h (fst x) = 0) \<and>
     (\<forall>x \<in> al. \<forall>y \<in> al. x \<noteq> y \<longrightarrow> apart x y) \<and> (\<forall>x \<in> al. \<forall>y \<in> set fl. apart x y) \<and>
     kh_bytes_free h = total_size fl mod 4294967296 \<and>
     kh_bytes_allocated h = (\<Sum>x\<in>al. snd x) mod 4294967296"

lemma apart_iff: "0 < snd x \<Longrightarrow> 0 < snd y \<Longrightarrow> apart x y \<longleftrightarrow> rbytes x \<inter> rbytes y = {}"
proof
  assume p: "0 < snd x" "0 < snd y" and d: "rbytes x \<inter> rbytes y = {}"
  show "apart x y"
  proof (rule ccontr)
    assume "\<not> apart x y"
    then have "max (fst x) (fst y) \<in> rbytes x \<inter> rbytes y" using p by (auto simp: apart_def rbytes_def)
    then show False using d by simp
  qed
qed (auto simp: apart_def rbytes_def)

lemma free_insert_low:
  assumes "\<forall>y \<in> set fl. k < fst y" "k < a"
  shows "\<forall>y \<in> set (free_insert (a, s) fl). k < fst y"
  using assms
proof (induction "(a, s)" fl rule: free_insert.induct)
  case (2 b t fl)
  then show ?case by (cases fl) (auto split: if_splits)
qed simp

lemma free_insert_correct:
  assumes "spaced fl" "region_ok (a, s)" "\<forall>x \<in> set fl. apart (a, s) x"
  shows "spaced (free_insert (a, s) fl) \<and> lbytes (free_insert (a, s) fl) = rbytes (a, s) \<union> lbytes fl \<and>
         total_size (free_insert (a, s) fl) = s + total_size fl"
  using assms
proof (induction fl)
  case Nil
  then show ?case by (simp add: spaced_def lbytes_def total_size_def)
next
  case (Cons x fl)
  obtain b t where x: "x = (b, t)" by fastforce
  have bt: "region_ok (b, t)" "spaced fl" "\<forall>y \<in> set fl. b + t < fst y" and ap: "apart (a, s) (b, t)"
    using Cons.prems x by (auto simp: spaced_Cons)
  consider (merge) "b + t = a" | (ins) "b + t \<noteq> a" "b \<ge> a" | (next') "b + t \<noteq> a" "b < a" by linarith
  then show ?case
  proof cases
    case merge
    show ?thesis
    proof (cases fl)
      case Nil
      then show ?thesis
        using merge Cons.prems(2) bt x by (auto simp: spaced_def region_ok_def lbytes_def rbytes_def total_size_def)
    next
      case (Cons y fl')
      obtain c u where y: "y = (c, u)" by fastforce
      have cu: "region_ok (c, u)" "\<forall>z \<in> set fl'. c + u < fst z" "spaced fl'" "b + t < c"
        using bt Cons y by (auto simp: spaced_Cons)
      have "apart (a, s) (c, u)" using Cons.prems(3) Cons y by simp
      then have le: "a + s \<le> c" using Cons.prems(2) cu merge by (auto simp: apart_def region_ok_def)
      show ?thesis
      proof (cases "a + s = c")
        case True
        then show ?thesis using merge Cons y x cu bt
          by (auto simp: spaced_Cons region_ok_def lbytes_def rbytes_def total_size_def)
      next
        case False
        then show ?thesis using merge Cons y x cu bt le
          by (auto simp: spaced_Cons region_ok_def lbytes_def rbytes_def total_size_def)
      qed
    qed
  next
    case ins
    then have le: "a + s \<le> b" using ap Cons.prems(2) bt(1) by (auto simp: apart_def region_ok_def)
    show ?thesis
    proof (cases "a + s = b")
      case True
      then show ?thesis using ins x bt Cons.prems(2)
        by (auto simp: spaced_Cons region_ok_def lbytes_def rbytes_def total_size_def)
    next
      case False
      then show ?thesis using ins x bt le Cons.prems(2)
        by (auto simp: spaced_Cons region_ok_def lbytes_def rbytes_def total_size_def)
    qed
  next
    case next'
    then have "b + t < a" using ap Cons.prems(2) by (auto simp: apart_def region_ok_def)
    then show ?thesis
      using Cons.IH bt Cons.prems(2,3) x next' free_insert_low [where k = "b + t" and fl = fl and a = a and s = s]
      by (auto simp: spaced_Cons lbytes_def total_size_def)
  qed
qed

lemma heap_inv_alloc:
  assumes "heap_inv h fl al" "x \<in> al"
  shows "region_ok x" "blk_size h (fst x) = snd x" "blk_next h (fst x) = 0"
    "\<And>y. y \<in> set fl \<Longrightarrow> apart x y" "\<And>y. y \<in> al \<Longrightarrow> y \<noteq> x \<Longrightarrow> apart x y"
  using assms by (simp_all add: heap_inv_def)

lemma spaced_region_ok: "spaced fl \<Longrightarrow> x \<in> set fl \<Longrightarrow> region_ok x"
  by (simp add: spaced_def)

lemma region_ok_pos: "region_ok x \<Longrightarrow> 0 < snd x"
  by (simp add: region_ok_def)

lemma apart_self: "region_ok x \<Longrightarrow> \<not> apart x x"
  by (simp add: apart_def region_ok_def)

lemma free_chain_blocks:
  "kh_blocks h' = kh_blocks h \<Longrightarrow> kh_free_blocks h' = kh_free_blocks h \<Longrightarrow> free_chain h' fl = free_chain h fl"
  using cseg_cong [of fl h' h] by (simp add: free_chain_def)

text \<open>Freeing an allocated block always returns, and puts the block into the free list.\<close>

lemma kmfree_spec:
  assumes inv: "heap_inv h fl al" and x: "(a, s) \<in> al"
  shows "\<exists>h'. kmfree h (a + 8) = Some (Ret h') \<and>
           heap_inv h' (free_insert (a, s) fl) (al - {(a, s)}) \<and> kh_pages h' = kh_pages h"
proof -
  note xa = heap_inv_alloc [OF inv x]
  have sp: "spaced fl" and ch: "free_chain h fl" and fin: "finite al" using inv by (simp_all add: heap_inv_def)
  have as: "0 < a" "8 \<le> s" "a + s < 4294967296" "blk_size h a = s" "blk_next h a = 0"
    using xa(1-3) by (simp_all add: region_ok_def)
  let ?fl = "free_insert (a, s) fl"
  let ?h1 = "h\<lparr>kh_bytes_free := add32 (kh_bytes_free h) s, kh_bytes_allocated := sub32 (kh_bytes_allocated h) s\<rparr>"
  have ins: "spaced ?fl" "lbytes ?fl = rbytes (a, s) \<union> lbytes fl" "total_size ?fl = s + total_size fl"
    using free_insert_correct [OF sp xa(1)] xa(4) by simp_all
  have run: "kmfree h (a + 8) = kmfree_loop ?h1 a 0 (kh_free_blocks h)"
  proof -
    have "sub32 (a + 8) sizeof_block = a" using as by (simp add: sizeof_block_def sub32_id)
    then show ?thesis using as by (simp add: kmfree_def Let_def)
  qed
  have head: "kh_free_blocks h = head_of fl" using ch by (auto simp: free_chain_def dest: cseg_head)
  have ch1: "free_chain ?h1 ([] @ fl)" using ch free_chain_blocks [of ?h1 h fl] by simp
  obtain h' where h': "kmfree_loop ?h1 a (prev_of []) (head_of fl) = Some (Ret h')" "free_chain h' ([] @ ?fl)"
      "\<forall>y. y \<notin> insert a (fst ` set ([] @ fl)) \<longrightarrow> kh_blocks h' y = kh_blocks ?h1 y" "kh_rest h' = kh_rest ?h1"
    using kmfree_loop_refines [OF ch1, of a s] sp as xa(4) by (auto simp: blk_size_def)
  have keep: "region_ok y \<and> blk_size h' (fst y) = snd y \<and> blk_next h' (fst y) = 0 \<and> (\<forall>z \<in> set ?fl. apart y z)"
    if y: "y \<in> al" "y \<noteq> (a, s)" for y
  proof -
    note ya = heap_inv_alloc [OF inv y(1)]
    have "fst y \<noteq> a" using apart_fst [OF xa(5) [OF y] xa(1) ya(1)] by simp
    moreover have "fst y \<notin> fst ` set fl"
      using apart_not_in [OF sp, of "fst y" "snd y"] ya(1,4) by (simp add: region_ok_def)
    ultimately have "kh_blocks h' (fst y) = kh_blocks h (fst y)" using h'(3) by simp
    moreover have "apart y z" if z: "z \<in> set ?fl" for z
    proof -
      have "rbytes z \<subseteq> rbytes (a, s) \<union> lbytes fl" using z ins(2) by (auto simp: lbytes_def)
      moreover have "rbytes y \<inter> rbytes (a, s) = {}"
        using xa(5) [OF y] apart_iff [of "(a, s)" y] region_ok_pos [OF xa(1)] region_ok_pos [OF ya(1)] by blast
      moreover have "rbytes y \<inter> rbytes w = {}" if "w \<in> set fl" for w
        using ya(4) [OF that] apart_iff [of y w] region_ok_pos [OF ya(1)] region_ok_pos [OF spaced_region_ok [OF sp that]] by blast
      ultimately have "rbytes y \<inter> rbytes z = {}" by (fastforce simp: lbytes_def)
      then show ?thesis
        using apart_iff [of y z] region_ok_pos [OF ya(1)] region_ok_pos [OF spaced_region_ok [OF ins(1) z]] by blast
    qed
    ultimately show ?thesis using ya by (simp add: blk_size_def blk_next_def)
  qed
  have sum: "(\<Sum>x\<in>al - {(a, s)}. snd x) = (\<Sum>x\<in>al. snd x) - s" "s \<le> (\<Sum>x\<in>al. snd x)"
    using sum.remove [OF fin x, of snd] by simp_all
  have "kh_bytes_free h' = total_size ?fl mod 4294967296"
       "kh_bytes_allocated h' = (\<Sum>x\<in>al - {(a, s)}. snd x) mod 4294967296" "kh_pages h' = kh_pages h"
    using h'(4) inv sum(2) by (simp_all add: kh_rest_def heap_inv_def add32_mod sub32_mod ins(3) sum(1) add.commute)
  moreover have "\<forall>y \<in> al - {(a, s)}. \<forall>z \<in> al - {(a, s)}. y \<noteq> z \<longrightarrow> apart y z"
    using inv by (auto simp: heap_inv_def)
  ultimately have "heap_inv h' ?fl (al - {(a, s)})"
    using h'(2) ins(1) fin keep by (simp add: heap_inv_def)
  moreover have "kh_pages h' = kh_pages h" using h'(4) by (simp add: kh_rest_def)
  ultimately show ?thesis using run head h'(1) by (simp add: prev_of_def)
qed

section \<open>Allocating refines taking from the list\<close>

lemma kmalloc_search_none:
  "cseg h p fl 0 \<Longrightarrow> \<forall>x \<in> set fl. snd x < bs \<Longrightarrow> kmalloc_search h bs q p = Some None"
proof (induction fl arbitrary: p q)
  case Nil
  then show ?case by (subst kmalloc_search.simps) simp
next
  case (Cons x fl)
  obtain b t where x: "x = (b, t)" by fastforce
  then have "kmalloc_search h bs p (blk_next h p) = Some None" using Cons by auto
  then show ?case using Cons.prems x by (subst kmalloc_search.simps) auto
qed

lemma kmalloc_search_some:
  "cseg h p (xs @ (b, t) # ys) 0 \<Longrightarrow> \<forall>x \<in> set xs. snd x < bs \<Longrightarrow> bs \<le> t \<Longrightarrow>
     kmalloc_search h bs (prev_of pre) p = Some (Some (prev_of (pre @ xs), b))"
proof (induction xs arbitrary: p pre)
  case Nil
  then show ?case by (subst kmalloc_search.simps) simp
next
  case (Cons x xs)
  obtain c u where x: "x = (c, u)" by fastforce
  then have "kmalloc_search h bs (prev_of (pre @ [x])) (blk_next h c) = Some (Some (prev_of ((pre @ [x]) @ xs), b))"
    using Cons.IH [of "blk_next h c" "pre @ [x]"] Cons.prems by simp
  then show ?case using Cons.prems x by (subst kmalloc_search.simps) (auto simp: prev_of_def)
qed

lemma free_take_None: "free_take bs fl = None \<longleftrightarrow> (\<forall>x \<in> set fl. snd x < bs)"
  by (induction fl) (auto split: if_splits)

lemma free_take_Some:
  "free_take bs fl = Some (r, fl') \<Longrightarrow> \<exists>xs b t ys. fl = xs @ (b, t) # ys \<and> (\<forall>x \<in> set xs. snd x < bs) \<and> bs \<le> t \<and>
     (if t \<ge> bs + 16 then r = (b, bs) \<and> fl' = xs @ (b + bs, t - bs) # ys else r = (b, t) \<and> fl' = xs @ ys)"
proof (induction fl arbitrary: fl')
  case (Cons x fl)
  obtain c u where x: "x = (c, u)" by fastforce
  show ?case
  proof (cases "bs \<le> u")
    case True
    then show ?thesis using Cons.prems x by (intro exI [of _ "[]"]) (auto split: if_splits)
  next
    case False
    then obtain fl1 where f: "free_take bs fl = Some (r, fl1)" "fl' = x # fl1" using Cons.prems x by auto
    obtain xs b t ys where "fl = xs @ (b, t) # ys \<and> (\<forall>x \<in> set xs. snd x < bs) \<and> bs \<le> t \<and>
       (if t \<ge> bs + 16 then r = (b, bs) \<and> fl1 = xs @ (b + bs, t - bs) # ys else r = (b, t) \<and> fl1 = xs @ ys)"
      using Cons.IH [OF f(1)] by blast
    then show ?thesis using False x f(2) by (intro exI [of _ "x # xs"] exI [of _ b] exI [of _ t] exI [of _ ys]) auto
  qed
qed simp

text \<open>The headers and the list after the block \<open>b\<close> behind the prefix \<open>xs\<close> has been taken.\<close>

lemma kmalloc_take_chain:
  assumes chain: "free_chain h (xs @ (b, t) # ys)" and sp: "spaced (xs @ (b, t) # ys)"
    and bs: "8 \<le> bs" "bs \<le> t" "bs + 16 < 4294967296"
    and r: "if t \<ge> bs + 16 then r = (b, bs) \<and> fl' = xs @ (b + bs, t - bs) # ys else r = (b, t) \<and> fl' = xs @ ys"
    and h': "kmalloc_take h bs (prev_of xs) b = (h', p)"
  shows "p = b + 8 \<and> free_chain h' fl' \<and> blk_size h' b = snd r \<and> blk_next h' b = 0 \<and>
         (\<forall>x. x \<notin> fst ` set (xs @ (b, t) # ys) \<and> (t \<ge> bs + 16 \<longrightarrow> x \<noteq> b + bs) \<longrightarrow> kh_blocks h' x = kh_blocks h x) \<and>
         kh_pages h' = kh_pages h \<and> kh_bytes_free h' = sub32 (kh_bytes_free h) (snd r) \<and>
         kh_bytes_allocated h' = add32 (kh_bytes_allocated h) (snd r)"
proof -
  let ?prev = "prev_of xs"
  have ok: "b \<noteq> 0" "b + t < 4294967296" "8 \<le> t" using sp by (auto simp: spaced_append spaced_Cons region_ok_def)
  have c: "blk_size h b = t" "cseg h (blk_next h b) ys 0" using chain by (auto simp: free_chain_def cseg_append)
  have low: "\<forall>x \<in> fst ` set xs. x < b" using sp by (force simp: spaced_append)
  have high: "\<forall>x \<in> fst ` set ys. b + t < x" using sp by (auto simp: spaced_append spaced_Cons)
  have prev: "?prev < b" using low ok(1) by (cases xs rule: rev_cases) (auto simp: prev_of_def)
  have dist: "distinct (map fst xs)" using spaced_distinct [OF sp] by simp
  have cond: "add32 (add32 bs sizeof_block) 8 = bs + 16" using bs(3) by (simp add: sizeof_block_def add32_id)
  define nf where "nf = (if t \<ge> bs + 16 then b + bs else blk_next h b)"
  define h1 where "h1 = (if t \<ge> bs + 16
      then set_kb_next (b + bs) (blk_next h b) (set_kb_size b bs (set_kb_size (b + bs) (t - bs) h)) else h)"
  define h3 where "h3 = link_after ?prev nf (set_kb_next b 0 h1)"
  have nfe: "t \<ge> bs + 16 \<Longrightarrow> add32 b bs = b + bs" "sub32 t bs = t - bs" using ok bs by (simp_all add: c_arith)
  have size3: "blk_size h3 b = snd r"
    using r c(1) bs(1) by (auto simp: h3_def h1_def)
  have pr: "add32 b sizeof_block = b + 8" using ok by (simp add: sizeof_block_def add32_id)
  have unf: "h' = h3\<lparr>kh_bytes_free := sub32 (kh_bytes_free h3) (snd r),
                   kh_bytes_allocated := add32 (kh_bytes_allocated h3) (snd r)\<rparr>" "p = b + 8"
  proof -
    have "kmalloc_take h bs ?prev b = (h3\<lparr>kh_bytes_free := sub32 (kh_bytes_free h3) (blk_size h3 b),
        kh_bytes_allocated := add32 (kh_bytes_allocated h3) (blk_size h3 b)\<rparr>, b + 8)"
      using bs(1) by (simp add: kmalloc_take_def cond c(1) nfe Let_def pr h3_def h1_def nf_def)
    then show "h' = h3\<lparr>kh_bytes_free := sub32 (kh_bytes_free h3) (snd r),
                   kh_bytes_allocated := add32 (kh_bytes_allocated h3) (snd r)\<rparr>" "p = b + 8"
      using h' size3 by simp_all
  qed
  have rest: "kh_rest h3 = kh_rest h" by (simp add: h3_def h1_def)
  have blocks: "kh_blocks h' = kh_blocks h3" "kh_free_blocks h' = kh_free_blocks h3" using unf(1) by simp_all
  have other: "kh_blocks h3 x = kh_blocks h x" if "x \<noteq> b" "t \<ge> bs + 16 \<longrightarrow> x \<noteq> b + bs" "x \<noteq> ?prev" for x
    using that by (simp add: h3_def h1_def)
  have out: "kh_blocks h' x = kh_blocks h x" if x: "x \<notin> fst ` set (xs @ (b, t) # ys) \<and> (t \<ge> bs + 16 \<longrightarrow> x \<noteq> b + bs)" for x
  proof (cases "xs = []")
    case True
    then show ?thesis using x blocks by (simp add: h3_def h1_def prev_of_def link_after_def)
  next
    case False
    then have "x \<noteq> ?prev" using x by (auto simp: prev_of_def)
    then show ?thesis using x blocks other by simp
  qed
  have tail: "cseg h3 (blk_next h b) ys 0"
  proof -
    have "kh_blocks h3 x = kh_blocks h x" if "x \<in> fst ` set ys" for x
      using high that prev bs by (intro other) fastforce+
    then show ?thesis using c(2) cseg_cong [of ys h3 h] by simp
  qed
  have "free_chain h3 fl'"
  proof -
    let ?ys = "if t \<ge> bs + 16 then (b + bs, t - bs) # ys else ys"
    have "cseg h3 nf ?ys 0"
      using tail prev bs ok by (auto simp: nf_def) (simp_all add: h3_def h1_def)
    moreover have "kh_blocks h3 x = kh_blocks (link_after ?prev nf h) x" if "x \<in> fst ` set xs" for x
    proof -
      have "x \<noteq> b" "x \<noteq> b + bs" using low that by auto
      then show ?thesis by (simp add: h3_def h1_def link_after_def set_kb_next_def set_kb_size_def)
    qed
    moreover have "kh_free_blocks h3 = kh_free_blocks (link_after ?prev nf h)"
      by (simp add: h3_def h1_def link_after_def)
    ultimately have "free_chain h3 (xs @ ?ys)"
      using free_chain_relink [OF chain dist refl, of h3 nf ?ys] by blast
    then show ?thesis using r by (auto split: if_splits)
  qed
  then have "free_chain h' fl'" using free_chain_blocks [OF blocks] by simp
  moreover have "blk_size h' b = snd r" using size3 blocks by (simp add: blk_size_def)
  moreover have "blk_next h' b = 0" using blocks prev by (simp add: blk_next_def [of h'] flip: blk_next_def) (simp add: h3_def)
  moreover have "kh_pages h' = kh_pages h \<and> kh_bytes_free h' = sub32 (kh_bytes_free h) (snd r) \<and>
         kh_bytes_allocated h' = add32 (kh_bytes_allocated h) (snd r)" using unf(1) rest by (simp add: kh_rest_def)
  ultimately show ?thesis using out unf(2) by blast
qed

lemma align_up_size_pow2:
  assumes "v + 2 ^ k \<le> 4294967296" "k < 32"
  shows "align_up_size v (2 ^ k) = (v + (2 ^ k - 1)) div 2 ^ k * 2 ^ k"
proof -
  have k: "(2::nat) ^ k < 4294967296" using power_strict_increasing [of k 32 "2::nat"] assms(2) by simp
  have "word_of_nat (2 ^ k) = (2 ^ k :: u32)" by simp
  moreover have "word_of_nat (2 ^ k - 1) = (2 ^ k - 1 :: u32)" by (simp add: of_nat_diff)
  then have "word_of_nat v + (2 ^ k - 1) = (word_of_nat (v + (2 ^ k - 1)) :: u32)" by (simp only: of_nat_add)
  ultimately have "align_up_size v (2 ^ k) = unat (align_down (word_of_nat (v + (2 ^ k - 1))) (2 ^ k))"
    by (simp only: align_up_size_def align_up_def align_down_def)
  moreover have "unat (word_of_nat (v + (2 ^ k - 1)) :: u32) = v + (2 ^ k - 1)"
    using assms(1) by (simp add: unat_of_nat)
  ultimately show ?thesis by (simp only: unat_align_down minus_mod_eq_div_mult)
qed

lemma block_size_bounds:
  assumes "nb + PAGE_SIZE + 16 \<le> 4294967296" "bs = add32 (align_up_size nb 4) sizeof_block"
  shows "nb + 8 \<le> bs" "bs \<le> nb + 11"
proof -
  have "align_up_size nb (2 ^ 2) = (nb + 3) div 4 * 4" using assms align_up_size_pow2 [of nb 2] by (simp add: PAGE_SIZE_def)
  then have a: "align_up_size nb 4 = (nb + 3) div 4 * 4" by simp
  have "(nb + 3) div 4 * 4 = nb + 3 - (nb + 3) mod 4" by (simp only: minus_mod_eq_div_mult)
  moreover have "(nb + 3) mod 4 < 4" by simp
  ultimately have "nb \<le> align_up_size nb 4" "align_up_size nb 4 \<le> nb + 3" unfolding a by linarith+
  then show "nb + 8 \<le> bs" "bs \<le> nb + 11" using assms by (simp_all add: sizeof_block_def add32_id PAGE_SIZE_def)
qed

lemma page_size_bounds:
  assumes "bs + PAGE_SIZE \<le> 4294967296" "0 < bs"
  shows "\<exists>c. align_up_size bs PAGE_SIZE = c * PAGE_SIZE \<and> 1 \<le> c \<and> bs \<le> c * PAGE_SIZE"
proof -
  let ?c = "(bs + 4095) div 4096"
  have "align_up_size bs (2 ^ 12) = ?c * 4096" using assms align_up_size_pow2 [of bs 12] by (simp add: PAGE_SIZE_def)
  then have "align_up_size bs 4096 = ?c * 4096" by simp
  moreover have "?c * 4096 = bs + 4095 - (bs + 4095) mod 4096" by (simp only: minus_mod_eq_div_mult)
  moreover have "(bs + 4095) mod 4096 < 4096" by simp
  then have "bs \<le> ?c * 4096" using \<open>?c * 4096 = _\<close> by linarith
  moreover have "1 \<le> ?c" using assms by linarith
  ultimately show ?thesis unfolding PAGE_SIZE_def by blast
qed

text \<open>The heap together with the pages it takes: no block lies in a free page.\<close>

definition heap_sys :: "kheap \<Rightarrow> region list \<Rightarrow> region set \<Rightarrow> bool" where
  "heap_sys h fl al \<longleftrightarrow> heap_inv h fl al \<and> pt_inv (kh_pages h) \<and>
     (\<forall>x \<in> al \<union> set fl. rbytes x \<inter> table_free_bytes (kh_pages h) = {})"

lemma rbytes_split: "n \<le> s \<Longrightarrow> rbytes (a, s) = rbytes (a, n) \<union> rbytes (a + n, s - n)"
  by (auto simp: rbytes_def)

text \<open>Taking a block from the free list.\<close>

lemma kmalloc_take_spec:
  assumes inv: "heap_inv h fl al" and bs: "8 \<le> bs" "bs + 16 < 4294967296"
    and take: "free_take bs fl = Some (r, fl')"
  shows "\<exists>h' prev cur. kmalloc_search h bs 0 (kh_free_blocks h) = Some (Some (prev, cur)) \<and>
           kmalloc_take h bs prev cur = (h', fst r + 8) \<and> heap_inv h' fl' (insert r al) \<and>
           kh_pages h' = kh_pages h \<and> bs \<le> snd r \<and> (\<forall>x \<in> al. apart r x) \<and>
           (\<forall>x \<in> set (r # fl'). rbytes x \<subseteq> lbytes fl)"
proof -
  obtain xs b t ys where fl: "fl = xs @ (b, t) # ys" "\<forall>x \<in> set xs. snd x < bs" "bs \<le> t"
      and r: "if t \<ge> bs + 16 then r = (b, bs) \<and> fl' = xs @ (b + bs, t - bs) # ys else r = (b, t) \<and> fl' = xs @ ys"
    using free_take_Some [OF take] by blast
  have ch: "free_chain h (xs @ (b, t) # ys)" and sp: "spaced (xs @ (b, t) # ys)" and fin: "finite al"
    using inv fl(1) by (simp_all add: heap_inv_def)
  obtain h' p where h': "kmalloc_take h bs (prev_of xs) b = (h', p)" by fastforce
  note tk = kmalloc_take_chain [OF ch sp bs(1) fl(3) bs(2) r h']
  have search: "kmalloc_search h bs 0 (kh_free_blocks h) = Some (Some (prev_of xs, b))"
    using kmalloc_search_some [of h "kh_free_blocks h" xs b t ys bs "[]"] ch fl by (simp add: free_chain_def prev_of_def)
  have fst_r: "fst r = b" and bsr: "bs \<le> snd r" "snd r \<le> t" using r fl(3) by (auto split: if_splits)
  have okb: "region_ok (b, t)" using sp by (simp add: spaced_append spaced_Cons)
  have sub: "rbytes x \<subseteq> lbytes fl" if "x \<in> set (r # fl')" for x
    using that r fl(1) rbytes_split [OF fl(3), of b] by (auto simp: lbytes_def split: if_splits)
  have okr: "region_ok r" using okb fst_r bsr bs(1) by (simp add: region_ok_def)
  have sp': "spaced fl'" and tot: "total_size fl' = total_size fl - snd r" "snd r \<le> total_size fl"
      and aparts: "\<forall>x \<in> set fl'. apart r x"
  proof -
    have low: "\<forall>x \<in> set xs. fst x + snd x < b" and high: "\<forall>y \<in> set ys. b + t < fst y" "spaced xs" "spaced ys"
      using sp by (auto simp: spaced_append spaced_Cons)
    have "spaced fl' \<and> total_size fl' = total_size fl - snd r \<and> snd r \<le> total_size fl \<and> (\<forall>x \<in> set fl'. apart r x)"
    proof (cases "t \<ge> bs + 16")
      case True
      then show ?thesis using r low high okb sp fl(1) bs(1)
        by (auto simp: spaced_append spaced_Cons total_size_def region_ok_def apart_def)
    next
      case False
      then show ?thesis using r low high okb sp fl(1) bs(1)
        by (auto simp: spaced_append spaced_Cons total_size_def region_ok_def apart_def)
    qed
    then show "spaced fl'" "total_size fl' = total_size fl - snd r" "snd r \<le> total_size fl" "\<forall>x \<in> set fl'. apart r x"
      by blast+
  qed
  have disj: "apart y x" if y: "y \<in> al" and x: "region_ok x" "rbytes x \<subseteq> lbytes fl" for x y
  proof -
    note ya = heap_inv_alloc [OF inv y]
    have "rbytes y \<inter> rbytes w = {}" if "w \<in> set fl" for w
      using ya(4) [OF that] apart_iff [of y w] region_ok_pos [OF ya(1)]
        region_ok_pos [OF spaced_region_ok [OF sp [folded fl(1)] that]] by blast
    then have "rbytes y \<inter> rbytes x = {}" using x(2) by (fastforce simp: lbytes_def)
    then show ?thesis using apart_iff [of y x] region_ok_pos [OF ya(1)] region_ok_pos [OF x(1)] by blast
  qed
  have keep: "blk_size h' (fst y) = snd y \<and> blk_next h' (fst y) = 0" if y: "y \<in> al" for y
  proof -
    note ya = heap_inv_alloc [OF inv y]
    have "fst y \<notin> fst ` set fl" using apart_not_in [OF sp [folded fl(1)], of "fst y" "snd y"] ya(1,4) by (simp add: region_ok_def)
    moreover have "t \<ge> bs + 16 \<longrightarrow> fst y \<noteq> b + bs"
    proof -
      have "apart y (b, t)" using ya(4) fl(1) by simp
      then show ?thesis using ya(1) bs(1) by (auto simp: apart_def region_ok_def)
    qed
    ultimately have "kh_blocks h' (fst y) = kh_blocks h (fst y)" using tk fl(1) by blast
    then show ?thesis using ya by (simp add: blk_size_def blk_next_def)
  qed
  have new: "\<forall>x \<in> al. apart r x"
    using disj [OF _ okr] sub by (auto simp: apart_def)
  then have nin: "r \<notin> al" using okr by (auto simp: apart_def region_ok_def)
  have "heap_inv h' fl' (insert r al)"
    unfolding heap_inv_def
  proof (intro conjI)
    show "\<forall>x\<in>insert r al. region_ok x \<and> blk_size h' (fst x) = snd x \<and> blk_next h' (fst x) = 0"
      using keep heap_inv_alloc(1) [OF inv] okr tk fst_r by auto
    show "\<forall>x\<in>insert r al. \<forall>y\<in>insert r al. x \<noteq> y \<longrightarrow> apart x y"
      using new inv by (auto simp: heap_inv_def apart_def)
    show "\<forall>x\<in>insert r al. \<forall>y\<in>set fl'. apart x y"
      using aparts disj spaced_region_ok [OF sp'] sub by auto
    show "kh_bytes_free h' = total_size fl' mod 4294967296"
      using tk inv tot by (simp add: heap_inv_def sub32_mod)
    show "kh_bytes_allocated h' = (\<Sum>x\<in>insert r al. snd x) mod 4294967296"
      using tk inv nin fin by (simp add: heap_inv_def add32_mod add.commute)
  qed (use tk sp' fin in simp_all)
  then show ?thesis using search h' tk fst_r new sub bsr(1) by auto
qed

text \<open>Taking fresh pages, of which the part that is not needed goes to the free list.\<close>

lemma heap_inv_fresh:
  assumes inv: "heap_inv h fl al" and x: "region_ok x" "\<forall>y \<in> al \<union> set fl. apart x y"
    and h': "h' = (set_kb_next (fst x) 0 (set_kb_size (fst x) (snd x) h))
        \<lparr>kh_total_pages := tp, kh_bytes_allocated := add32 (kh_bytes_allocated h) (snd x), kh_pages := t\<rparr>"
  shows "heap_inv h' fl (insert x al)"
proof -
  have sp: "spaced fl" and ch: "free_chain h fl" and fin: "finite al" using inv by (simp_all add: heap_inv_def)
  have nin: "x \<notin> al" using x apart_self by blast
  have blk: "kh_blocks h' y = kh_blocks h y" if "y \<noteq> fst x" for y using that h' by simp
  have nf: "fst x \<notin> fst ` set fl" using apart_not_in [OF sp, of "fst x" "snd x"] x by (simp add: region_ok_def)
  then have "cseg h' (kh_free_blocks h) fl 0 = cseg h (kh_free_blocks h) fl 0"
    using blk by (intro cseg_cong) metis
  then have "free_chain h' fl" using ch h' by (simp add: free_chain_def)
  moreover have "fst y \<noteq> fst x" if "y \<in> al" for y
    using apart_fst [OF _ x(1) heap_inv_alloc(1) [OF inv that]] x(2) that by fastforce
  then have "blk_size h' (fst y) = snd y \<and> blk_next h' (fst y) = 0" if "y \<in> al" for y
    using heap_inv_alloc(2,3) [OF inv that] blk that by (simp add: blk_size_def blk_next_def)
  moreover have "blk_size h' (fst x) = snd x \<and> blk_next h' (fst x) = 0"
    using h' by (simp add: blk_size_def blk_next_def set_kb_next_def set_kb_size_def)
  moreover have "kh_bytes_allocated h' = (\<Sum>x\<in>insert x al. snd x) mod 4294967296"
    using inv h' nin fin by (simp add: heap_inv_def add32_mod add.commute)
  moreover have "kh_bytes_free h' = total_size fl mod 4294967296"
    using inv h' by (simp add: heap_inv_def set_kb_next_def set_kb_size_def)
  moreover have "\<forall>y\<in>insert x al. \<forall>z\<in>insert x al. y \<noteq> z \<longrightarrow> apart y z"
    using x(2) inv by (auto simp: heap_inv_def apart_def)
  moreover have "\<forall>y\<in>insert x al. \<forall>z\<in>set fl. apart y z" using x(2) inv by (auto simp: heap_inv_def)
  moreover have "\<forall>y\<in>insert x al. region_ok y" using x(1) heap_inv_alloc(1) [OF inv] by blast
  ultimately show ?thesis using sp fin by (simp add: heap_inv_def)
qed

text \<open>Splitting an allocated block in two.\<close>

lemma heap_inv_split:
  assumes inv: "heap_inv h fl (insert (a, s) al)" "(a, s) \<notin> al" and n: "8 \<le> n" "n + 8 \<le> s"
    and h': "h' = set_kb_next (a + n) 0 (set_kb_size (a + n) (s - n) (set_kb_size a n h))"
  shows "heap_inv h' fl (insert (a, n) (insert (a + n, s - n) al))"
proof -
  note xa = heap_inv_alloc [OF inv(1), of "(a, s)", simplified]
  have sp: "spaced fl" and ch: "free_chain h fl" and fin: "finite al" using inv by (simp_all add: heap_inv_def)
  let ?x = "(a, n)" and ?y = "(a + n, s - n)"
  have as: "region_ok ?x" "region_ok ?y" using xa(1) n by (simp_all add: region_ok_def)
  have sub: "apart ?x z \<and> apart ?y z \<and> fst z \<noteq> a \<and> fst z \<noteq> a + n" if "apart (a, s) z" "region_ok z" for z
    using that n by (auto simp: apart_def region_ok_def)
  have blk: "kh_blocks h' y = kh_blocks h y" if "y \<noteq> a" "y \<noteq> a + n" for y using that h' by simp
  have "cseg h' (kh_free_blocks h) fl 0 = cseg h (kh_free_blocks h) fl 0"
  proof (rule cseg_cong)
    fix y assume "y \<in> fst ` set fl"
    then obtain z where z: "z \<in> set fl" "y = fst z" by auto
    then show "kh_blocks h' y = kh_blocks h y" using sub [OF xa(4) spaced_region_ok [OF sp]] blk by simp
  qed
  then have "free_chain h' fl" using ch h' by (simp add: free_chain_def)
  moreover have al: "region_ok z \<and> apart ?x z \<and> apart ?y z \<and> fst z \<noteq> a \<and> fst z \<noteq> a + n" if "z \<in> al" for z
  proof -
    have ok: "region_ok z" using heap_inv_alloc(1) [OF inv(1)] that by blast
    have "z \<noteq> (a, s)" using that inv(2) by auto
    then have "apart (a, s) z" using xa(5) that by blast
    then show ?thesis using sub ok by blast
  qed
  moreover have "blk_size h' (fst z) = snd z \<and> blk_next h' (fst z) = 0" if "z \<in> al" for z
    using heap_inv_alloc(2,3) [OF inv(1), of z] al [OF that] blk that by (simp add: blk_size_def blk_next_def)
  moreover have "blk_size h' a = n \<and> blk_next h' a = 0 \<and> blk_size h' (a + n) = s - n \<and> blk_next h' (a + n) = 0"
    using h' xa(3) n by simp
  moreover have "?x \<notin> insert ?y al" "?y \<notin> al" using al n by force+
  then have "(\<Sum>z\<in>insert ?x (insert ?y al). snd z) = (\<Sum>z\<in>insert (a, s) al. snd z)"
    using fin inv(2) n by simp
  moreover have "kh_bytes_free h' = kh_bytes_free h \<and> kh_bytes_allocated h' = kh_bytes_allocated h"
    using h' by (simp add: set_kb_next_def set_kb_size_def)
  moreover have "\<forall>z \<in> set fl. apart ?x z \<and> apart ?y z"
    using sub [OF xa(4) spaced_region_ok [OF sp]] by blast
  moreover have "apart ?x ?y" "apart ?y ?x" by (simp_all add: apart_def)
  ultimately show ?thesis using inv(1) sp fin as
    unfolding heap_inv_def by (simp add: apart_def) blast
qed

lemma apart_free_bytes:
  assumes "region_ok x" "region_ok y" "rbytes x \<subseteq> F" "rbytes y \<inter> F = {}"
  shows "apart x y"
proof -
  have "rbytes x \<inter> rbytes y = {}" using assms(3,4) by blast
  then show ?thesis using apart_iff [OF region_ok_pos [OF assms(1)] region_ok_pos [OF assms(2)]] by simp
qed

lemma kmalloc_grow_spec:
  assumes sys: "heap_sys h fl al" and bs: "8 \<le> bs" "bs + PAGE_SIZE \<le> 4294967296"
  shows "kmalloc_grow h bs = Some Halt \<or>
         (\<exists>h' r fl'. kmalloc_grow h bs = Some (Ret (h', fst r + 8)) \<and> heap_sys h' fl' (insert r al) \<and>
            bs \<le> snd r \<and> (\<forall>x \<in> al. apart r x))"
proof -
  have inv: "heap_inv h fl al" and pt: "pt_inv (kh_pages h)" using sys by (simp_all add: heap_sys_def)
  have sp: "spaced fl" using inv by (simp add: heap_inv_def)
  let ?F = "table_free_bytes (kh_pages h)"
  have ok: "region_ok y" "rbytes y \<inter> ?F = {}" if "y \<in> al \<union> set fl" for y
  proof -
    show "region_ok y" using that heap_inv_alloc(1) [OF inv, of y] spaced_region_ok [OF sp, of y] by blast
    show "rbytes y \<inter> ?F = {}" using that sys unfolding heap_sys_def by blast
  qed
  obtain c where c: "align_up_size bs PAGE_SIZE = c * PAGE_SIZE" "1 \<le> c" "bs \<le> c * PAGE_SIZE"
    using page_size_bounds [OF bs(2)] bs(1) by auto
  let ?ps = "c * PAGE_SIZE"
  obtain t p where t: "page_alloc (kh_pages h) ?ps PAGE_F_SUPERVISOR = Some (t, p)" "pt_inv t"
      "p = 0 \<and> table_free_bytes t = ?F \<or> p \<noteq> 0 \<and> p + ?ps < 4294967296 \<and> {p..<p + ?ps} \<subseteq> ?F \<and>
       table_free_bytes t = ?F - {p..<p + ?ps}"
    using page_alloc_spec [OF pt c(2)] by blast
  show ?thesis
  proof (cases "p = 0")
    case True
    then show ?thesis using t(1) c(1) by (simp add: kmalloc_grow_def)
  next
    case False
    let ?x = "(p, ?ps)"
    have x: "region_ok ?x" "rbytes ?x \<subseteq> ?F" and tf: "table_free_bytes t = ?F - rbytes ?x" and lt: "p + ?ps < 4294967296"
      using False t(3) bs(1) c(3) by (auto simp: region_ok_def rbytes_def)
    have ap: "\<forall>y \<in> al \<union> set fl. apart ?x y" using apart_free_bytes [OF x(1) _ x(2)] ok by blast
    define h2 where "h2 = (set_kb_next p 0 (set_kb_size p ?ps h))\<lparr>kh_total_pages := add32 (kh_total_pages h) ?ps,
        kh_bytes_allocated := add32 (kh_bytes_allocated h) ?ps, kh_pages := t\<rparr>"
    have inv2: "heap_inv h2 fl (insert ?x al)"
      by (rule heap_inv_fresh [OF inv x(1) ap]) (simp add: h2_def)
    define h3 where "h3 = set_kb_next (p + bs) 0 (set_kb_size (p + bs) (?ps - bs) (set_kb_size p bs h2))"
    have ar: "add32 p bs = p + bs" "sub32 ?ps bs = ?ps - bs" "add32 p 8 = p + 8"
      using lt c(3) bs(1) by (simp_all add: c_arith)
    have h2e: "(set_kb_next p 0 (set_kb_size p ?ps (h\<lparr>kh_pages := t\<rparr>)))
         \<lparr>kh_total_pages := add32 (kh_total_pages h) ?ps, kh_bytes_allocated := add32 (kh_bytes_allocated h) ?ps\<rparr> = h2"
      "kh_total_pages (set_kb_next p 0 (set_kb_size p ?ps (h\<lparr>kh_pages := t\<rparr>))) = kh_total_pages h"
      "kh_bytes_allocated (set_kb_next p 0 (set_kb_size p ?ps (h\<lparr>kh_pages := t\<rparr>))) = kh_bytes_allocated h"
      by (simp_all add: h2_def set_kb_next_def set_kb_size_def)
    have unf: "kmalloc_grow h bs = (if ?ps - bs > 16
        then kmfree h3 (add32 (p + bs) 8) \<bind> (\<lambda>r. Some (case r of Halt \<Rightarrow> Halt | Ret h4 \<Rightarrow> Ret (h4, p + 8)))
        else Some (Ret (h2, p + 8)))"
      unfolding kmalloc_grow_def Let_def c(1) t(1) h3_def sizeof_block_def
      using False by (simp add: h2e ar cong: outcome.case_cong)
    have out: "rbytes y \<inter> table_free_bytes t = {}" if "y \<in> insert ?x al \<union> set fl" for y
      using that ok(2) [of y] tf by auto
    have pages2: "kh_pages h2 = t" by (simp add: h2_def)
    show ?thesis
    proof (cases "?ps - bs > 16")
      case False
      have "heap_sys h2 fl (insert ?x al)" using inv2 out t(2) pages2 by (simp add: heap_sys_def)
      moreover have "kmalloc_grow h bs = Some (Ret (h2, fst ?x + 8))" using unf False by simp
      ultimately show ?thesis using ap c(3) by (intro disjI2 exI [of _ h2] exI [of _ ?x] exI [of _ fl]) simp
    next
      case True
      let ?u = "(p, bs)" and ?v = "(p + bs, ?ps - bs)"
      have nin: "?x \<notin> al" using ap apart_self [OF x(1)] by auto
      have inv3: "heap_inv h3 fl (insert ?u (insert ?v al))"
        using heap_inv_split [OF inv2 nin bs(1) _ h3_def] True by simp
      have "add32 (p + bs) 8 = p + bs + 8" using lt True by (intro add32_id) linarith
      then obtain h4 where h4: "kmfree h3 (add32 (p + bs) 8) = Some (Ret h4)"
          "heap_inv h4 (free_insert ?v fl) (insert ?u (insert ?v al) - {?v})" "kh_pages h4 = kh_pages h3"
        using kmfree_spec [OF inv3, of "p + bs" "?ps - bs"] by auto
      have uv: "rbytes ?x = rbytes ?u \<union> rbytes ?v" using rbytes_split [OF c(3), of p] by simp
      have "?v \<notin> al" "?u \<noteq> ?v"
      proof -
        show "?u \<noteq> ?v" using bs(1) by simp
        show "?v \<notin> al"
        proof
          assume v: "?v \<in> al"
          then have "apart ?x ?v" using ap by blast
          then show False using True by (auto simp: apart_def)
        qed
      qed
      then have al4: "insert ?u (insert ?v al) - {?v} = insert ?u al" by auto
      have pages: "kh_pages h4 = t" using h4(3) pages2 by (simp add: h3_def set_kb_next_def set_kb_size_def)
      have v: "region_ok ?v" "\<forall>y \<in> set fl. apart ?v y"
        using heap_inv_alloc(1,4) [OF inv3, of ?v] by blast+
      have "lbytes (free_insert ?v fl) = rbytes ?v \<union> lbytes fl" using free_insert_correct [OF sp v] by blast
      then have "rbytes y \<inter> table_free_bytes t = {}" if "y \<in> set (free_insert ?v fl)" for y
      proof -
        have "rbytes y \<subseteq> rbytes ?x \<union> lbytes fl" using that \<open>lbytes _ = _\<close> uv by (auto simp: lbytes_def)
        moreover have "lbytes fl \<inter> table_free_bytes t = {}" using out by (auto simp: lbytes_def)
        ultimately show ?thesis using out [of ?x] by blast
      qed
      moreover have "rbytes y \<inter> table_free_bytes t = {}" if "y \<in> insert ?u al" for y
      proof (cases "y = ?u")
        case True
        then show ?thesis using out [of ?x] uv by blast
      next
        case False
        then show ?thesis using out [of y] that by blast
      qed
      ultimately have "heap_sys h4 (free_insert ?v fl) (insert ?u al)"
        using h4(2) t(2) unfolding heap_sys_def al4 pages by blast
      moreover have "kmalloc_grow h bs = Some (Ret (h4, fst ?u + 8))" using unf True h4(1) by simp
      moreover have "apart ?u y" if "y \<in> al" for y
      proof -
        have "apart ?x y" using ap that by blast
        then show ?thesis using c(3) by (auto simp: apart_def)
      qed
      ultimately show ?thesis by (intro disjI2 exI [of _ h4] exI [of _ ?u] exI [of _ "free_insert ?v fl"]) simp
    qed
  qed
qed

lemma kmalloc_spec:
  assumes sys: "heap_sys h fl al" and nb: "nb + PAGE_SIZE + 16 \<le> 4294967296"
  shows "kmalloc h nb = Some Halt \<or>
         (\<exists>h' r fl'. kmalloc h nb = Some (Ret (h', fst r + 8)) \<and> heap_sys h' fl' (insert r al) \<and>
            nb + 8 \<le> snd r \<and> (\<forall>x \<in> al. apart r x))"
proof -
  define bs where "bs = add32 (align_up_size nb 4) sizeof_block"
  have bs: "nb + 8 \<le> bs" "bs \<le> nb + 11" using block_size_bounds [OF nb bs_def] by auto
  have inv: "heap_inv h fl al" using sys by (simp add: heap_sys_def)
  show ?thesis
  proof (cases "free_take bs fl")
    case None
    have "kmalloc_search h bs 0 (kh_free_blocks h) = Some None"
      using kmalloc_search_none [of h "kh_free_blocks h" fl bs 0] None inv
      by (simp add: free_take_None heap_inv_def free_chain_def)
    then have "kmalloc h nb = kmalloc_grow h bs" by (simp add: kmalloc_def Let_def bs_def)
    moreover have "8 \<le> bs" "bs + PAGE_SIZE \<le> 4294967296" using bs nb by simp_all
    ultimately show ?thesis using kmalloc_grow_spec [OF sys] bs(1) by fastforce
  next
    case (Some rf)
    obtain r fl' where rf: "rf = (r, fl')" by fastforce
    have "8 \<le> bs" "bs + 16 < 4294967296" using bs nb by (simp_all add: PAGE_SIZE_def)
    then obtain h' prev cur where h': "kmalloc_search h bs 0 (kh_free_blocks h) = Some (Some (prev, cur))"
        "kmalloc_take h bs prev cur = (h', fst r + 8)" "heap_inv h' fl' (insert r al)" "kh_pages h' = kh_pages h"
        "bs \<le> snd r" "\<forall>x \<in> al. apart r x" "\<forall>x \<in> set (r # fl'). rbytes x \<subseteq> lbytes fl"
      using kmalloc_take_spec [OF inv, of bs r fl'] Some rf by blast
    have "rbytes x \<inter> table_free_bytes (kh_pages h) = {}" if "x \<in> insert r al \<union> set fl'" for x
      using that sys h'(7) by (fastforce simp: heap_sys_def lbytes_def)
    then have "heap_sys h' fl' (insert r al)" using h'(3,4) sys by (simp add: heap_sys_def)
    moreover have "kmalloc h nb = Some (Ret (h', fst r + 8))"
      using h'(1,2) by (simp add: kmalloc_def Let_def bs_def [symmetric])
    ultimately show ?thesis using h'(5,6) bs(1) by (meson le_trans)
  qed
qed

section \<open>Runs of the heap\<close>

text \<open>
  The states that calls to \<^verbatim>\<open>kmalloc\<close> and \<^verbatim>\<open>kmfree\<close> reach after \<^verbatim>\<open>init_kernel_heap\<close>, with the
  pointers that are live and the sizes they were asked for. Only live pointers are freed.
\<close>

inductive heap_reach :: "kheap \<Rightarrow> (nat \<times> nat) set \<Rightarrow> bool" where
  heap_start: "pt_inv (kh_pages h) \<Longrightarrow> heap_reach (init_kernel_heap h) {}"
| heap_malloc: "heap_reach h live \<Longrightarrow> nb + PAGE_SIZE + 16 \<le> 4294967296 \<Longrightarrow> kmalloc h nb = Some (Ret (h', p)) \<Longrightarrow>
    heap_reach h' (insert (p, nb) live)"
| heap_free: "heap_reach h live \<Longrightarrow> (p, nb) \<in> live \<Longrightarrow> kmfree h p = Some (Ret h') \<Longrightarrow>
    heap_reach h' (live - {(p, nb)})"

text \<open>Each live pointer points behind the header of an allocated block that is big enough.\<close>

definition live_in :: "region set \<Rightarrow> (nat \<times> nat) set \<Rightarrow> bool" where
  "live_in al live \<longleftrightarrow> inj_on fst live \<and> (\<forall>(p, nb) \<in> live. \<exists>a s. (a, s) \<in> al \<and> p = a + 8 \<and> nb + 8 \<le> s)"

lemma live_inD:
  assumes "live_in al live" "(p, nb) \<in> live"
  obtains a s where "(a, s) \<in> al" "p = a + 8" "nb + 8 \<le> s"
  using assms unfolding live_in_def by blast

lemma live_in_unique: "live_in al live \<Longrightarrow> (p, m) \<in> live \<Longrightarrow> (q, n) \<in> live \<Longrightarrow> q = p \<Longrightarrow> n = m"
  unfolding live_in_def using inj_onD [of fst live "(p, m)" "(q, n)"] by simp

lemma live_in_free:
  assumes "live_in al live" "(a + 8, nb) \<in> live"
  shows "live_in (al - {(a, s)}) (live - {(a + 8, nb)})"
proof -
  have "\<exists>b t. (b, t) \<in> al - {(a, s)} \<and> q = b + 8 \<and> m + 8 \<le> t" if q: "(q, m) \<in> live - {(a + 8, nb)}" for q m
  proof -
    have "q \<noteq> a + 8" using live_in_unique [OF assms(1,2), of q m] q by auto
    moreover obtain b t where "(b, t) \<in> al" "q = b + 8" "m + 8 \<le> t" using live_inD [OF assms(1), of q m] q by blast
    ultimately show ?thesis by auto
  qed
  moreover have "inj_on fst (live - {(a + 8, nb)})" using assms(1) unfolding live_in_def by (meson Diff_subset inj_on_subset)
  ultimately show ?thesis by (auto simp: live_in_def)
qed

lemma live_in_malloc:
  assumes "live_in al live" "\<forall>x \<in> al. apart r x" "region_ok r" "\<forall>x \<in> al. region_ok x" "nb + 8 \<le> snd r"
  shows "live_in (insert r al) (insert (fst r + 8, nb) live)"
proof -
  have "q \<noteq> fst r + 8" if q: "(q, m) \<in> live" for q m
  proof -
    obtain a s where a: "(a, s) \<in> al" "q = a + 8" using live_inD [OF assms(1) q] by blast
    then have "fst r \<noteq> a" using apart_fst [of r "(a, s)"] assms(2-4) by auto
    then show ?thesis using a(2) by simp
  qed
  then have "fst r + 8 \<notin> fst ` live" by fastforce
  then have "inj_on fst (insert (fst r + 8, nb) live)" using assms(1) by (auto simp: live_in_def)
  moreover have "\<exists>a s. (a, s) \<in> insert r al \<and> fst r + 8 = a + 8 \<and> nb + 8 \<le> s"
    using assms(5) by (intro exI [of _ "fst r"] exI [of _ "snd r"]) simp
  moreover have "\<exists>a s. (a, s) \<in> insert r al \<and> q = a + 8 \<and> m + 8 \<le> s" if "(q, m) \<in> live" for q m
    using live_inD [OF assms(1) that] by (metis insertCI)
  ultimately show ?thesis unfolding live_in_def by fastforce
qed

lemma heap_reach_inv: "heap_reach h live \<Longrightarrow> \<exists>fl al. heap_sys h fl al \<and> live_in al live"
proof (induction rule: heap_reach.induct)
  case (heap_start h)
  then have "heap_sys (init_kernel_heap h) [] {} \<and> live_in {} {}"
    by (simp add: heap_sys_def heap_inv_def init_kernel_heap_def free_chain_def spaced_def total_size_def live_in_def)
  then show ?case by blast
next
  case (heap_malloc h live nb h' p)
  obtain fl al where fa: "heap_sys h fl al" "live_in al live" using heap_malloc.IH by blast
  obtain r fl' where r: "p = fst r + 8" "heap_sys h' fl' (insert r al)" "nb + 8 \<le> snd r" "\<forall>x \<in> al. apart r x"
    using kmalloc_spec [OF fa(1) heap_malloc.hyps(2)] heap_malloc.hyps(3) by auto
  have "region_ok r" "\<forall>x \<in> al. region_ok x"
    using heap_inv_alloc(1) [of h' fl' "insert r al"] r(2) unfolding heap_sys_def by blast+
  then have "live_in (insert r al) (insert (p, nb) live)" using live_in_malloc [OF fa(2) r(4)] r(1,3) by blast
  then show ?case using r(2) by blast
next
  case (heap_free h live p nb h')
  obtain fl al where fa: "heap_sys h fl al" "live_in al live" using heap_free.IH by blast
  obtain a s where a: "(a, s) \<in> al" "p = a + 8" using live_inD [OF fa(2) heap_free.hyps(2)] by blast
  have inv: "heap_inv h fl al" using fa(1) by (simp add: heap_sys_def)
  then have "heap_inv h' (free_insert (a, s) fl) (al - {(a, s)})" and pages: "kh_pages h' = kh_pages h"
    using kmfree_spec [OF _ a(1)] a(2) heap_free.hyps(3) by fastforce+
  moreover have "lbytes (free_insert (a, s) fl) = rbytes (a, s) \<union> lbytes fl"
    using free_insert_correct [of fl a s] heap_inv_alloc(1,4) [OF inv a(1)] inv unfolding heap_inv_def by blast
  then have "rbytes x \<subseteq> rbytes (a, s) \<union> lbytes fl" if "x \<in> set (free_insert (a, s) fl)" for x
    using that unfolding lbytes_def by blast
  then have "rbytes x \<inter> table_free_bytes (kh_pages h) = {}" if "x \<in> (al - {(a, s)}) \<union> set (free_insert (a, s) fl)" for x
    using that fa(1) a(1) unfolding heap_sys_def lbytes_def by blast
  ultimately have "heap_sys h' (free_insert (a, s) fl) (al - {(a, s)})"
    using fa(1) unfolding heap_sys_def pages by blast
  then show ?case using live_in_free [OF fa(2), of a nb s] heap_free.hyps(2) a(2) by blast
qed

lemma live_payload_disjoint:
  assumes "heap_inv h fl al" "live_in al live" "(p, m) \<in> live" "(q, n) \<in> live" "(p, m) \<noteq> (q, n)"
  shows "p \<noteq> q \<and> {p..<p + m} \<inter> {q..<q + n} = {}"
proof -
  obtain a s b t where a: "(a, s) \<in> al" "p = a + 8" "m + 8 \<le> s" and b: "(b, t) \<in> al" "q = b + 8" "n + 8 \<le> t"
    using live_inD [OF assms(2,3)] live_inD [OF assms(2,4)] by metis
  have pq: "p \<noteq> q" using live_in_unique [OF assms(2-4)] assms(5) by auto
  then have "(b, t) \<noteq> (a, s)" using a b by auto
  then have "apart (a, s) (b, t)" using heap_inv_alloc(5) [OF assms(1) a(1) b(1)] by blast
  then show ?thesis using pq a b by (auto simp: apart_def)
qed

section \<open>Properties of the heap\<close>

text \<open>
  C1. Any two allocations that are live at the same time, in any run of \<^verbatim>\<open>kmalloc\<close> and \<^verbatim>\<open>kmfree\<close> calls
  after \<^verbatim>\<open>init_kernel_heap\<close>, have different addresses and share no byte.
\<close>

theorem kmalloc_live_disjoint:
  assumes "heap_reach h live" "(p, m) \<in> live" "(q, n) \<in> live" "(p, m) \<noteq> (q, n)"
  shows "p \<noteq> q \<and> {p..<p + m} \<inter> {q..<q + n} = {}"
  using heap_reach_inv [OF assms(1)] live_payload_disjoint [OF _ _ assms(2-4)] by (auto simp: heap_sys_def)

definition demo_pages :: page_table where
  "demo_pages = \<lparr>num_global_blocks = 1, global_blocks = [demo_block]\<rparr>"

definition demo_heap :: kheap where
  "demo_heap = \<lparr>kh_free_blocks = 0, kh_total_pages = 0, kh_bytes_free = 0, kh_bytes_allocated = 0,
     kh_blocks = (\<lambda>_. \<lparr>kb_size = 0, kb_next = 0\<rparr>), kh_pages = demo_pages\<rparr>"

lemma demo_pages_inv: "pt_inv demo_pages"
  using demo_block_inv by (simp add: pt_inv_def demo_pages_def)

lemma demo_page_alloc: "\<exists>t. page_alloc demo_pages 4096 PAGE_F_SUPERVISOR = Some (t, 12288)"
proof -
  have r: "\<not> run_free demo_block 1 0" "run_free demo_block 1 1"
    using demo_block_bits by (auto simp: run_free_def)
  then have fit: "first_fit demo_block 1 = Some 1" by (simp add: first_fit_def upt_rec)
  obtain b' where "page_block_alloc demo_block (1 * PAGE_SIZE) = Some (b', page_addr demo_block 1)"
    using page_block_alloc_spec [OF demo_block_inv _ _ fit, of "1 * PAGE_SIZE"] pages_of_mult [of 1] by auto
  moreover have "page_addr demo_block 1 = 12288" by (simp add: page_addr_def PAGE_SIZE_def c_arith)
  moreover have "block_matches demo_block PAGE_F_SUPERVISOR 1"
    by (simp add: block_matches_def PAGE_F_SUPERVISOR_def PAGE_F_TYPE_def demo_block_def)
  moreover have "pages_of 4096 = 1" by (simp add: pages_of_def PAGE_SIZE_def)
  ultimately show ?thesis by (simp add: page_alloc_def demo_pages_def PAGE_SIZE_def)
qed

lemma demo_malloc:
  "\<exists>h1. kmalloc demo_heap 100 = Some (Ret (h1, 12296)) \<and> kh_free_blocks h1 = 12396 \<and> blk_size h1 12396 = 3988"
proof -
  obtain t where t: "page_alloc demo_pages 4096 PAGE_F_SUPERVISOR = Some (t, 12288)" using demo_page_alloc by blast
  have a: "align_up_size 100 4 = 100" "align_up_size 108 PAGE_SIZE = 4096"
    by (simp_all add: align_up_size_def align_up_def PAGE_SIZE_def)
  have s: "kmalloc_search demo_heap 108 0 0 = Some None" by (subst kmalloc_search.simps) simp
  have l: "kmfree_loop h 12396 0 0 = Some (kmfree_append h 12396 0)" for h by (subst kmfree_loop.simps) simp
  have "\<exists>h1. kmalloc_grow demo_heap 108 = Some (Ret (h1, 12296)) \<and> kh_free_blocks h1 = 12396 \<and> blk_size h1 12396 = 3988"
    using t by (simp add: kmalloc_grow_def a demo_heap_def sizeof_block_def c_arith kmfree_def Let_def l
        kmfree_append_def set_kb_next_def set_kb_size_def blk_size_def blk_next_def)
  moreover have "kmalloc demo_heap 100 = kmalloc_grow demo_heap 108"
    using s by (simp add: kmalloc_def a sizeof_block_def c_arith) (simp add: demo_heap_def)
  ultimately show ?thesis by simp
qed

lemma demo_malloc2:
  assumes "kh_free_blocks h1 = 12396" "blk_size h1 12396 = 3988"
  shows "\<exists>h2. kmalloc h1 50 = Some (Ret (h2, 12404))"
proof -
  have a: "align_up_size 50 4 = 52" by (simp add: align_up_size_def align_up_def)
  have s: "kmalloc_search h1 60 0 12396 = Some (Some (0, 12396))"
    using assms by (subst kmalloc_search.simps) simp
  show ?thesis using assms s by (simp add: kmalloc_def a sizeof_block_def c_arith kmalloc_take_def Let_def)
qed

lemma demo_reach: "\<exists>h. heap_reach h {(12404, 50), (12296, 100)}"
proof -
  obtain h1 where h1: "kmalloc demo_heap 100 = Some (Ret (h1, 12296))" "kh_free_blocks h1 = 12396" "blk_size h1 12396 = 3988"
    using demo_malloc by blast
  obtain h2 where h2: "kmalloc h1 50 = Some (Ret (h2, 12404))" using demo_malloc2 [OF h1(2,3)] by blast
  have "init_kernel_heap demo_heap = demo_heap" by (simp add: init_kernel_heap_def demo_heap_def)
  moreover have "pt_inv (kh_pages demo_heap)" using demo_pages_inv by (simp add: demo_heap_def)
  ultimately have "heap_reach demo_heap {}" using heap_start [of demo_heap] by simp
  then have "heap_reach h1 {(12296, 100)}" using heap_malloc [OF _ _ h1(1), of "{}"] by (simp add: PAGE_SIZE_def)
  then have "heap_reach h2 {(12404, 50), (12296, 100)}" using heap_malloc [OF _ _ h2] by (simp add: PAGE_SIZE_def)
  then show ?thesis by blast
qed

theorem kmalloc_live_disjoint_witness:
  "\<exists>h. heap_reach h {(12404, 50), (12296, 100)} \<and> {12404..<12404 + 50} \<inter> {12296..<12296 + 100 :: nat} = {}"
  using demo_reach kmalloc_live_disjoint [of _ "{(12404, 50), (12296, 100)}" 12404 50 12296 100] by auto



text \<open>
  C17. Allocation refines taking the first block of the free list that is big enough, cut to size when at
  least 16 bytes remain: the list and the set of allocated blocks change in exactly this way, and the
  byte counters stay the sizes of the two.
\<close>

theorem kmalloc_is_first_fit:
  assumes "heap_inv h fl al" "nb + PAGE_SIZE + 16 \<le> 4294967296"
    and "free_take (add32 (align_up_size nb 4) sizeof_block) fl = Some (r, fl')"
  shows "\<exists>h'. kmalloc h nb = Some (Ret (h', fst r + 8)) \<and> heap_inv h' fl' (insert r al) \<and> r \<notin> al \<and> nb + 8 \<le> snd r"
proof -
  define bs where "bs = add32 (align_up_size nb 4) sizeof_block"
  have bs: "nb + 8 \<le> bs" "bs \<le> nb + 11" using block_size_bounds [OF assms(2) bs_def] by auto
  have "8 \<le> bs" "bs + 16 < 4294967296" using bs assms(2) by (simp_all add: PAGE_SIZE_def)
  then obtain h' prev cur where h': "kmalloc_search h bs 0 (kh_free_blocks h) = Some (Some (prev, cur))"
      "kmalloc_take h bs prev cur = (h', fst r + 8)" "heap_inv h' fl' (insert r al)" "bs \<le> snd r" "\<forall>x \<in> al. apart r x"
    using kmalloc_take_spec [OF assms(1), of bs r fl'] assms(3) bs_def by blast
  have "region_ok r" using heap_inv_alloc(1) [OF h'(3)] by blast
  then have "r \<notin> al" using h'(5) apart_self by blast
  moreover have "kmalloc h nb = Some (Ret (h', fst r + 8))"
    using h'(1,2) by (simp add: kmalloc_def Let_def bs_def [symmetric])
  ultimately show ?thesis using h'(3,4) bs(1) by auto
qed

text \<open>A heap with the free blocks 16 to 48 and 128 to 256, and the allocated block 48 to 64.\<close>

definition small_heap :: kheap where
  "small_heap = demo_heap\<lparr>kh_free_blocks := 16, kh_bytes_free := 160, kh_bytes_allocated := 16,
     kh_blocks := (\<lambda>_. \<lparr>kb_size = 0, kb_next = 0\<rparr>)
       (16 := \<lparr>kb_size = 32, kb_next = 128\<rparr>, 128 := \<lparr>kb_size = 128, kb_next = 0\<rparr>, 48 := \<lparr>kb_size = 16, kb_next = 0\<rparr>)\<rparr>"

lemma small_heap_inv: "heap_inv small_heap [(16, 32), (128, 128)] {(48, 16)}"
  by (simp add: heap_inv_def small_heap_def free_chain_def spaced_def region_ok_def apart_def blk_size_def blk_next_def
      total_size_def)

theorem kmalloc_is_first_fit_witness:
  "\<exists>h'. kmalloc small_heap 40 = Some (Ret (h', 136)) \<and> heap_inv h' [(16, 32), (176, 80)] {(128, 48), (48, 16)}"
proof -
  have "free_take (add32 (align_up_size 40 4) sizeof_block) [(16, 32), (128, 128)] = Some ((128, 48), [(16, 32), (176, 80)])"
    by (simp add: align_up_size_def align_up_def sizeof_block_def add32_def)
  then show ?thesis using kmalloc_is_first_fit [OF small_heap_inv, of 40 "(128, 48)"] by (auto simp: PAGE_SIZE_def)
qed

text \<open>
  C18. Freeing an allocated block always succeeds and refines the insertion into the sorted list of free
  blocks, in which the block is merged with the neighbours it touches; the list stays sorted with no two
  blocks adjacent, it covers the bytes it covered and those of the freed block, and the other allocated blocks
  are untouched.
\<close>

theorem kmfree_refines_insert:
  assumes "heap_inv h fl al" "(a, s) \<in> al"
  shows "\<exists>h'. kmfree h (a + 8) = Some (Ret h') \<and> heap_inv h' (free_insert (a, s) fl) (al - {(a, s)}) \<and>
           spaced (free_insert (a, s) fl) \<and> lbytes (free_insert (a, s) fl) = rbytes (a, s) \<union> lbytes fl"
proof -
  have "spaced fl" using assms(1) by (simp add: heap_inv_def)
  then show ?thesis
    using kmfree_spec [OF assms] free_insert_correct [of fl a s] heap_inv_alloc(1,4) [OF assms] by blast
qed

theorem kmfree_refines_insert_witness:
  "\<exists>h'. kmfree small_heap 56 = Some (Ret h') \<and> heap_inv h' [(16, 48), (128, 128)] {}"
  using kmfree_refines_insert [OF small_heap_inv, of 48 16] by auto

text \<open>
  C35. A double free is not always detected: when the block is the only one in the free list, its \<^verbatim>\<open>next\<close> is
  \<^verbatim>\<open>NULL\<close>, both checks pass, and the block is linked to itself. A later allocation that does not fit
  into this block never returns.
\<close>

theorem kmfree_double_free_undetected:
  assumes "heap_inv h [(a, s)] al" "s < add32 (align_up_size nb 4) sizeof_block"
  shows "\<exists>h'. kmfree h (a + 8) = Some (Ret h') \<and> blk_next h' a = a \<and> kmalloc h' nb = None"
proof -
  have ch: "kh_free_blocks h = a" "a \<noteq> 0" "blk_size h a = s" "blk_next h a = 0" and ok: "8 \<le> s" "a + s < 4294967296"
    using assms(1) by (auto simp: heap_inv_def free_chain_def spaced_def region_ok_def)
  define h1 where "h1 = h\<lparr>kh_bytes_free := add32 (kh_bytes_free h) s, kh_bytes_allocated := sub32 (kh_bytes_allocated h) s\<rparr>"
  have h1: "blk_size h1 x = blk_size h x" "blk_next h1 x = blk_next h x" "kh_free_blocks h1 = a" for x
    using ch by (simp_all add: h1_def blk_size_def blk_next_def)
  let ?h' = "kmfree_insert h1 a 0 a"
  have "sub32 (a + 8) sizeof_block = a" using ok by (simp add: sizeof_block_def c_arith)
  then have "kmfree h (a + 8) = kmfree_loop h1 a 0 a" using ch by (simp add: kmfree_def Let_def h1_def)
  also have "\<dots> = Some (Ret ?h')"
    using ch ok h1 by (subst kmfree_loop.simps) (simp add: add32_id)
  finally have run: "kmfree h (a + 8) = Some (Ret ?h')" .
  have e: "blk_next ?h' a = a" "blk_size ?h' a = s" "kh_free_blocks ?h' = a"
    using ch ok h1 by (simp_all add: kmfree_insert_def Let_def link_after_def add32_id)
  have "kmalloc_search g bs q c = Some y \<Longrightarrow> \<not> (g = ?h' \<and> c = a \<and> s < bs)" for g bs q c y
    by (erule kmalloc_search.raw_induct [rotated]) (use ch(2) e in \<open>auto split: if_splits\<close>)
  then have "kmalloc_search ?h' bs 0 a = None" if "s < bs" for bs using that by (metis option.exhaust)
  then have "kmalloc ?h' nb = None" using assms(2) e(3) by (simp add: kmalloc_def Let_def)
  then show ?thesis using run e(1) by blast
qed

definition lone_heap :: kheap where
  "lone_heap = demo_heap\<lparr>kh_free_blocks := 16, kh_bytes_free := 32,
     kh_blocks := (\<lambda>_. \<lparr>kb_size = 0, kb_next = 0\<rparr>)(16 := \<lparr>kb_size = 32, kb_next = 0\<rparr>)\<rparr>"

theorem kmfree_double_free_undetected_witness:
  "\<exists>h'. kmfree lone_heap 24 = Some (Ret h') \<and> kmalloc h' 100 = None"
proof -
  have "heap_inv lone_heap [(16, 32)] {}"
    by (simp add: heap_inv_def lone_heap_def demo_heap_def free_chain_def spaced_def region_ok_def blk_size_def blk_next_def
        total_size_def)
  moreover have "32 < add32 (align_up_size 100 4) sizeof_block"
    by (simp add: align_up_size_def align_up_def sizeof_block_def add32_def)
  ultimately show ?thesis using kmfree_double_free_undetected [of lone_heap 16 32 "{}" 100] by auto
qed

text \<open>
  Compaction passes the number of pages where \<^verbatim>\<open>page_free\<close> expects bytes: with fewer than 4096 pages
  nothing is released, although the block leaves the free list.
\<close>

lemma page_free_below_page: "nb < PAGE_SIZE \<Longrightarrow> page_free_from t ptr nb is = Some t' \<Longrightarrow> t' = t"
  by (induction "is") (auto simp: page_block_free_def pages_of_def split: if_splits)

text \<open>A size near the top of the range wraps around to a block that holds nothing but its header.\<close>

lemma kmalloc_size_wraps: "add32 (align_up_size 4294967293 4) sizeof_block = 8"
  by (simp add: align_up_size_def align_up_def sizeof_block_def add32_def)

end
