(* ===== verification/Libc_String.thy ===== *)
theory Libc_String
  imports Kernel_Prelude "HOL-Library.Monad_Syntax" "HOL-Library.Sublist"
begin

text \<open>
  The string functions of \<^verbatim>\<open>src/libc/common/string\<close>.

  A pointer into an object is the list of the bytes from the pointer to the end of the object, so that
  \<^verbatim>\<open>*p\<close> is the head and \<^verbatim>\<open>p++\<close> is the tail; a read or write at the end of the object is \<open>None\<close>. A function
  that writes returns the new bytes from its destination on. A pointer that is returned is the offset
  from the argument, \<open>None\<close> inside the result being \<^verbatim>\<open>NULL\<close>. Source and destination are different objects.
  A \<^verbatim>\<open>char\<close> is a signed byte: \<open>sint\<close> reads it.
\<close>

section \<open>Memory\<close>

fun memcmp :: "u8 list \<Rightarrow> u8 list \<Rightarrow> nat \<Rightarrow> int option" where
  "memcmp ptr1 ptr2 0 = Some 0"
| "memcmp (a # ptr1) (b # ptr2) (Suc num) =
     (let data = a - b
      in if data \<noteq> 0 then Some (if sint data < 0 then -1 else 1) else memcmp ptr1 ptr2 num)"
| "memcmp _ _ (Suc num) = None"

fun memcpy :: "u8 list \<Rightarrow> u8 list \<Rightarrow> nat \<Rightarrow> u8 list option" where
  "memcpy dest src 0 = Some dest"
| "memcpy (d # dest) (s # src) (Suc num) = map_option ((#) s) (memcpy dest src num)"
| "memcpy _ _ (Suc num) = None"

fun memset :: "u8 list \<Rightarrow> int \<Rightarrow> nat \<Rightarrow> u8 list option" where
  "memset dest value 0 = Some dest"
| "memset (d # dest) value (Suc num) = map_option ((#) (word_of_int value)) (memset dest value num)"
| "memset [] value (Suc num) = None"

section \<open>Length and copying\<close>

fun strlen_loop :: "u8 list \<Rightarrow> nat \<Rightarrow> nat option" where
  "strlen_loop (c # str) i = (if c \<noteq> 0 then strlen_loop str (i + 1) else Some i)"
| "strlen_loop [] i = None"

definition strlen :: "u8 list \<Rightarrow> nat option" where
  "strlen str = strlen_loop str 0"

fun strnlen_loop :: "u8 list \<Rightarrow> nat \<Rightarrow> nat \<Rightarrow> nat option" where
  "strnlen_loop (c # str) maxlen i =
     (if i < maxlen then if c \<noteq> 0 then strnlen_loop str maxlen (i + 1) else Some i else Some i)"
| "strnlen_loop [] maxlen i = (if i < maxlen then None else Some i)"

definition strnlen :: "u8 list \<Rightarrow> nat \<Rightarrow> nat option" where
  "strnlen str maxlen = strnlen_loop str maxlen 0"

fun strcpy :: "u8 list \<Rightarrow> u8 list \<Rightarrow> u8 list option" where
  "strcpy (d # dest) (s # src) =
     (if s \<noteq> 0 then map_option ((#) s) (strcpy dest src) else Some (0 # dest))"
| "strcpy _ _ = None"

fun strncpy :: "u8 list \<Rightarrow> u8 list \<Rightarrow> nat \<Rightarrow> u8 list option" where
  "strncpy dest src 0 = Some dest"
| "strncpy (d # dest) (s # src) (Suc n) =
     (if s \<noteq> 0 then map_option ((#) s) (strncpy dest src n)
      else map_option ((#) 0) (strncpy dest (s # src) n))"
| "strncpy _ _ (Suc n) = None"

text \<open>Both appending functions run to the terminator of \<^verbatim>\<open>dest\<close> first.\<close>

fun strcat :: "u8 list \<Rightarrow> u8 list \<Rightarrow> u8 list option" where
  "strcat (d # dest) src =
     (if d \<noteq> 0 then map_option ((#) d) (strcat dest src) else strcpy (d # dest) src)"
| "strcat [] src = None"

fun strncat_copy :: "u8 list \<Rightarrow> u8 list \<Rightarrow> nat \<Rightarrow> u8 list option" where
  "strncat_copy dest (s # src) n =
     (if s \<noteq> 0 \<and> n > 0
      then case dest of [] \<Rightarrow> None | d # dest' \<Rightarrow> map_option ((#) s) (strncat_copy dest' src (n - 1))
      else if n > 0 then (case dest of [] \<Rightarrow> None | d # dest' \<Rightarrow> Some (0 # dest'))
      else Some dest)"
| "strncat_copy dest [] n = None"

fun strncat :: "u8 list \<Rightarrow> u8 list \<Rightarrow> nat \<Rightarrow> u8 list option" where
  "strncat (d # dest) src n =
     (if d \<noteq> 0 then map_option ((#) d) (strncat dest src n) else strncat_copy (d # dest) src n)"
| "strncat [] src n = None"

section \<open>Comparison\<close>

fun strcmp :: "u8 list \<Rightarrow> u8 list \<Rightarrow> int option" where
  "strcmp (a # str1) (b # str2) =
     (if sint a > sint b then Some 1
      else if sint a < sint b then Some (-1)
      else if a = b \<and> a = 0 then Some 0
      else strcmp str1 str2)"
| "strcmp _ _ = None"

fun strncmp :: "u8 list \<Rightarrow> u8 list \<Rightarrow> nat \<Rightarrow> int option" where
  "strncmp str1 str2 0 = Some 0"
| "strncmp (a # str1) (b # str2) (Suc n) =
     (if sint a > sint b then Some 1
      else if sint a < sint b then Some (-1)
      else if a = b \<and> a = 0 then Some 0
      else strncmp str1 str2 n)"
| "strncmp _ _ (Suc n) = None"

section \<open>Searching\<close>

fun strchr_loop :: "u8 list \<Rightarrow> int \<Rightarrow> nat \<Rightarrow> nat option option" where
  "strchr_loop (c # str) ch i =
     (if c \<noteq> 0 then if sint c = ch then Some (Some i) else strchr_loop str ch (i + 1) else Some None)"
| "strchr_loop [] ch i = None"

definition strchr :: "u8 list \<Rightarrow> int \<Rightarrow> nat option option" where
  "strchr str ch = strchr_loop str ch 0"

fun strrchr_loop :: "u8 list \<Rightarrow> int \<Rightarrow> nat \<Rightarrow> nat option \<Rightarrow> nat option option" where
  "strrchr_loop (c # str) ch i pos =
     (if c \<noteq> 0 then strrchr_loop str ch (i + 1) (if sint c = ch then Some i else pos) else Some pos)"
| "strrchr_loop [] ch i pos = None"

definition strrchr :: "u8 list \<Rightarrow> int \<Rightarrow> nat option option" where
  "strrchr str ch = strrchr_loop str ch 0 None"

fun search :: "u8 list \<Rightarrow> u8 \<Rightarrow> bool option" where
  "search (c # str2) ch = (if c \<noteq> 0 then if c = ch then Some True else search str2 ch else Some False)"
| "search [] ch = None"

fun strcspn_loop :: "u8 list \<Rightarrow> u8 list \<Rightarrow> nat \<Rightarrow> nat option" where
  "strcspn_loop (c # str1) str2 i =
     (if c \<noteq> 0
      then do { found \<leftarrow> search str2 c; if found then Some i else strcspn_loop str1 str2 (i + 1) }
      else Some i)"
| "strcspn_loop [] str2 i = None"

definition strcspn :: "u8 list \<Rightarrow> u8 list \<Rightarrow> nat option" where
  "strcspn str1 str2 = strcspn_loop str1 str2 0"

fun strspn_loop :: "u8 list \<Rightarrow> u8 list \<Rightarrow> nat \<Rightarrow> nat option" where
  "strspn_loop (c # str1) str2 i =
     (if c \<noteq> 0
      then do { found \<leftarrow> search str2 c; if \<not> found then Some i else strspn_loop str1 str2 (i + 1) }
      else Some i)"
| "strspn_loop [] str2 i = None"

definition strspn :: "u8 list \<Rightarrow> u8 list \<Rightarrow> nat option" where
  "strspn str1 str2 = strspn_loop str1 str2 0"

fun str_compare :: "u8 list \<Rightarrow> u8 list \<Rightarrow> bool option" where
  "str_compare (a # str1) str2 =
     (if a = 0 then Some True
      else case str2 of [] \<Rightarrow> None
           | b # str2' \<Rightarrow>
               if b = 0 then Some True else if a \<noteq> b then Some False else str_compare str1 str2')"
| "str_compare [] str2 = None"

fun strstr_loop :: "u8 list \<Rightarrow> u8 list \<Rightarrow> nat \<Rightarrow> nat option option" where
  "strstr_loop (c # str1) str2 i =
     (if c \<noteq> 0
      then do { r \<leftarrow> str_compare (c # str1) str2; if r then Some (Some i) else strstr_loop str1 str2 (i + 1) }
      else Some None)"
| "strstr_loop [] str2 i = None"

definition strstr :: "u8 list \<Rightarrow> u8 list \<Rightarrow> nat option option" where
  "strstr str1 str2 = strstr_loop str1 str2 0"

section \<open>C strings\<close>

text \<open>The object \<open>p\<close> holds the string \<open>xs\<close> and behind its terminator the bytes \<open>r\<close>.\<close>

definition cstr :: "u8 list \<Rightarrow> u8 list \<Rightarrow> u8 list \<Rightarrow> bool" where
  "cstr p xs r \<longleftrightarrow> 0 \<notin> set xs \<and> p = xs @ 0 # r"

lemma cstr_cases:
  assumes "cstr p xs r"
  obtains "xs = []" "p = 0 # r"
  | x ys q where "xs = x # ys" "p = x # q" "x \<noteq> 0" "cstr q ys r"
  using assms by (cases xs) (auto simp: cstr_def)

lemma cstr_ConsE:
  assumes "cstr p (x # xs) r"
  obtains q where "p = x # q" "x \<noteq> 0" "cstr q xs r"
  using assms by (auto simp: cstr_def)

lemma cstr_NilI [intro]: "cstr (0 # r) [] r"
  by (simp add: cstr_def)

lemma cstr_Cons [simp]: "cstr (x # q) (y # ys) r \<longleftrightarrow> x = y \<and> x \<noteq> 0 \<and> cstr q ys r"
  by (auto simp: cstr_def)

lemma cstr_Nil [simp]: "cstr p [] r \<longleftrightarrow> p = 0 # r"
  by (simp add: cstr_def)

text \<open>A string is unique, so that what is proved of it is a fact about the object.\<close>

lemma cstr_unique: "cstr p xs r \<Longrightarrow> cstr p ys s \<Longrightarrow> xs = ys \<and> r = s"
proof (induction xs arbitrary: p ys)
  case (Cons x xs)
  then show ?case by (cases ys) (auto simp: cstr_def)
qed (auto simp: cstr_def Cons_eq_append_conv)


section \<open>What the functions compute\<close>

lemma strlen_loop_eq: "cstr p xs r \<Longrightarrow> strlen_loop p i = Some (i + length xs)"
  by (induction xs arbitrary: p i) (auto elim: cstr_cases)

lemma strlen_eq: "cstr p xs r \<Longrightarrow> strlen p = Some (length xs)"
  by (simp add: strlen_def strlen_loop_eq)

lemma strnlen_loop_eq:
  "cstr p xs r \<Longrightarrow> i \<le> maxlen \<Longrightarrow> strnlen_loop p maxlen i = Some (min maxlen (i + length xs))"
  by (induction xs arbitrary: p i) (auto elim: cstr_cases)

lemma strnlen_eq: "cstr p xs r \<Longrightarrow> strnlen p maxlen = Some (min maxlen (length xs))"
  by (simp add: strnlen_def strnlen_loop_eq)

lemma memcpy_eq:
  "memcpy dest src n =
     (if n \<le> length dest \<and> n \<le> length src then Some (take n src @ drop n dest) else None)"
  by (induction dest src n rule: memcpy.induct) auto

lemma memset_eq:
  "memset dest v n = (if n \<le> length dest then Some (replicate n (word_of_int v) @ drop n dest) else None)"
  by (induction dest v n rule: memset.induct) auto

lemma strcpy_eq:
  "cstr p xs r \<Longrightarrow>
     strcpy dest p = (if length xs < length dest then Some (xs @ 0 # drop (Suc (length xs)) dest) else None)"
proof (induction xs arbitrary: p dest)
  case Nil
  then show ?case by (cases dest) auto
next
  case (Cons x xs)
  then show ?case by (cases dest) (auto elim: cstr_cases)
qed

lemma strcat_eq:
  "cstr dest ds free \<Longrightarrow> cstr p xs r \<Longrightarrow>
     strcat dest p = (if length xs \<le> length free then Some (ds @ xs @ 0 # drop (length xs) free) else None)"
  by (induction ds arbitrary: dest) (auto simp: strcpy_eq elim: cstr_cases)

lemma strncpy_eq:
  "cstr p xs r \<Longrightarrow>
     strncpy dest p n =
       (if n \<le> length dest then Some (take n (xs @ replicate (n - length xs) 0) @ drop n dest) else None)"
proof (induction n arbitrary: p xs dest)
  case (Suc n)
  show ?case using Suc.prems
  proof (cases rule: cstr_cases)
    case 1
    then show ?thesis using Suc.IH [of p xs] Suc.prems by (cases dest) auto
  next
    case (2 x ys q)
    then show ?thesis using Suc.IH [of q ys] by (cases dest) auto
  qed
qed simp

lemma strncat_copy_eq:
  "cstr p xs r \<Longrightarrow> length dest > n \<Longrightarrow>
     strncat_copy dest p n =
       Some (take n (xs @ [0]) @ drop (min n (Suc (length xs))) dest)"
proof (induction xs arbitrary: p dest n)
  case Nil
  then show ?case by (cases dest; cases n) auto
next
  case (Cons x xs)
  then show ?case by (cases dest; cases n) (auto elim: cstr_cases)
qed

lemma strncat_eq:
  "cstr dest ds free \<Longrightarrow> cstr p xs r \<Longrightarrow> n \<le> length free \<Longrightarrow>
     strncat dest p n = Some (ds @ take n (xs @ [0]) @ drop (min n (Suc (length xs))) (0 # free))"
  by (induction ds arbitrary: dest) (auto simp: strncat_copy_eq elim: cstr_cases)

text \<open>
  C21. The copying functions on a string \<open>xs\<close> and a destination that holds the string \<open>ds\<close> and \<open>free\<close> more bytes:
  the length is that of the string, \<^verbatim>\<open>strcpy\<close> and \<^verbatim>\<open>strcat\<close> stay inside the destination exactly when the
  result and its terminator fit, and then leave exactly the string or the two strings joined; \<^verbatim>\<open>strncpy\<close>
  writes exactly \<open>n\<close> bytes, padded with zeros.
\<close>

theorem string_copies_correct:
  assumes "cstr src xs r" "cstr dest ds free"
  shows "strlen src = Some (length xs) \<and>
    strcpy dest src = (if length xs < length dest then Some (xs @ 0 # drop (Suc (length xs)) dest) else None) \<and>
    strcat dest src = (if length xs \<le> length free then Some (ds @ xs @ 0 # drop (length xs) free) else None) \<and>
    strncpy dest src n =
      (if n \<le> length dest then Some (take n (xs @ replicate (n - length xs) 0) @ drop n dest) else None)"
  using strlen_eq [OF assms(1)] strcpy_eq [OF assms(1)] strcat_eq [OF assms(2,1)] strncpy_eq [OF assms(1)] by simp

theorem string_copies_correct_witness:
  "strcat [65, 0, 7, 7] [66, 67, 0] = Some [65, 66, 67, 0] \<and> strcat [65, 0, 7] [66, 67, 0] = None"
  using string_copies_correct [of "[66, 67, 0]" "[66, 67]" "[]" "[65, 0, 7, 7]" "[65]" "[7, 7]" 0]
    string_copies_correct [of "[66, 67, 0]" "[66, 67]" "[]" "[65, 0, 7]" "[65]" "[7]" 0]
  by (simp add: cstr_def)

text \<open>When the string does not fit into \<open>n\<close> bytes, neither \<^verbatim>\<open>strncpy\<close> nor \<^verbatim>\<open>strncat\<close> terminates the result.\<close>

lemma strncat_unterminated: "strncat [65, 0, 7, 7] [66, 67, 0] 2 = Some [65, 66, 67, 7]"
  using strncat_eq [of "[65, 0, 7, 7]" "[65]" "[7, 7]" "[66, 67, 0]" "[66, 67]" "[]" 2] by (simp add: cstr_def)

section \<open>Comparison\<close>

text \<open>The order of strings: lexicographic on signed bytes, the terminator included.\<close>

definition str_less :: "u8 list \<Rightarrow> u8 list \<Rightarrow> bool" where
  "str_less xs ys \<longleftrightarrow> ord_class.lexordp (map sint (xs @ [0])) (map sint (ys @ [0]))"

lemma sint_inj [simp]: "sint a = sint b \<longleftrightarrow> a = b" for a b :: u8
  by (auto intro: signed_word_eqI)

lemma sint_eq_0 [simp]: "sint a = 0 \<longleftrightarrow> a = 0" for a :: u8
  using sint_inj [of a 0] by (simp del: sint_inj)

lemma sint_neq_0: "a \<noteq> 0 \<Longrightarrow> sint a < 0 \<or> 0 < sint a" for a :: u8
  using sint_eq_0 [of a] by linarith

lemma strcmp_Cons:
  "strcmp (a # p) (b # q) =
     (if a = b then if a = 0 then Some 0 else strcmp p q else Some (if sint a < sint b then -1 else 1))"
  by auto

lemma strcmp_eq:
  "cstr p xs r \<Longrightarrow> cstr q ys s \<Longrightarrow>
     strcmp p q = Some (if xs = ys then 0 else if str_less xs ys then -1 else 1)"
proof (induction xs arbitrary: p q ys)
  case Nil
  show ?case using Nil.prems(2)
  proof (cases rule: cstr_cases)
    case 1
    then show ?thesis using Nil by simp
  next
    case (2 y zs t)
    then show ?thesis using Nil sint_neq_0 [of y] by (auto simp: strcmp_Cons str_less_def simp del: strcmp.simps)
  qed
next
  case (Cons x xs)
  then obtain p' where p: "p = x # p'" "x \<noteq> 0" "cstr p' xs r" by (auto elim: cstr_cases)
  show ?case using Cons.prems(2)
  proof (cases rule: cstr_cases)
    case 1
    then show ?thesis using p sint_neq_0 [of x] by (auto simp: strcmp_Cons str_less_def simp del: strcmp.simps)
  next
    case (2 y zs t)
    then show ?thesis using p Cons.IH [OF p(3) 2(4)] by (auto simp: strcmp_Cons str_less_def simp del: strcmp.simps)
  qed
qed

lemma strncmp_strcmp:
  "cstr p xs r \<Longrightarrow> cstr q ys s \<Longrightarrow> length xs < n \<or> length ys < n \<Longrightarrow> strncmp p q n = strcmp p q"
proof (induction n arbitrary: p q xs ys)
  case (Suc n)
  show ?case using Suc.prems(1)
  proof (cases rule: cstr_cases)
    case 1
    moreover obtain b t where "q = b # t" using Suc.prems(2) by (cases ys) (auto simp: cstr_def)
    ultimately show ?thesis using sint_neq_0 [of b] by auto
  next
    case (2 x xs' p')
    show ?thesis using Suc.prems(2)
    proof (cases rule: cstr_cases)
      case (2 y ys' q')
      then show ?thesis using Suc.IH [of p' xs' q' ys'] Suc.prems(3) \<open>xs = x # xs'\<close> \<open>p = x # p'\<close> \<open>cstr p' xs' r\<close>
        by auto
    qed (use 2 in auto)
  qed
qed simp



text \<open>Bytes from 128 on are before the terminator, so that a string can be before its own prefixes.\<close>

lemma strcmp_high_bytes: "strcmp [97, 200, 0] [97, 0] = Some (-1)"
  by simp

lemma memcmp_zero:
  "n \<le> length p \<Longrightarrow> n \<le> length q \<Longrightarrow> memcmp p q n = Some 0 \<longleftrightarrow> take n p = take n q"
  by (induction p q n rule: memcmp.induct) (auto simp: Let_def)

text \<open>The sign of \<^verbatim>\<open>memcmp\<close> is that of the difference of two bytes stored into a \<^verbatim>\<open>char\<close>.\<close>

lemma memcmp_sign_wrong: "memcmp [200] [10] (Suc 0) = Some (-1)"
  by simp

section \<open>Searching\<close>

lemma search_eq: "cstr q ys s \<Longrightarrow> search q c = Some (c \<in> set ys)"
  by (induction ys arbitrary: q) (auto elim: cstr_cases)

lemma strspn_loop_eq:
  "cstr p xs r \<Longrightarrow> cstr q ys s \<Longrightarrow> strspn_loop p q i = Some (i + length (takeWhile (\<lambda>c. c \<in> set ys) xs))"
  by (induction xs arbitrary: p i) (auto simp: search_eq elim: cstr_cases)

lemma strcspn_loop_eq:
  "cstr p xs r \<Longrightarrow> cstr q ys s \<Longrightarrow> strcspn_loop p q i = Some (i + length (takeWhile (\<lambda>c. c \<notin> set ys) xs))"
  by (induction xs arbitrary: p i) (auto simp: search_eq elim: cstr_cases)

lemma find_upt_Suc: "find P [0..<Suc n] = (if P 0 then Some 0 else map_option Suc (find (\<lambda>i. P (Suc i)) [0..<n]))"
proof -
  have "[0..<Suc n] = 0 # map Suc [0..<n]" by (simp add: map_Suc_upt upt_conv_Cons del: upt_Suc)
  moreover have "find P (map Suc js) = map_option Suc (find (\<lambda>i. P (Suc i)) js)" for js
    by (induction js) auto
  ultimately show ?thesis by (simp del: upt_Suc)
qed

lemma map_option_Suc_add [simp]:
  "map_option (\<lambda>a. Suc (i + a)) z = map_option ((+) (Suc i)) z"
  "map_option ((+) i) (map_option Suc z) = map_option ((+) (Suc i)) z"
  by (cases z; simp)+

lemma strchr_loop_eq:
  "cstr p xs r \<Longrightarrow> strchr_loop p ch i = Some (map_option ((+) i) (find (\<lambda>j. sint (xs ! j) = ch) [0..<length xs]))"
proof (induction xs arbitrary: p i)
  case (Cons x xs)
  show ?case using Cons by (auto simp: find_upt_Suc simp del: upt_Suc elim!: cstr_ConsE)
qed simp

lemma strrchr_loop_eq:
  "cstr p xs r \<Longrightarrow>
     strrchr_loop p ch i pos =
       Some (case find (\<lambda>j. sint (xs ! j) = ch) (rev [0..<length xs]) of None \<Rightarrow> pos | Some j \<Rightarrow> Some (i + j))"
proof (induction xs arbitrary: p i pos)
  case (Cons x xs)
  have f: "find P (rev (map Suc js) @ [0]) =
      (case find (\<lambda>j. P (Suc j)) (rev js) of None \<Rightarrow> if P 0 then Some 0 else None | Some j \<Rightarrow> Some (Suc j))" for P js
    by (induction js rule: rev_induct) auto
  have "rev [0..<Suc (length xs)] = rev (map Suc [0..<length xs]) @ [0]"
    by (simp add: map_Suc_upt upt_conv_Cons del: upt_Suc)
  with Cons show ?case by (auto simp: f simp del: upt_Suc elim!: cstr_ConsE split: option.splits)
qed simp

text \<open>A comparison succeeds where one of the two strings is a prefix of the other.\<close>

lemma str_compare_eq: "cstr p xs r \<Longrightarrow> cstr q ys s \<Longrightarrow> str_compare p q = Some (prefix xs ys \<or> prefix ys xs)"
proof (induction xs arbitrary: p q ys)
  case (Cons x xs)
  show ?case using Cons.prems(2)
  proof (cases rule: cstr_cases)
    case 1
    then show ?thesis using Cons.prems(1) by (auto elim: cstr_cases)
  next
    case (2 y zs t)
    then show ?thesis using Cons.prems(1) Cons.IH by (auto elim!: cstr_ConsE)
  qed
qed simp

lemma strstr_loop_eq:
  "cstr p xs r \<Longrightarrow> cstr q ys s \<Longrightarrow>
     strstr_loop p q i =
       Some (map_option ((+) i) (find (\<lambda>j. prefix (drop j xs) ys \<or> prefix ys (drop j xs)) [0..<length xs]))"
proof (induction xs arbitrary: p i)
  case (Cons x xs)
  then obtain p' where p: "p = x # p'" "x \<noteq> 0" "cstr p' xs r" by (auto elim: cstr_cases)
  have c: "str_compare (x # p') q = Some (prefix (x # xs) ys \<or> prefix ys (x # xs))"
    using str_compare_eq [OF Cons.prems] p by simp
  show ?case using Cons.IH [OF p(3) Cons.prems(2)] p c by (auto simp: find_upt_Suc simp del: upt_Suc)
qed simp

text \<open>
  The searching functions on two strings: \<^verbatim>\<open>strchr\<close> and \<^verbatim>\<open>strrchr\<close> return the first and the last
  position of a character in the string or \<^verbatim>\<open>NULL\<close>, \<^verbatim>\<open>strspn\<close> and \<^verbatim>\<open>strcspn\<close> the length of the
  longest prefix made of characters inside and outside the second string.
\<close>

theorem string_searches_correct:
  assumes "cstr p xs r" "cstr q ys s"
  shows "strchr p ch = Some (find (\<lambda>j. sint (xs ! j) = ch) [0..<length xs]) \<and>
    strrchr p ch = Some (find (\<lambda>j. sint (xs ! j) = ch) (rev [0..<length xs])) \<and>
    strspn p q = Some (length (takeWhile (\<lambda>c. c \<in> set ys) xs)) \<and>
    strcspn p q = Some (length (takeWhile (\<lambda>c. c \<notin> set ys) xs))"
proof -
  have "map_option ((+) 0) z = z" "(case z of None \<Rightarrow> None | Some j \<Rightarrow> Some (0 + j)) = z" for z :: "nat option"
    by (cases z; simp)+
  then show ?thesis
    using strchr_loop_eq [OF assms(1), of ch 0] strrchr_loop_eq [OF assms(1), of ch 0 None]
      strspn_loop_eq [OF assms, of 0] strcspn_loop_eq [OF assms, of 0]
    by (simp add: strchr_def strrchr_def strspn_def strcspn_def)
qed

theorem string_searches_correct_witness:
  "strrchr [47, 97, 47, 98, 0] 47 = Some (Some 2) \<and> strcspn [97, 98, 47, 0] [47, 0] = Some 2"
  using string_searches_correct [of "[47, 97, 47, 98, 0]" "[47, 97, 47, 98]" "[]" "[47, 0]" "[47]" "[]" 47]
    string_searches_correct [of "[97, 98, 47, 0]" "[97, 98, 47]" "[]" "[47, 0]" "[47]" "[]" 47]
  by (simp add: cstr_def upt_rec)

text \<open>
  \<^verbatim>\<open>strstr\<close> returns the first position at which the second string starts in the first one or at which
  the rest of the first string is a prefix of the second; so it reports a match that is cut off by the
  end of the first string, where the C library reports none.
\<close>

theorem strstr_accepts_cut_off_match:
  assumes "cstr p xs r" "cstr q ys s"
  shows "strstr p q = Some (find (\<lambda>j. prefix ys (drop j xs) \<or> prefix (drop j xs) ys) [0..<length xs]) \<and>
    strstr [97, 98, 0] [98, 99, 0] = Some (Some 1)"
proof -
  have "map_option ((+) 0) z = z" for z :: "nat option" by (cases z; simp)
  then show ?thesis using strstr_loop_eq [OF assms, of 0] by (simp add: strstr_def disj_commute)
qed

theorem strstr_accepts_cut_off_match_witness:
  "strstr [97, 98, 99, 0] [98, 99, 0] = Some (Some 1)"
  using strstr_accepts_cut_off_match [of "[97, 98, 99, 0]" "[97, 98, 99]" "[]" "[98, 99, 0]" "[98, 99]" "[]"]
  by (simp add: cstr_def upt_rec)

end
