(* ===== verification/Libc_Stdlib.thy ===== *)
theory Libc_Stdlib
  imports Kernel_Prelude "HOL-Library.Monad_Syntax"
begin

text \<open>
  Character classes, number conversion and the random number generator of the C library
  (\<^verbatim>\<open>src/libc/common/ctype\<close>, \<^verbatim>\<open>stdlib\<close>), and \<^verbatim>\<open>inet_aton\<close> of \<^verbatim>\<open>net\<close>.

  Strings are lists of bytes from the pointer to the end of the object, as in the theory of the string
  functions, and a read or a write outside the object is \<open>None\<close>. A buffer that is written by index is
  the list of its bytes. A signed \<^verbatim>\<open>int\<close> that is computed modulo \<open>2 ^ 32\<close> is kept as its 32 bits.
\<close>

section \<open>Character classes\<close>

definition isalnum :: "int \<Rightarrow> bool" where
  "isalnum c \<longleftrightarrow> (c \<ge> 65 \<and> c \<le> 90) \<or> (c \<ge> 97 \<and> c \<le> 122) \<or> (c \<ge> 48 \<and> c \<le> 57)"

definition isalpha :: "int \<Rightarrow> bool" where
  "isalpha c \<longleftrightarrow> (c \<ge> 97 \<and> c \<le> 122) \<or> (c \<ge> 65 \<and> c \<le> 90)"

definition iscntrl :: "int \<Rightarrow> bool" where
  "iscntrl c \<longleftrightarrow> c \<ge> 0x00 \<and> c \<le> 0x1F"

definition isdigit :: "int \<Rightarrow> bool" where
  "isdigit c \<longleftrightarrow> c \<ge> 48 \<and> c \<le> 57"

definition isgraph :: "int \<Rightarrow> bool" where
  "isgraph c \<longleftrightarrow> c \<ge> 0x21 \<and> c \<le> 0x7f"

definition islower :: "int \<Rightarrow> bool" where
  "islower c \<longleftrightarrow> c \<ge> 97 \<and> c \<le> 122"

definition isprint :: "int \<Rightarrow> bool" where
  "isprint c \<longleftrightarrow> c \<ge> 0x20 \<and> c \<le> 0x7f"

definition ispunct :: "int \<Rightarrow> bool" where
  "ispunct c \<longleftrightarrow>
     (c \<ge> 0x21 \<and> c \<le> 0x2f) \<or> (c \<ge> 0x3a \<and> c \<le> 0x40) \<or> (c \<ge> 0x5b \<and> c \<le> 0x60) \<or> (c \<ge> 0x7b \<and> c \<le> 0x7e)"

definition isspace :: "int \<Rightarrow> bool" where
  "isspace c \<longleftrightarrow> c = 32 \<or> c = 9 \<or> (c \<ge> 10 \<and> c \<le> 13)"

definition isupper :: "int \<Rightarrow> bool" where
  "isupper c \<longleftrightarrow> c \<ge> 65 \<and> c \<le> 90"

definition isxdigit :: "int \<Rightarrow> bool" where
  "isxdigit c \<longleftrightarrow> (c \<ge> 48 \<and> c \<le> 57) \<or> (c \<ge> 97 \<and> c \<le> 102) \<or> (c \<ge> 65 \<and> c \<le> 70)"

definition tolower :: "int \<Rightarrow> int" where
  "tolower c = (if c \<ge> 65 \<and> c \<le> 90 then c + 0x20 else c)"

definition toupper :: "int \<Rightarrow> int" where
  "toupper c = (if c \<ge> 97 \<and> c \<le> 122 then c - 0x20 else c)"

lemmas ctype_defs = isalnum_def isalpha_def iscntrl_def isdigit_def isgraph_def islower_def isprint_def ispunct_def
  isspace_def isupper_def isxdigit_def tolower_def toupper_def

section \<open>Reading numbers\<close>

fun skip_white :: "u8 list \<Rightarrow> u8 list option" where
  "skip_white (c # str) = (if c = 32 \<or> c = 10 \<or> c = 9 \<or> c = 13 then skip_white str else Some (c # str))"
| "skip_white [] = None"

fun atoi_loop :: "u8 list \<Rightarrow> u32 \<Rightarrow> u32 option" where
  "atoi_loop (c # str) num =
     (if sint c \<ge> 48 \<and> sint c \<le> 57 then atoi_loop str (num * 10 + word_of_int (sint c - 48)) else Some num)"
| "atoi_loop [] num = None"

definition atoi :: "u8 list \<Rightarrow> int option" where
  "atoi str = do {
     str \<leftarrow> skip_white str;
     let (sign, str) = (if hd str = 45 then (-1, tl str) else (1, str));
     num \<leftarrow> atoi_loop str 0;
     Some (sint (num * sign)) }"

definition strtol_digit :: "u8 \<Rightarrow> int \<Rightarrow> int" where
  "strtol_digit c base =
     (if sint c \<ge> 48 \<and> sint c \<le> 57 then sint c - 48
      else if sint c \<ge> 65 \<and> sint c \<le> 90 then sint c - 65 + 10
      else if sint c \<ge> 97 \<and> sint c \<le> 122 then sint c - 97 + 10
      else sint (word_of_int base :: u8))"

fun strtol_loop :: "u8 list \<Rightarrow> int \<Rightarrow> u32 \<Rightarrow> (u32 \<times> u8 list) option" where
  "strtol_loop (c # str) base num =
     (let b = strtol_digit c base
      in if b \<ge> base then Some (num, c # str)
         else strtol_loop str base (num * word_of_int base + word_of_int b))"
| "strtol_loop [] base num = None"

text \<open>The result is the number and the pointer stored into \<^verbatim>\<open>endptr\<close>.\<close>

definition strtol :: "u8 list \<Rightarrow> int \<Rightarrow> (int \<times> u8 list) option" where
  "strtol str base = do {
     str \<leftarrow> skip_white str;
     (sign, base, str) \<leftarrow>
       (if hd str = 45 then Some (-1, base, tl str)
        else if hd str = 48
        then (case tl str of [] \<Rightarrow> None
              | c # str' \<Rightarrow> if c = 120 then Some (1, 16, str') else Some (1, 8, c # str'))
        else Some (1, base, str));
     (num, str) \<leftarrow> strtol_loop str base 0;
     Some (sint (num * sign), str) }"

section \<open>Printing numbers\<close>

function itoa_digits :: "u32 \<Rightarrow> u8 list \<Rightarrow> u32 \<Rightarrow> nat \<Rightarrow> (u8 list \<times> nat) option" where
  "itoa_digits num buffer radix i =
     (if radix = 0 \<or> \<not> i < length buffer then None
      else let c = ucast (num mod radix) + 48;
               c = (if sint c > 57 then c + 0x07 else c);
               buffer = buffer[i := c];
               num = num div radix
           in if num > 0 then itoa_digits num buffer radix (i + 1) else Some (buffer, i + 1))"
  by pat_completeness auto
termination
  by (relation "measure (\<lambda>(num, buffer, radix, i). length buffer - i)") auto

declare itoa_digits.simps [simp del]

definition store_byte :: "u8 list \<Rightarrow> nat \<Rightarrow> u8 \<Rightarrow> u8 list option" where
  "store_byte buffer i c = (if i < length buffer then Some (buffer[i := c]) else None)"

function itoa_pad :: "u8 list \<Rightarrow> nat \<Rightarrow> int \<Rightarrow> bool \<Rightarrow> (u8 list \<times> nat) option" where
  "itoa_pad buffer i width zeropad =
     (if int i < width
      then do { buffer \<leftarrow> store_byte buffer i (if zeropad then 48 else 32); itoa_pad buffer (i + 1) width zeropad }
      else Some (buffer, i))"
  by pat_completeness auto
termination
  by (relation "measure (\<lambda>(buffer, i, width, zeropad). nat (width - int i))") auto

declare itoa_pad.simps [simp del]

text \<open>Both indices are inside the part that has been written.\<close>

function itoa_reverse :: "u8 list \<Rightarrow> nat \<Rightarrow> nat \<Rightarrow> u8 list" where
  "itoa_reverse buffer j i =
     (if j < i then itoa_reverse (buffer[j := buffer ! i, i := buffer ! j]) (j + 1) (i - 1) else buffer)"
  by pat_completeness auto
termination
  by (relation "measure (\<lambda>(buffer, j, i). i - j)") auto

declare itoa_reverse.simps [simp del]

definition itoa_padded :: "u32 \<Rightarrow> u8 list \<Rightarrow> int \<Rightarrow> int \<Rightarrow> bool \<Rightarrow> bool \<Rightarrow> u8 list option" where
  "itoa_padded num buffer radix width zeropad is_signed = do {
     let (sign, num) = (if is_signed \<and> sint num < 0 then (True, - num) else (False, num));
     (buffer, i) \<leftarrow> itoa_digits num buffer (word_of_int radix) 0;
     (buffer, i) \<leftarrow> (if sign then map_option (\<lambda>b. (b, i + 1)) (store_byte buffer i 45) else Some (buffer, i));
     (buffer, i) \<leftarrow> itoa_pad buffer i width zeropad;
     buffer \<leftarrow> store_byte buffer i 0;
     Some (itoa_reverse buffer 0 (i - 1)) }"

definition itoa :: "u32 \<Rightarrow> u8 list \<Rightarrow> int \<Rightarrow> u8 list option" where
  "itoa num buffer radix = itoa_padded num buffer radix 0 False (radix = 10)"

section \<open>Random numbers\<close>

definition srand :: "u32 \<Rightarrow> u32" where
  "srand seed = seed"

definition RAND_MAX :: u32 where "RAND_MAX = 0x7FFF"

definition rand :: "u32 \<Rightarrow> int \<times> u32" where
  "rand rand_next =
     (let rand_next = rand_next * 1103515245 + 12345
      in (sint (drop_bit 16 rand_next AND RAND_MAX), rand_next))"

section \<open>Internet addresses\<close>

text \<open>The address is stored into the object only on success; the first result is what the function returns.\<close>

fun inet_aton_loop :: "nat \<Rightarrow> u8 list \<Rightarrow> u32 \<Rightarrow> u32 option option" where
  "inet_aton_loop 0 str addr = Some (Some addr)"
| "inet_aton_loop (Suc k) str addr = do {
     let addr = push_bit 8 addr;
     (octet, endptr) \<leftarrow> strtol str 10;
     if octet < 0 \<or> octet > 255 then Some None
     else do {
       let addr = addr OR word_of_int (octet AND 0xFF);
       case endptr of [] \<Rightarrow> None
       | c # str' \<Rightarrow>
           if c = 0 then Some (Some addr)
           else if c \<noteq> 46 then Some None
           else inet_aton_loop k str' addr } }"

definition inet_aton :: "u8 list \<Rightarrow> u32 \<Rightarrow> (int \<times> u32) option" where
  "inet_aton str s_addr = do {
     r \<leftarrow> inet_aton_loop 4 str 0;
     Some (case r of None \<Rightarrow> (0, s_addr) | Some addr \<Rightarrow> (1, addr)) }"

section \<open>Properties of the character classes\<close>

text \<open>
  C24. On the 128 characters of ASCII the classes fit together as the C library defines them, with one
  exception: the delete character counts as printing and not as a control character. Every character
  is a control or a printing character and none is both; the printing ones are the blank, the letters,
  the digits, the punctuation and delete; and the case conversions exchange the two classes of letters
  and undo each other.
\<close>

theorem ctype_classes:
  assumes "0 \<le> c" "c < 128"
  shows "(iscntrl c \<longleftrightarrow> \<not> isprint c) \<and> (isprint c \<longleftrightarrow> c = 32 \<or> isgraph c) \<and>
    (isgraph c \<longleftrightarrow> isalnum c \<or> ispunct c \<or> c = 127) \<and> (isalnum c \<longleftrightarrow> isalpha c \<or> isdigit c) \<and>
    (isalpha c \<longleftrightarrow> isupper c \<or> islower c) \<and> \<not> (isalnum c \<and> ispunct c) \<and> (isdigit c \<longrightarrow> isxdigit c) \<and>
    (isupper c \<longrightarrow> islower (tolower c) \<and> toupper (tolower c) = c) \<and>
    (islower c \<longrightarrow> isupper (toupper c) \<and> tolower (toupper c) = c)"
  using assms by (auto simp: ctype_defs)

theorem ctype_classes_witness: "isprint 127 \<and> \<not> iscntrl 127 \<and> toupper (tolower 65) = 65"
  using ctype_classes [of 127] ctype_classes [of 65] by (simp add: ctype_defs)

section \<open>Numerals\<close>

text \<open>The digits of a number, the lowest first, and the characters that stand for them.\<close>

function digits_rev :: "nat \<Rightarrow> nat \<Rightarrow> nat list" where
  "digits_rev r n = (if n < r \<or> r < 2 then [n] else n mod r # digits_rev r (n div r))"
  by pat_completeness auto
termination
  by (relation "measure snd") (auto intro: div_less_dividend)

declare digits_rev.simps [simp del]

definition digit_char :: "nat \<Rightarrow> u8" where
  "digit_char d = (if d < 10 then of_nat (48 + d) else of_nat (55 + d))"

lemma digits_rev_not_Nil [simp]: "digits_rev r n \<noteq> []"
  by (subst digits_rev.simps) simp

lemma digits_rev_less: "2 \<le> r \<Longrightarrow> d \<in> set (digits_rev r n) \<Longrightarrow> d < r"
  by (induction r n rule: digits_rev.induct) (subst (asm) (2) digits_rev.simps, auto split: if_splits)

lemma digits_rev_value: "2 \<le> r \<Longrightarrow> foldr (\<lambda>d n. n * r + d) (digits_rev r n) 0 = n"
proof (induction r n rule: digits_rev.induct)
  case (1 r n)
  show ?case using 1 by (subst digits_rev.simps) auto
qed

text \<open>Only the number zero has a leading zero.\<close>

lemma digits_rev_last: "2 \<le> r \<Longrightarrow> last (digits_rev r n) = 0 \<Longrightarrow> n = 0"
proof (induction r n rule: digits_rev.induct)
  case (1 r n)
  show ?case
  proof (cases "n < r")
    case True
    then show ?thesis using 1(3) by (subst (asm) digits_rev.simps) simp
  next
    case False
    then have "last (digits_rev r (n div r)) = 0" using 1(2,3) by (subst (asm) digits_rev.simps) simp
    then have "n div r = 0" using 1(1,2) False by simp
    then show ?thesis using False 1(2) by (simp add: div_eq_0_iff)
  qed
qed

lemma sint_of_nat_u8: "n < 128 \<Longrightarrow> sint (of_nat n :: u8) = int n"
  by (simp add: signed_of_nat signed_take_bit_int_eq_self)

lemma digit_char_correct:
  assumes "d < 36"
  shows "(let c = of_nat d + 48 :: u8 in if sint c > 57 then c + 7 else c) = digit_char d"
proof -
  have c: "of_nat d + 48 = (of_nat (48 + d) :: u8)" by simp
  have "sint (of_nat (48 + d) :: u8) = int (48 + d)" by (rule sint_of_nat_u8) (use assms in simp)
  then show ?thesis unfolding c digit_char_def by (auto simp: Let_def)
qed

lemma itoa_digits_step:
  assumes "2 \<le> unat radix" "unat radix \<le> 36" "i < length buffer"
  shows "itoa_digits num buffer radix i =
    (let b = buffer[i := digit_char (unat num mod unat radix)]
     in if unat num < unat radix then Some (b, i + 1) else itoa_digits (num div radix) b radix (i + 1))"
proof -
  let ?r = "unat radix" and ?n = "unat num"
  have pos: "radix \<noteq> 0" using assms(1) by auto
  have "?n mod ?r < ?r" using assms(1) by simp
  then have d: "?n mod ?r < 36" using assms(2) by linarith
  have "ucast (num mod radix) = (of_nat (?n mod ?r) :: u8)" by (metis of_nat_unat unat_mod)
  then have c: "(let c = ucast (num mod radix) + 48 :: u8 in if sint c > 57 then c + 7 else c) = digit_char (?n mod ?r)"
    using digit_char_correct [OF d] by simp
  have n: "0 < num div radix \<longleftrightarrow> \<not> ?n < ?r"
    using assms(1) by (simp add: word_less_nat_alt unat_div div_greater_zero_iff not_less)
  show ?thesis
    by (subst itoa_digits.simps) (use c n pos assms(3) in \<open>simp add: Let_def\<close>)
qed

lemma itoa_digits_eq:
  assumes "2 \<le> unat radix" "unat radix \<le> 36"
  shows "i + length (digits_rev (unat radix) (unat num)) \<le> length buffer \<Longrightarrow>
    itoa_digits num buffer radix i =
      Some (overwrite i (map digit_char (digits_rev (unat radix) (unat num))) buffer,
            i + length (digits_rev (unat radix) (unat num)))"
proof (induction "unat num" arbitrary: num buffer i rule: less_induct)
  case less
  let ?r = "unat radix" and ?n = "unat num"
  have len: "i < length buffer" using less(2) by (cases "digits_rev ?r ?n") auto
  note step = itoa_digits_step [OF assms len, of num]
  show ?case
  proof (cases "?n < ?r")
    case True
    then have "digits_rev ?r ?n = [?n]" by (subst digits_rev.simps) simp
    then show ?thesis using step True len by (simp add: overwrite_Cons)
  next
    case False
    then have ds: "digits_rev ?r ?n = ?n mod ?r # digits_rev ?r (?n div ?r)"
      using assms(1) by (subst digits_rev.simps) simp
    have "unat (num div radix) < ?n" using False assms(1) by (simp add: unat_div)
    then show ?thesis
      using less(1) [of "num div radix" "Suc i" "buffer[i := digit_char (?n mod ?r)]"] less(2) step False len
      by (simp add: ds unat_div overwrite_Cons)
  qed
qed

lemma itoa_pad_eq:
  "max i (nat width) \<le> length buffer \<Longrightarrow>
     itoa_pad buffer i width zeropad =
       Some (overwrite i (replicate (nat width - i) (if zeropad then 48 else 32)) buffer, max i (nat width))"
proof (induction "nat width - i" arbitrary: buffer i)
  case 0
  then have "\<not> int i < width" by linarith
  then show ?case using 0 by (subst itoa_pad.simps) simp
next
  case (Suc k)
  then have lt: "int i < width" "i < length buffer" "k = nat width - Suc i" by linarith+
  have "nat width - i = Suc (nat width - Suc i)" using Suc(2) lt by linarith
  moreover define c :: u8 where "c = (if zeropad then 48 else 32)"
  moreover have "max i (nat width) = nat width" "max (Suc i) (nat width) = nat width" using lt by linarith+
  ultimately show ?case using Suc(1) [of "Suc i" "buffer[i := c]"] Suc(3) lt
    by (subst itoa_pad.simps) (simp add: store_byte_def overwrite_Cons c_def [symmetric] del: max.bounded_iff)
qed

lemma itoa_reverse_eq: "itoa_reverse (xs @ ys @ zs) (length xs) (length xs + length ys - 1) = xs @ rev ys @ zs"
proof (induction "length ys" arbitrary: xs ys zs rule: less_induct)
  case less
  show ?case
  proof (cases "length ys < 2")
    case True
    then have "rev ys = ys" by (cases ys rule: list.exhaust; cases "tl ys") auto
    then show ?thesis using True by (subst itoa_reverse.simps) auto
  next
    case False
    then obtain a m b where ys: "ys = a # m @ [b]"
      by (metis One_nat_def append_butlast_last_id last_ConsL length_Cons less_2_cases_iff list.exhaust list.size(3))
    have "itoa_reverse (xs @ ys @ zs) (length xs) (length xs + length ys - 1) =
      itoa_reverse (xs @ b # m @ a # zs) (Suc (length xs)) (length xs + length m)"
      by (subst itoa_reverse.simps) (simp add: ys nth_append list_update_append)
    also have "\<dots> = itoa_reverse ((xs @ [b]) @ m @ (a # zs)) (length (xs @ [b])) (length (xs @ [b]) + length m - 1)"
      by simp
    also have "\<dots> = (xs @ [b]) @ rev m @ (a # zs)" by (rule less) (simp add: ys)
    finally show ?thesis by (simp add: ys)
  qed
qed

text \<open>The text of a number: the padding comes before the sign.\<close>

definition itoa_text :: "u32 \<Rightarrow> nat \<Rightarrow> int \<Rightarrow> bool \<Rightarrow> bool \<Rightarrow> u8 list" where
  "itoa_text num radix width zeropad is_signed =
     (let neg = (is_signed \<and> sint num < 0);
          body = (if neg then [45] else []) @ map digit_char (rev (digits_rev radix (unat (if neg then - num else num))))
      in replicate (nat width - length body) (if zeropad then 48 else 32) @ body)"

lemma store_byte_overwrite:
  "length ys < length buffer \<Longrightarrow> store_byte (overwrite 0 ys buffer) (length ys) c = Some (overwrite 0 (ys @ [c]) buffer)"
  by (simp add: store_byte_def overwrite_def list_update_append Cons_nth_drop_Suc [symmetric])

lemma itoa_padded_eq:
  assumes r: "2 \<le> radix" "radix \<le> 36"
    and len: "length (itoa_text num (nat radix) width zeropad is_signed) < length buffer"
  shows "itoa_padded num buffer radix width zeropad is_signed =
    Some (itoa_text num (nat radix) width zeropad is_signed @
          0 # drop (Suc (length (itoa_text num (nat radix) width zeropad is_signed))) buffer)"
proof -
  define neg where "neg = (is_signed \<and> sint num < 0)"
  define m where "m = (if neg then - num else num)"
  define ds where "ds = map digit_char (digits_rev (nat radix) (unat m))"
  define sg where "sg = (if neg then [45 :: u8] else [])"
  define c :: u8 where "c = (if zeropad then 48 else 32)"
  define pad where "pad = replicate (nat width - length (ds @ sg)) c"
  define t where "t = itoa_text num (nat radix) width zeropad is_signed"
  have rt: "t = rev (ds @ sg @ pad)"
    by (simp add: t_def itoa_text_def Let_def neg_def m_def ds_def sg_def pad_def c_def rev_map)
  have ln: "length (ds @ sg @ pad) < length buffer" using len unfolding t_def [symmetric] rt by simp
  have ur: "unat (word_of_int radix :: u32) = nat radix" using r by (simp add: unsigned_of_int take_bit_int_eq_self)
  have d: "itoa_digits m buffer (word_of_int radix) 0 = Some (overwrite 0 ds buffer, length ds)"
    using itoa_digits_eq [of "word_of_int radix" 0 m buffer] r ln by (simp add: ur ds_def)
  have s: "(if neg then map_option (\<lambda>b. (b, length ds + 1)) (store_byte (overwrite 0 ds buffer) (length ds) 45)
      else Some (overwrite 0 ds buffer, length ds)) = Some (overwrite 0 (ds @ sg) buffer, length (ds @ sg))"
    using ln by (simp add: sg_def store_byte_overwrite)
  have mx: "max (length (ds @ sg)) (nat width) = length (ds @ sg @ pad)" by (simp add: pad_def)
  have p: "itoa_pad (overwrite 0 (ds @ sg) buffer) (length (ds @ sg)) width zeropad =
      Some (overwrite 0 (ds @ sg @ pad) buffer, length (ds @ sg @ pad))"
  proof -
    have l: "length (ds @ sg) \<le> length buffer" "length (overwrite 0 (ds @ sg) buffer) = length buffer"
      using ln by simp_all
    show ?thesis
      using itoa_pad_eq [of "length (ds @ sg)" width "overwrite 0 (ds @ sg) buffer" zeropad] ln l
        overwrite_overwrite [of 0 "ds @ sg" buffer pad]
      by (simp add: mx c_def [symmetric] pad_def [symmetric] del: length_append)
  qed
  have "overwrite 0 ((ds @ sg @ pad) @ [0]) buffer = [] @ (ds @ sg @ pad) @ 0 # drop (Suc (length t)) buffer"
    by (simp add: overwrite_def rt add_ac)
  then have rv: "itoa_reverse (overwrite 0 ((ds @ sg @ pad) @ [0]) buffer) 0 (length (ds @ sg @ pad) - 1) =
      t @ 0 # drop (Suc (length t)) buffer"
    using itoa_reverse_eq [of "[]" "ds @ sg @ pad" "0 # drop (Suc (length t)) buffer"] by (simp add: rt)
  have "(if neg then (True, - num) else (False, num)) = (neg, m)" by (simp add: m_def)
  then show ?thesis
    unfolding t_def [symmetric] itoa_padded_def neg_def [symmetric] Let_def
    by (simp only: prod.case d s p rv store_byte_overwrite [OF ln, of 0] Option.bind.bind_lunit)
qed

section \<open>Reading back\<close>

lemma sint_digit_char:
  "d < 36 \<Longrightarrow> sint (digit_char d) = (if d < 10 then 48 + int d else 55 + int d)"
  by (auto simp: digit_char_def sint_of_nat_u8 simp del: of_nat_add of_nat_numeral)

lemma digit_char_0: "digit_char 0 = 48"
  by (simp add: digit_char_def)

lemma digit_char_neq:
  "d < 36 \<Longrightarrow> digit_char d \<noteq> c \<or> sint c = (if d < 10 then 48 + int d else 55 + int d)"
  using sint_digit_char by auto

lemma strtol_digit_char: "d < 36 \<Longrightarrow> strtol_digit (digit_char d) base = int d"
  by (simp add: strtol_digit_def sint_digit_char)

lemma strtol_loop_digits:
  assumes "\<forall>d \<in> set ds. int d < base" "base \<le> 36" "strtol_digit c base \<ge> base"
  shows "strtol_loop (map digit_char ds @ c # rest) base num =
    Some (foldl (\<lambda>n d. n * word_of_int base + of_nat d) num ds, c # rest)"
  using assms(1)
proof (induction ds arbitrary: num)
  case (Cons d ds)
  then have "strtol_digit (digit_char d) base = int d" using assms(2) by (intro strtol_digit_char) auto
  then show ?case using Cons by simp
qed (use assms(3) in simp)

lemma foldl_word:
  "foldl (\<lambda>n d. n * word_of_int (int r) + of_nat d) (of_nat k) ds = (of_nat (foldl (\<lambda>n d. n * r + d) k ds) :: u32)"
  by (induction ds arbitrary: k) (simp_all flip: of_nat_mult of_nat_add)

lemma digits_value_word:
  assumes "2 \<le> r"
  shows "foldl (\<lambda>n d. n * word_of_int (int r) + of_nat d) 0 (rev (digits_rev r (unat m))) = (m :: u32)"
  using digits_rev_value [OF assms, of "unat m"] foldl_word [of r 0 "rev (digits_rev r (unat m))"]
  by (simp add: foldl_conv_foldr)

text \<open>The terminator and the dot end a number in every base.\<close>

lemma strtol_digit_stop: "c = 0 \<or> c = 46 \<Longrightarrow> 2 \<le> r \<Longrightarrow> r \<le> 36 \<Longrightarrow> strtol_digit c r = r"
  by (auto simp: strtol_digit_def signed_of_int signed_take_bit_int_eq_self)

lemma strtol_loop_text:
  assumes "2 \<le> r" "r \<le> 36" "c = 0 \<or> c = 46"
  shows "strtol_loop (map digit_char (rev (digits_rev r (unat m))) @ c # rest) (int r) 0 = Some (m, c # rest)"
proof -
  have "strtol_digit c (int r) = int r" by (rule strtol_digit_stop) (use assms in auto)
  moreover have "\<forall>d \<in> set (rev (digits_rev r (unat m))). int d < int r" using digits_rev_less [OF assms(1)] by simp
  ultimately show ?thesis
    using strtol_loop_digits [of "rev (digits_rev r (unat m))" "int r" c rest 0] assms digits_value_word [OF assms(1), of m]
    by simp
qed

lemma atoi_loop_strtol_loop:
  "strtol_loop str 10 num = Some (n, 0 # rest) \<Longrightarrow> atoi_loop str num = Some n"
proof (induction str arbitrary: num)
  case (Cons c str)
  then show ?case by (auto simp: Let_def strtol_digit_def split: if_splits)
qed simp

lemma digit_char_special:
  assumes "d < 36"
  shows "digit_char d \<noteq> 32" "digit_char d \<noteq> 10" "digit_char d \<noteq> 9" "digit_char d \<noteq> 13" "digit_char d \<noteq> 45"
    and "digit_char d = 48 \<longleftrightarrow> d = 0"
  using digit_char_neq [OF assms, of 32] digit_char_neq [OF assms, of 10] digit_char_neq [OF assms, of 9]
    digit_char_neq [OF assms, of 13] digit_char_neq [OF assms, of 45] digit_char_neq [OF assms, of 48] digit_char_0
  by (auto split: if_splits)

text \<open>The text of an unsigned number is read back as the number.\<close>

lemma read_unsigned:
  fixes m :: u32 and rest :: "u8 list"
  assumes "2 \<le> r" "r \<le> 36" "c = 0 \<or> c = 46"
  defines "str \<equiv> map digit_char (rev (digits_rev r (unat m))) @ c # rest"
  shows "strtol str (int r) = Some (sint m, c # rest)" "skip_white str = Some str" "hd str \<noteq> 45"
proof -
  obtain d ds where dd: "rev (digits_rev r (unat m)) = d # ds" by (cases "rev (digits_rev r (unat m))") auto
  have d: "d < r" "d = 0 \<Longrightarrow> unat m = 0"
    using digits_rev_less [OF assms(1), of d "unat m"] digits_rev_last [OF assms(1), of "unat m"]
      arg_cong [OF dd, of set] arg_cong [OF dd, of hd] by (auto simp: hd_rev)
  note sp = digit_char_special [of d]
  have str: "str = digit_char d # map digit_char ds @ c # rest" by (simp add: str_def dd)
  show "skip_white str = Some str" "hd str \<noteq> 45" using sp d(1) assms(2) by (simp_all add: str)
  moreover have "strtol_loop str (int r) 0 = Some (m, c # rest)" unfolding str_def by (rule strtol_loop_text [OF assms(1-3)])
  moreover have "hd str = 48 \<longleftrightarrow> d = 0" using sp(6) d(1) assms(2) by (simp add: str)
  moreover have "d = 0 \<Longrightarrow> str = [48] @ c # rest \<and> m = 0"
  proof -
    assume "d = 0"
    then have "unat m = 0" by (rule d(2))
    moreover from this have "digits_rev r (unat m) = [0]" using assms(1) by (subst digits_rev.simps) simp
    ultimately show ?thesis by (simp add: str_def digit_char_0 unat_eq_zero)
  qed
  moreover have "strtol_loop (c # rest) 8 0 = Some (0, c # rest)" "c \<noteq> 120"
    using strtol_digit_stop [of c 8] assms(3) by auto
  ultimately show "strtol str (int r) = Some (sint m, c # rest)"
    unfolding strtol_def by (cases "d = 0") simp_all
qed

lemma read_negative:
  fixes m :: u32 and rest :: "u8 list"
  defines "str \<equiv> map digit_char (rev (digits_rev 10 (unat m))) @ 0 # rest"
  shows "strtol (45 # str) 10 = Some (sint (- m), 0 # rest)"
  using strtol_loop_text [of 10 0 m rest] by (simp add: strtol_def str_def)

lemma digits_rev_length: "2 \<le> r \<Longrightarrow> n < 2 ^ k \<Longrightarrow> k > 0 \<Longrightarrow> length (digits_rev r n) \<le> k"
proof (induction r n arbitrary: k rule: digits_rev.induct)
  case (1 r n)
  show ?case
  proof (cases "n < r")
    case True
    then show ?thesis using 1(4) by (subst digits_rev.simps) simp
  next
    case False
    have "n div r \<le> n div 2" using 1(2) by (intro div_le_mono2) auto
    moreover have "n div 2 < 2 ^ (k - 1)" using 1(3,4) by (cases k) auto
    ultimately have lt: "n div r < 2 ^ (k - 1)" by linarith
    moreover have "0 < n div r" using False 1(2) by (simp add: div_greater_zero_iff)
    ultimately have "k - 1 > 0" by (cases "k - 1") auto
    then have "length (digits_rev r (n div r)) \<le> k - 1" using 1(1) False 1(2) lt by simp
    then show ?thesis using False 1(2) \<open>k - 1 > 0\<close> by (subst digits_rev.simps) simp
  qed
qed

lemma itoa_text_length: "2 \<le> r \<Longrightarrow> length (itoa_text num r 0 zeropad is_signed) \<le> 33"
  using digits_rev_length [of r "unat (- num)" 32] digits_rev_length [of r "unat num" 32]
    unsigned_less [of num, where ?'a = nat] unsigned_less [of "- num", where ?'a = nat]
  by (simp add: itoa_text_def Let_def)

text \<open>
  C23. Printing any 32 bit number in a base from 2 to 36 into a buffer of at least 34 bytes stays inside
  the buffer, and reading the text back in the same base gives the number, as a signed one, and stops at the
  terminator; in base 10 \<^verbatim>\<open>atoi\<close> reads the same number.
\<close>

theorem itoa_strtol_roundtrip:
  assumes "2 \<le> radix" "radix \<le> 36" "34 \<le> length buffer"
  shows "\<exists>t rest. itoa num buffer radix = Some (t @ 0 # rest) \<and> length (t @ 0 # rest) = length buffer \<and>
    strtol (t @ 0 # rest) radix = Some (sint num, 0 # rest) \<and>
    (radix = 10 \<longrightarrow> atoi (t @ 0 # rest) = Some (sint num))"
proof -
  define r where "r = nat radix"
  define t where "t = itoa_text num r 0 False (radix = 10)"
  define rest where "rest = drop (Suc (length t)) buffer"
  have r: "2 \<le> r" "r \<le> 36" "radix = int r" using assms by (auto simp: r_def)
  have len: "length t < length buffer" using itoa_text_length [OF r(1), of num False "radix = 10"] assms(3) unfolding t_def by linarith
  have 1: "itoa num buffer radix = Some (t @ 0 # rest)"
    using itoa_padded_eq [OF assms(1,2), of num 0 False "radix = 10" buffer] len
    by (simp add: itoa_def t_def rest_def r_def)
  have 2: "length (t @ 0 # rest) = length buffer" using len by (simp add: rest_def)
  have 3: "strtol (t @ 0 # rest) radix = Some (sint num, 0 # rest) \<and>
      (radix = 10 \<longrightarrow> atoi (t @ 0 # rest) = Some (sint num))"
  proof (cases "radix = 10 \<and> sint num < 0")
    case True
    then have "t = 45 # map digit_char (rev (digits_rev 10 (unat (- num))))"
      by (simp add: t_def itoa_text_def r_def)
    then show ?thesis
      using True read_negative [of "- num" rest] atoi_loop_strtol_loop [OF strtol_loop_text [of 10 0 "- num" rest, simplified]]
      by (simp add: atoi_def)
  next
    case False
    then have tt: "t = map digit_char (rev (digits_rev r (unat num)))"
      by (auto simp: t_def itoa_text_def)
    note rd = read_unsigned [OF r(1,2), of 0 num rest, folded tt, simplified]
    have "radix = 10 \<Longrightarrow> atoi_loop (t @ 0 # rest) 0 = Some num"
      using atoi_loop_strtol_loop strtol_loop_text [OF r(1,2), of 0 num rest] r(3) by (simp add: tt)
    then show ?thesis using rd r(3) by (simp add: atoi_def)
  qed
  show ?thesis using 1 2 3 by blast
qed

theorem itoa_strtol_roundtrip_witness:
  "\<exists>t rest. itoa 4294967291 (replicate 34 0) 10 = Some (t @ 0 # rest) \<and> atoi (t @ 0 # rest) = Some (- 5)"
  using itoa_strtol_roundtrip [of 10 "replicate 34 0" 4294967291] by auto

end
