(* ===== verification/Libc_Format.thy ===== *)
theory Libc_Format
  imports Libc_String Libc_Stdlib
begin

text \<open>
  Formatted output of the C library: \<^verbatim>\<open>vsnprintf\<close> and its callers in \<^verbatim>\<open>src/libc/common/stdio\<close>, and
  \<^verbatim>\<open>inet_ntoa\<close> of \<^verbatim>\<open>src/libc/common/net\<close>.

  The arguments behind the format are a list; fetching one with another type than it was passed with is
  undefined and gives \<open>None\<close>. The index \<^verbatim>\<open>j\<close> into the format is the rest of the format from there.
\<close>

section \<open>Arguments and conversion specifications\<close>

datatype varg = Arg_int u32 | Arg_llong u64 | Arg_str "u8 list"

fun va_arg_int :: "varg list \<Rightarrow> (u32 \<times> varg list) option" where
  "va_arg_int (Arg_int d # args) = Some (d, args)"
| "va_arg_int _ = None"

fun va_arg_llong :: "varg list \<Rightarrow> (u64 \<times> varg list) option" where
  "va_arg_llong (Arg_llong d # args) = Some (d, args)"
| "va_arg_llong _ = None"

fun va_arg_str :: "varg list \<Rightarrow> (u8 list \<times> varg list) option" where
  "va_arg_str (Arg_str s # args) = Some (s, args)"
| "va_arg_str _ = None"

record conversion =
  cv_type :: u8
  cv_width :: int
  cv_zeropad :: bool
  cv_numprefix :: bool
  cv_length :: nat

fun parse_flags :: "u8 list \<Rightarrow> (bool \<times> bool \<times> u8 list) option" where
  "parse_flags (c # fmt) =
     Some (if c = 48 then (True, False, fmt) else if c = 35 then (False, True, fmt) else (False, False, c # fmt))"
| "parse_flags [] = None"

fun parse_width :: "u8 list \<Rightarrow> (int \<times> u8 list) option" where
  "parse_width (c # fmt) =
     (if isdigit (sint c)
      then do { (w, endptr) \<leftarrow> strtol (c # fmt) 10; Some (sint (word_of_int w :: u8), endptr) }
      else Some (0, c # fmt))"
| "parse_width [] = None"

fun parse_length :: "u8 list \<Rightarrow> (nat \<times> u8 list) option" where
  "parse_length (c # fmt) =
     (if c = 104
      then (case fmt of [] \<Rightarrow> None | c2 # fmt' \<Rightarrow> Some (if c2 = 104 then (1, fmt') else (2, fmt)))
      else if c = 108
      then (case fmt of [] \<Rightarrow> None | c2 # fmt' \<Rightarrow> Some (if c2 = 108 then (8, fmt') else (4, fmt)))
      else Some (4, c # fmt))"
| "parse_length [] = None"

definition parse_conversion :: "u8 list \<Rightarrow> (conversion \<times> u8 list) option" where
  "parse_conversion fmt = do {
     (zeropad, numprefix, fmt) \<leftarrow> parse_flags fmt;
     (width, fmt) \<leftarrow> parse_width fmt;
     (len, fmt) \<leftarrow> parse_length fmt;
     case fmt of [] \<Rightarrow> None
     | type # fmt \<Rightarrow> Some (\<lparr>cv_type = type, cv_width = width, cv_zeropad = zeropad, cv_numprefix = numprefix, cv_length = len\<rparr>, fmt) }"

section \<open>Output\<close>

definition fetch_number :: "nat \<Rightarrow> varg list \<Rightarrow> (u64 \<times> varg list) option" where
  "fetch_number len args =
     (if len \<le> 4 then map_option (\<lambda>(d, args). (ucast d, args)) (va_arg_int args) else va_arg_llong args)"

definition store_prefix :: "u8 list \<Rightarrow> nat \<Rightarrow> u8 \<Rightarrow> bool \<Rightarrow> u64 \<Rightarrow> (u8 list \<times> nat \<times> int) option" where
  "store_prefix buffer i type numprefix d =
     (if type = 120 \<or> type = 88 \<or> type = 112
      then if numprefix \<and> d \<noteq> 0
           then do { buffer \<leftarrow> store_byte buffer i 48; buffer \<leftarrow> store_byte buffer (i + 1) 120; Some (buffer, i + 2, 16) }
           else Some (buffer, i, 16)
      else if type = 111
      then if numprefix \<and> d \<noteq> 0 then do { buffer \<leftarrow> store_byte buffer i 48; Some (buffer, i + 1, 8) } else Some (buffer, i, 8)
      else Some (buffer, i, 10))"

text \<open>
  One conversion: the buffer, the index behind what has been stored, and the remaining arguments.
  \<^verbatim>\<open>&buffer[i]\<close> is the part of the buffer from \<open>i\<close> on.
\<close>

definition convert :: "conversion \<Rightarrow> nat \<Rightarrow> u8 list \<Rightarrow> nat \<Rightarrow> varg list \<Rightarrow> (u8 list \<times> nat \<times> varg list) option" where
  "convert cv n buffer i args =
     (let type = (if cv_type cv = 105 then 100 else cv_type cv)
      in if type = 115
         then do {
           (s, args) \<leftarrow> va_arg_str args;
           len \<leftarrow> strlen s;
           tail \<leftarrow> strncpy (drop i buffer) s (sub32 (sub32 n i) 1);
           Some (take i buffer @ tail, i + len, args) }
         else if type \<in> {112, 100, 117, 111, 120, 88}
         then do {
           (d, args) \<leftarrow> fetch_number (cv_length cv) args;
           (buffer, i, radix) \<leftarrow> store_prefix buffer i type (cv_numprefix cv) d;
           tail \<leftarrow> itoa_padded (ucast d) (drop i buffer) radix (cv_width cv) (cv_zeropad cv) (type = 100);
           len \<leftarrow> strlen tail;
           Some (take i buffer @ tail, i + len, args) }
         else if type = 99
         then do {
           (c, args) \<leftarrow> va_arg_int args;
           buffer \<leftarrow> store_byte buffer i (ucast c);
           Some (buffer, i + 1, args) }
         else Some (buffer, i, args))"

lemma strtol_loop_shrinks: "strtol_loop str base num = Some (k, str') \<Longrightarrow> length str' \<le> length str"
  by (induction str base num rule: strtol_loop.induct) (auto simp: Let_def split: if_splits)

lemma skip_white_shrinks: "skip_white str = Some str' \<Longrightarrow> length str' \<le> length str"
  by (induction str rule: skip_white.induct) (auto split: if_splits)

lemma tl_shrinks: "tl x = c # ys \<Longrightarrow> Suc (length ys) \<le> length x"
  by (cases x) auto

lemma strtol_shrinks: "strtol str base = Some (k, str') \<Longrightarrow> length str' \<le> length str"
  unfolding strtol_def
  by (auto simp del: strtol_loop.simps split: bind_splits if_splits list.splits
      dest!: tl_shrinks skip_white_shrinks strtol_loop_shrinks)

lemma parse_shrinks:
  "parse_flags fmt = Some (z, p, f) \<Longrightarrow> length f \<le> length fmt"
  "parse_width fmt = Some (w, f) \<Longrightarrow> length f \<le> length fmt"
  "parse_length fmt = Some (l, f) \<Longrightarrow> length f \<le> length fmt"
  by (cases fmt; auto split: if_splits bind_splits list.splits dest: strtol_shrinks)+

lemma parse_conversion_shrinks: "parse_conversion fmt = Some (cv, f) \<Longrightarrow> length f < length fmt"
  by (auto simp: parse_conversion_def split: bind_splits list.splits dest!: parse_shrinks)

function vsnprintf_loop :: "u8 list \<Rightarrow> nat \<Rightarrow> u8 list \<Rightarrow> nat \<Rightarrow> varg list \<Rightarrow> (u8 list \<times> nat) option" where
  "vsnprintf_loop buffer n fmt i args =
     (if i < sub32 n 1
      then case fmt of [] \<Rightarrow> None
           | c # fmt' \<Rightarrow>
               if c = 0 then Some (buffer, i)
               else if c = 37
               then (case parse_conversion fmt' of None \<Rightarrow> None
                     | Some (cv, fmt'') \<Rightarrow>
                         (case convert cv n buffer i args of None \<Rightarrow> None
                          | Some (buffer, i, args) \<Rightarrow> vsnprintf_loop buffer n fmt'' i args))
               else (case store_byte buffer i c of None \<Rightarrow> None
                     | Some buffer \<Rightarrow> vsnprintf_loop buffer n fmt' (i + 1) args)
      else Some (buffer, i))"
  by pat_completeness auto
termination
  by (relation "measure (\<lambda>(buffer, n, fmt, i, args). length fmt)") (auto dest: parse_conversion_shrinks)

declare vsnprintf_loop.simps [simp del]

definition vsnprintf :: "u8 list \<Rightarrow> nat \<Rightarrow> u8 list \<Rightarrow> varg list \<Rightarrow> (u8 list \<times> int) option" where
  "vsnprintf buffer n fmt args = do {
     (buffer, i) \<leftarrow> vsnprintf_loop buffer n fmt 0 args;
     buffer \<leftarrow> store_byte buffer i 0;
     Some (buffer, int i) }"

definition snprintf :: "u8 list \<Rightarrow> nat \<Rightarrow> u8 list \<Rightarrow> varg list \<Rightarrow> (u8 list \<times> int) option" where
  "snprintf buffer n fmt args = vsnprintf buffer n fmt args"

definition vsprintf :: "u8 list \<Rightarrow> u8 list \<Rightarrow> varg list \<Rightarrow> (u8 list \<times> int) option" where
  "vsprintf buffer fmt args = vsnprintf buffer 2048 fmt args"

definition sprintf :: "u8 list \<Rightarrow> u8 list \<Rightarrow> varg list \<Rightarrow> (u8 list \<times> int) option" where
  "sprintf buffer fmt args = vsprintf buffer fmt args"

text \<open>The static buffer is an argument; on the big endian target the first byte is the highest.\<close>

definition inet_ntoa :: "u8 list \<Rightarrow> u32 \<Rightarrow> u8 list option" where
  "inet_ntoa ipa s_addr =
     (let byte = (\<lambda>k. Arg_int (ucast (ucast (drop_bit k s_addr) :: u8)))
      in map_option fst
           (snprintf ipa 18 [37, 100, 46, 37, 100, 46, 37, 100, 46, 37, 100, 0] [byte 24, byte 16, byte 8, byte 0]))"

section \<open>The text a format stands for\<close>

text \<open>What a conversion and a format stand for, without a buffer and a limit.\<close>

definition render_prefix :: "u8 \<Rightarrow> bool \<Rightarrow> u64 \<Rightarrow> u8 list \<times> int" where
  "render_prefix type numprefix d =
     (if type = 120 \<or> type = 88 \<or> type = 112 then (if numprefix \<and> d \<noteq> 0 then [48, 120] else [], 16)
      else if type = 111 then (if numprefix \<and> d \<noteq> 0 then [48] else [], 8)
      else ([], 10))"

definition render_conversion :: "conversion \<Rightarrow> varg list \<Rightarrow> (u8 list \<times> varg list) option" where
  "render_conversion cv args =
     (let type = (if cv_type cv = 105 then 100 else cv_type cv)
      in if type = 115 then do { (s, args) \<leftarrow> va_arg_str args; len \<leftarrow> strlen s; Some (take len s, args) }
         else if type \<in> {112, 100, 117, 111, 120, 88}
         then do {
           (d, args) \<leftarrow> fetch_number (cv_length cv) args;
           let (prefix, radix) = render_prefix type (cv_numprefix cv) d;
           Some (prefix @ itoa_text (ucast d) (nat radix) (cv_width cv) (cv_zeropad cv) (type = 100), args) }
         else if type = 99 then do { (c, args) \<leftarrow> va_arg_int args; Some ([ucast c], args) }
         else Some ([], args))"

function render :: "u8 list \<Rightarrow> varg list \<Rightarrow> u8 list option" where
  "render fmt args =
     (case fmt of [] \<Rightarrow> None
      | c # fmt' \<Rightarrow>
          if c = 0 then Some []
          else if c = 37
          then (case parse_conversion fmt' of None \<Rightarrow> None
                | Some (cv, fmt'') \<Rightarrow>
                    (case render_conversion cv args of None \<Rightarrow> None
                     | Some (t, args) \<Rightarrow> map_option ((@) t) (render fmt'' args)))
          else map_option ((#) c) (render fmt' args))"
  by pat_completeness auto
termination
  by (relation "measure (\<lambda>(fmt, args). length fmt)") (auto dest: parse_conversion_shrinks)

declare render.simps [simp del]

lemma render_Nil: "render [] args = None"
  by (subst render.simps) simp

lemma render_Cons:
  "render (c # fmt) args =
     (if c = 0 then Some []
      else if c = 37
      then (case parse_conversion fmt of None \<Rightarrow> None
            | Some (cv, fmt') \<Rightarrow>
                (case render_conversion cv args of None \<Rightarrow> None
                 | Some (t, args) \<Rightarrow> map_option ((@) t) (render fmt' args)))
      else map_option ((#) c) (render fmt args))"
  by (subst render.simps) simp

lemma strlen_cstr: "strlen s = Some len \<Longrightarrow> \<exists>r. cstr s (take len s) r \<and> len < length s"
proof -
  have "strlen_loop s i = Some k \<Longrightarrow> \<exists>r. i \<le> k \<and> cstr s (take (k - i) s) r \<and> k - i < length s" for i k
  proof (induction s i rule: strlen_loop.induct)
    case (1 c str i)
    show ?case
    proof (cases "c = 0")
      case False
      then obtain r where r: "i + 1 \<le> k" "cstr str (take (k - (i + 1)) str) r" "k - (i + 1) < length str" using 1 by auto
      then have "k - i = Suc (k - (i + 1))" by simp
      then show ?thesis using r False by (auto simp del: One_nat_def)
    qed (use 1 in simp)
  qed simp
  from this [of 0 len] show "strlen s = Some len \<Longrightarrow> \<exists>r. cstr s (take len s) r \<and> len < length s" by (simp add: strlen_def)
qed

lemma itoa_text_no_zero:
  assumes "2 \<le> r" "r \<le> 36"
  shows "0 \<notin> set (itoa_text num r width zeropad is_signed)"
proof -
  have "digit_char d \<noteq> 0" if "d \<in> set (digits_rev r k)" for d k
    using digit_char_neq [of d 0] digits_rev_less [OF assms(1) that] assms(2) by (auto split: if_splits)
  then show ?thesis by (auto simp: itoa_text_def Let_def)
qed

lemma store_byte_take:
  assumes "i < length buffer"
  obtains b where "store_byte buffer i c = Some b" "length b = length buffer" "take (Suc i) b = take i buffer @ [c]"
  using assms that by (simp add: store_byte_def take_Suc_conv_app_nth)

lemma store_prefix_renders:
  assumes "render_prefix type np d = (pre, radix)" "i + length pre < length buffer"
  shows "\<exists>b. store_prefix buffer i type np d = Some (b, i + length pre, radix) \<and> length b = length buffer \<and>
    take (i + length pre) b = take i buffer @ pre \<and> 2 \<le> radix \<and> radix \<le> 36"
  using assms
  by (auto simp: render_prefix_def store_prefix_def store_byte_def take_Suc_conv_app_nth nth_list_update split: if_splits)

lemma convert_renders:
  assumes "render_conversion cv args = Some (t, args')" "i + length t < n" "n \<le> length buffer" "n < 4294967296"
  shows "\<exists>b. convert cv n buffer i args = Some (b, i + length t, args') \<and> length b = length buffer \<and>
    take (i + length t) b = take i buffer @ t"
proof -
  define type where "type = (if cv_type cv = 105 then 100 else cv_type cv)"
  have i: "i < length buffer" using assms(2,3) by linarith
  consider (s) "type = 115" | (num) "type \<noteq> 115" "type \<in> {112, 100, 117, 111, 120, 88}" | (c) "type = 99"
    | (other) "type \<noteq> 115" "type \<notin> {112, 100, 117, 111, 120, 88}" "type \<noteq> 99" by blast
  then show ?thesis
  proof cases
    case s
    then obtain s len where a: "va_arg_str args = Some (s, args')" "strlen s = Some len" "t = take len s"
      using assms(1) by (auto simp: render_conversion_def type_def [symmetric] Let_def split: bind_splits)
    then obtain r where r: "cstr s t r" "length t = len" using strlen_cstr by force
    have room: "sub32 (sub32 n i) 1 = n - i - 1" using assms(2,4) by (simp add: c_arith)
    have "strncpy (drop i buffer) s (n - i - 1) =
        Some (take (n - i - 1) (t @ replicate (n - i - 1 - length t) 0) @ drop (n - i - 1) (drop i buffer))"
      using strncpy_eq [OF r(1)] assms(2,3) by simp
    moreover have "take (n - i - 1) (t @ replicate (n - i - 1 - length t) 0) = t @ replicate (n - i - 1 - length t) 0"
      using assms(2) by simp
    ultimately show ?thesis using a r s i assms(2,3) room by (simp add: convert_def type_def [symmetric])
  next
    case num
    then obtain d pre radix where a: "fetch_number (cv_length cv) args = Some (d, args')"
        "render_prefix type (cv_numprefix cv) d = (pre, radix)"
        "t = pre @ itoa_text (ucast d) (nat radix) (cv_width cv) (cv_zeropad cv) (type = 100)"
      using assms(1) by (auto simp: render_conversion_def type_def [symmetric] Let_def split: bind_splits prod.splits)
    define tx where "tx = itoa_text (ucast d) (nat radix) (cv_width cv) (cv_zeropad cv) (type = 100)"
    obtain b where b: "store_prefix buffer i type (cv_numprefix cv) d = Some (b, i + length pre, radix)"
        "length b = length buffer" "take (i + length pre) b = take i buffer @ pre" "2 \<le> radix" "radix \<le> 36"
      using store_prefix_renders [OF a(2), of i buffer] a(3) assms(2,3) by auto
    have it: "itoa_padded (ucast d) (drop (i + length pre) b) radix (cv_width cv) (cv_zeropad cv) (type = 100) =
        Some (tx @ 0 # drop (Suc (length tx)) (drop (i + length pre) b))"
      unfolding tx_def by (rule itoa_padded_eq) (use b a(3) assms(2,3) in auto)
    have "cstr (tx @ 0 # drop (Suc (length tx)) (drop (i + length pre) b)) tx (drop (Suc (length tx)) (drop (i + length pre) b))"
      using itoa_text_no_zero [of "nat radix"] b(4,5) by (simp add: cstr_def tx_def)
    note sl = strlen_eq [OF this]
    have "convert cv n buffer i args =
        Some (take (i + length pre) b @ tx @ 0 # drop (Suc (length tx)) (drop (i + length pre) b), i + length pre + length tx, args')"
      using num a(1) b(1) it sl by (simp add: convert_def type_def [symmetric])
    then show ?thesis using a(3) b(2,3) assms(2,3) by (simp add: tx_def [symmetric])
  next
    case c
    then obtain w where a: "va_arg_int args = Some (w, args')" "t = [ucast w]"
      using assms(1) by (auto simp: render_conversion_def type_def [symmetric] Let_def split: bind_splits)
    then show ?thesis using c i by (simp add: convert_def type_def [symmetric] store_byte_def take_Suc_conv_app_nth)
  next
    case other
    then show ?thesis using assms(1) by (auto simp: render_conversion_def convert_def type_def [symmetric] Let_def)
  qed
qed

lemma vsnprintf_loop_renders:
  "render fmt args = Some t \<Longrightarrow> i + length t < n \<Longrightarrow> n \<le> length buffer \<Longrightarrow> n < 4294967296 \<Longrightarrow>
   \<exists>b. vsnprintf_loop buffer n fmt i args = Some (b, i + length t) \<and> length b = length buffer \<and>
     take (i + length t) b = take i buffer @ t"
proof (induction fmt args arbitrary: t i buffer rule: render.induct)
  case (1 fmt args)
  have lim: "sub32 n 1 = n - 1" using 1(4,6) by (simp add: c_arith)
  obtain c f where fmt: "fmt = c # f" using 1(3) by (cases fmt) (auto simp: render_Nil)
  show ?case
  proof (cases "i < n - 1")
    case False
    then have "length t = 0" using 1(4) by linarith
    then have "t = []" "\<not> i < sub32 n 1" using False lim by auto
    then show ?thesis by (subst vsnprintf_loop.simps) simp
  next
    case lt: True
    consider (z) "c = 0" | (conv) "c = 37" | (plain) "c \<noteq> 0" "c \<noteq> 37" by blast
    then show ?thesis
    proof cases
      case z
      then show ?thesis using 1(3) lt lim by (subst vsnprintf_loop.simps) (simp add: fmt render_Cons)
    next
      case conv
      then obtain cv f' t1 args1 t2 where r: "parse_conversion f = Some (cv, f')" "render_conversion cv args = Some (t1, args1)"
          "render f' args1 = Some t2" "t = t1 @ t2"
        using 1(3) by (auto simp: fmt render_Cons split: option.splits prod.splits)
      obtain b where b: "convert cv n buffer i args = Some (b, i + length t1, args1)" "length b = length buffer"
          "take (i + length t1) b = take i buffer @ t1"
        using convert_renders [OF r(2), of i n buffer] 1(4-6) r(4) by auto
      have ih: "\<exists>b'. vsnprintf_loop b n f' (i + length t1) args1 = Some (b', i + length t1 + length t2) \<and> length b' = length b \<and>
          take (i + length t1 + length t2) b' = take (i + length t1) b @ t2"
        by (rule 1(1) [OF fmt _ conv r(1) refl r(2) refl r(3)]) (use 1(4-6) r(4) b(2) conv in auto)
      then show ?thesis using lt lim conv r b
        by (subst vsnprintf_loop.simps) (auto simp: fmt add.assoc)
    next
      case plain
      then obtain t2 where r: "render f args = Some t2" "t = c # t2" using 1(3) by (auto simp: fmt render_Cons)
      obtain b where b: "store_byte buffer i c = Some b" "length b = length buffer" "take (Suc i) b = take i buffer @ [c]"
        by (rule store_byte_take [of i buffer c]) (use lt 1(5) in linarith)
      have ih: "\<exists>b'. vsnprintf_loop b n f (i + 1) args = Some (b', i + 1 + length t2) \<and> length b' = length b \<and>
          take (i + 1 + length t2) b' = take (i + 1) b @ t2"
        by (rule 1(2) [OF fmt plain r(1)]) (use 1(4-6) r(2) b(2) in auto)
      then show ?thesis using lt lim plain r b by (subst vsnprintf_loop.simps) (auto simp: fmt)
    qed
  qed
qed

text \<open>
  C25. When the text a format stands for is shorter than the limit, formatting it succeeds, stays inside
  a buffer that has the size of the limit, leaves exactly this text and a terminator in it and returns the
  length of the text.
\<close>

theorem vsnprintf_correct:
  assumes "render fmt args = Some t" "length t < n" "n \<le> length buffer" "n < 2147483648"
  shows "\<exists>rest. vsnprintf buffer n fmt args = Some (t @ 0 # rest, int (length t)) \<and> length (t @ 0 # rest) = length buffer"
proof -
  obtain b where b: "vsnprintf_loop buffer n fmt 0 args = Some (b, length t)" "length b = length buffer" "take (length t) b = t"
    using vsnprintf_loop_renders [OF assms(1), of 0 n buffer] assms(2-4) by auto
  have l: "length t < length b" using assms(2,3) b(2) by linarith
  then have "b[length t := 0] = t @ 0 # drop (Suc (length t)) b" using b(3) by (simp add: upd_conv_take_nth_drop)
  then show ?thesis using b l by (simp add: vsnprintf_def store_byte_def)
qed

theorem vsnprintf_correct_witness:
  "\<exists>rest. vsnprintf (replicate 20 0) 20 [37, 50, 100, 58, 37, 115, 0] [Arg_int 7, Arg_str [65, 66, 0]] =
     Some ([32, 55, 58, 65, 66] @ 0 # rest, 5)"
  using vsnprintf_correct [of "[37, 50, 100, 58, 37, 115, 0]" "[Arg_int 7, Arg_str [65, 66, 0]]" "[32, 55, 58, 65, 66]" 20 "replicate 20 0"]
  by (auto simp: render_Cons parse_conversion_def isdigit_def strtol_def strtol_digit_def render_conversion_def
      fetch_number_def render_prefix_def itoa_text_def digits_rev.simps digit_char_def strlen_def Let_def)

text \<open>
  C36. A string argument that does not fit makes the terminator land behind the limit: formatting a string
  of \<open>m \<ge> n\<close> characters into a buffer declared with \<open>n\<close> bytes stores a zero at index \<open>m\<close>, which is outside an
  object of \<open>n\<close> bytes and overwrites a byte of whatever follows it in a larger one.
\<close>

theorem vsnprintf_string_overruns:
  assumes "cstr s xs r" "2 \<le> n" "n \<le> length xs" "n \<le> length buffer" "n < 2147483648"
  shows "vsnprintf buffer n [37, 115, 0] [Arg_str s] =
    (if length xs < length buffer then Some ((take (n - 1) xs @ drop (n - 1) buffer)[length xs := 0], int (length xs)) else None)"
proof -
  have lim: "sub32 n 1 = n - 1" "sub32 (sub32 n 0) 1 = n - 1" using assms(2,5) by (simp_all add: c_arith)
  have pc: "parse_conversion [115, 0] = Some (\<lparr>cv_type = 115, cv_width = 0, cv_zeropad = False, cv_numprefix = False, cv_length = 4\<rparr>, [0])"
    by (simp add: parse_conversion_def isdigit_def)
  have cp: "strncpy buffer s (n - 1) = Some (take (n - 1) xs @ drop (n - 1) buffer)"
    using strncpy_eq [OF assms(1), of buffer "n - 1"] assms(3,4) by simp
  have "vsnprintf_loop buffer n [37, 115, 0] 0 [Arg_str s] = Some (take (n - 1) xs @ drop (n - 1) buffer, length xs)"
    using assms(2,3)
    by (subst vsnprintf_loop.simps, simp add: lim pc convert_def cp strlen_eq [OF assms(1)] del: One_nat_def)
      (subst vsnprintf_loop.simps, simp add: lim del: One_nat_def)
  then show ?thesis using assms(3,4) by (simp add: vsnprintf_def store_byte_def)
qed

theorem vsnprintf_string_overruns_witness:
  "vsnprintf [1, 1, 1] 3 [37, 115, 0] [Arg_str [65, 66, 67, 68, 0]] = None"
  using vsnprintf_string_overruns [of "[65, 66, 67, 68, 0]" "[65, 66, 67, 68]" "[]" 3 "[1, 1, 1]"]
  by (simp add: cstr_def)

text \<open>A format that ends with a percent sign is read past its terminator.\<close>

lemma vsnprintf_lone_percent: "vsnprintf [1, 1, 1] 3 [37, 0] [] = None"
proof -
  have pc: "parse_conversion [0] = Some (\<lparr>cv_type = 0, cv_width = 0, cv_zeropad = False, cv_numprefix = False, cv_length = 4\<rparr>, [])"
    by (simp add: parse_conversion_def isdigit_def)
  have "vsnprintf_loop [1, 1, 1] 3 [37, 0] 0 [] = None"
    by (subst vsnprintf_loop.simps, simp add: pc convert_def, subst vsnprintf_loop.simps) (simp add: c_arith)
  then show ?thesis by (simp add: vsnprintf_def)
qed

text \<open>Zeros that pad a negative number come before the sign.\<close>

lemma itoa_zeropad_sign: "itoa_text 4294967291 10 5 True True = [48, 48, 48, 45, 53]"
proof -
  have "digits_rev 10 5 = [5]" by (subst digits_rev.simps) simp
  moreover have "replicate 3 (48 :: u8) = [48, 48, 48]" by (simp add: numeral_3_eq_3)
  moreover have "sint (4294967291 :: u32) < 0" by simp
  ultimately show ?thesis by (simp add: itoa_text_def Let_def digit_char_def)
qed

section \<open>Internet addresses\<close>

definition octet :: "nat \<Rightarrow> u32 \<Rightarrow> u32" where
  "octet k a = ucast (ucast (drop_bit k a) :: u8)"

lemma octet_take_bit: "octet k a = take_bit 8 (drop_bit k a)"
  unfolding octet_def by (rule bit_word_eqI) (auto simp: bit_simps dest: bit_imp_le_length)

lemma octet_bounds: "0 \<le> sint (octet k a)" "sint (octet k a) \<le> 255" "unat (octet k a) < 256" "sint (octet k a) = uint (octet k a)"
proof -
  have u: "unat (octet k a) < 256"
    using take_bit_nat_less_exp [of 8 "unat (drop_bit k a)"] by (simp add: octet_take_bit unsigned_take_bit_eq)
  then have "int (unat (octet k a)) < 256" by linarith
  then have "uint (octet k a) < 256" by simp
  moreover have "- (2 ^ 31) \<le> uint (octet k a)" by (rule order_trans [of _ 0]) simp_all
  ultimately have "signed_take_bit 31 (uint (octet k a)) = uint (octet k a)" by (intro signed_take_bit_int_eq_self) simp_all
  then show "sint (octet k a) = uint (octet k a)" by (simp add: sint_uint)
  then show "0 \<le> sint (octet k a)" "sint (octet k a) \<le> 255" "unat (octet k a) < 256" using u \<open>uint (octet k a) < 256\<close> by simp_all
qed

lemma octet_of_sint: "(word_of_int (sint (octet k a) AND 0xFF) :: u32) = octet k a"
proof -
  have "sint (octet k a) AND 0xFF = take_bit 8 (sint (octet k a))"
    by (simp add: take_bit_eq_mask mask_eq_exp_minus_1)
  also have "\<dots> = sint (octet k a)" using octet_bounds(1,2) [of k a] by (simp add: take_bit_int_eq_self)
  finally show ?thesis by simp
qed

lemma octets_join: "push_bit 8 (push_bit 8 (push_bit 8 (octet 24 a) OR octet 16 a) OR octet 8 a) OR octet 0 a = a"
proof -
  have st: "push_bit 8 (drop_bit (k + 8) a) OR octet k a = drop_bit k a" for k
  proof (rule bit_word_eqI)
    fix n
    assume "n < LENGTH(32)"
    moreover have "k + 8 + (n - 8) = k + n" if "\<not> n < 8" using that by simp
    ultimately show "bit (push_bit 8 (drop_bit (k + 8) a) OR octet k a) n = bit (drop_bit k a) n"
      by (cases "n < 8") (simp_all add: octet_take_bit bit_simps)
  qed
  have "octet 24 a = drop_bit 24 a"
    unfolding octet_take_bit by (rule bit_word_eqI) (auto simp: bit_simps dest: bit_imp_le_length)
  then show ?thesis using st [of 16] st [of 8] st [of 0] by simp
qed

definition dec_text :: "u32 \<Rightarrow> u8 list" where
  "dec_text m = map digit_char (rev (digits_rev 10 (unat m)))"

lemma dec_text_length: "unat m < 256 \<Longrightarrow> length (dec_text m) \<le> 3"
proof -
  assume m: "unat m < 256"
  then have "unat m div 10 div 10 < 10" by (simp add: div_mult2_eq [symmetric])
  then show ?thesis unfolding dec_text_def
    by (subst digits_rev.simps, subst digits_rev.simps, subst digits_rev.simps) simp
qed

lemma inet_aton_octet:
  assumes "c = 0 \<or> c = 46"
  shows "inet_aton_loop (Suc k) (dec_text (octet j a) @ c # rest) addr =
    (let addr = push_bit 8 addr OR octet j a
     in if c = 0 then Some (Some addr) else inet_aton_loop k rest addr)"
  using read_unsigned(1) [of 10 c "octet j a" rest] assms octet_bounds(1,2) [of j a] octet_of_sint [of j a]
  by (auto simp: dec_text_def Let_def)

lemma inet_render:
  "render [37, 100, 46, 37, 100, 46, 37, 100, 46, 37, 100, 0] [Arg_int (octet 24 a), Arg_int (octet 16 a), Arg_int (octet 8 a), Arg_int (octet 0 a)] =
   Some (dec_text (octet 24 a) @ 46 # dec_text (octet 16 a) @ 46 # dec_text (octet 8 a) @ 46 # dec_text (octet 0 a))"
proof -
  have pc: "parse_conversion (100 # f) = Some (\<lparr>cv_type = 100, cv_width = 0, cv_zeropad = False, cv_numprefix = False, cv_length = 4\<rparr>, f)" for f
    by (simp add: parse_conversion_def isdigit_def)
  have rc: "render_conversion \<lparr>cv_type = 100, cv_width = 0, cv_zeropad = False, cv_numprefix = False, cv_length = 4\<rparr> (Arg_int (octet j a) # args) =
      Some (dec_text (octet j a), args)" for j args
  proof -
    have "ucast (ucast (octet j a) :: u64) = octet j a" by (rule bit_word_eqI) (auto simp: bit_simps)
    moreover have "\<not> sint (octet j a) < 0" using octet_bounds(1) [of j a] by linarith
    ultimately show ?thesis
      by (simp add: render_conversion_def fetch_number_def render_prefix_def itoa_text_def dec_text_def)
  qed
  show ?thesis by (simp add: render_Cons pc rc)
qed

text \<open>
  C26. The dotted text of an internet address is read back as the address: for every address
  \<^verbatim>\<open>inet_ntoa\<close> stays inside its buffer of 18 bytes and \<^verbatim>\<open>inet_aton\<close> accepts its result and stores the same
  address.
\<close>

theorem inet_roundtrip:
  assumes "length ipa = 18"
  shows "\<exists>s. inet_ntoa ipa a = Some s \<and> length s = 18 \<and> inet_aton s junk = Some (1, a)"
proof -
  define t where "t = dec_text (octet 24 a) @ 46 # dec_text (octet 16 a) @ 46 # dec_text (octet 8 a) @ 46 # dec_text (octet 0 a)"
  have "length t < 18"
    using dec_text_length [OF octet_bounds(3) [of 24 a]] dec_text_length [OF octet_bounds(3) [of 16 a]]
      dec_text_length [OF octet_bounds(3) [of 8 a]] dec_text_length [OF octet_bounds(3) [of 0 a]]
    by (simp add: t_def)
  then obtain rest where r: "inet_ntoa ipa a = Some (t @ 0 # rest)" "length (t @ 0 # rest) = 18"
    using vsnprintf_correct [OF inet_render [of a, folded t_def], of 18 ipa] assms
    by (auto simp: inet_ntoa_def snprintf_def Let_def octet_def)
  have four: "4 = Suc (Suc (Suc (Suc 0)))" and ne: "(46 :: u8) \<noteq> 0" and z: "push_bit 8 (0 :: u32) OR w = w" for w by simp_all
  have "inet_aton_loop 4 (t @ 0 # rest) 0 = Some (Some a)"
    unfolding four t_def append_assoc append_Cons
    by (simp only: inet_aton_octet Let_def ne simp_thms if_True if_False z octets_join)
  then show ?thesis using r by (simp add: inet_aton_def)
qed

theorem inet_roundtrip_witness:
  "\<exists>s. inet_ntoa (replicate 18 0) 3232235777 = Some s \<and> inet_aton s 0 = Some (1, 3232235777)"
  using inet_roundtrip [of "replicate 18 0" 3232235777 0] by auto

text \<open>Text behind the fourth number is accepted, and so is a missing number.\<close>

lemma inet_aton_lax: "inet_aton [49, 46, 46, 50, 46, 51, 46, 120, 0] 7 = Some (1, 0x01000203)"
proof -
  have "4 = Suc (Suc (Suc (Suc 0)))" by simp
  then show ?thesis by (simp only: inet_aton_def inet_aton_loop.simps) (simp add: strtol_def strtol_digit_def Let_def)
qed

end
