(* ===== verification/Libc_Time.thy ===== *)
theory Libc_Time
  imports Libc_Format "HOL-Library.Signed_Division"
begin

text \<open>
  Calendar time of the C library: \<^verbatim>\<open>gmtime\<close> and \<^verbatim>\<open>strftime\<close> of \<^verbatim>\<open>src/libc/common/time\<close>.

  Division and remainder of C round towards zero, which are \<open>sdiv\<close> and \<open>smod\<close>. A read behind the table
  of month lengths is \<open>None\<close>.
\<close>

section \<open>Broken down time\<close>

record tm =
  tm_sec :: int
  tm_min :: int
  tm_hour :: int
  tm_mday :: int
  tm_mon :: int
  tm_year :: int
  tm_wday :: int
  tm_yday :: int
  tm_isdst :: int

definition SEC_PER_HOUR :: int where "SEC_PER_HOUR = 60 * 60"

definition LEAPYEAR :: "int \<Rightarrow> bool" where
  "LEAPYEAR year \<longleftrightarrow> year smod 4 = 0 \<and> (year smod 100 \<noteq> 0 \<or> year smod 400 = 0)"

definition monthdays :: "int list" where
  "monthdays = [31, 28, 31, 30, 31, 30, 31, 31, 30, 31, 30, 31]"

function gmtime_year :: "int \<Rightarrow> int \<Rightarrow> int \<times> int" where
  "gmtime_year year yday =
     (let days = (if LEAPYEAR year then 366 else 365)
      in if yday < days then (year, yday) else gmtime_year (year + 1) (yday - days))"
  by pat_completeness auto
termination
  by (relation "measure (\<lambda>(year, yday). nat yday)") (auto split: if_splits)

declare gmtime_year.simps [simp del]

function gmtime_month :: "int \<Rightarrow> nat \<Rightarrow> int \<Rightarrow> (nat \<times> int) option" where
  "gmtime_month year mon mday =
     (if mon < length monthdays
      then let days = (if mon = 1 \<and> LEAPYEAR year then monthdays ! mon + 1 else monthdays ! mon)
           in if mday < days then Some (mon, mday) else gmtime_month year (mon + 1) (mday - days)
      else None)"
  by pat_completeness auto
termination
  by (relation "measure (\<lambda>(year, mon, mday). length monthdays - mon)") auto

declare gmtime_month.simps [simp del]

definition gmtime :: "int \<Rightarrow> tm option" where
  "gmtime t =
     (let hournum = t sdiv SEC_PER_HOUR;
          hoursec = t smod SEC_PER_HOUR;
          daynum = hournum sdiv 24;
          daysec = (hournum smod 24) * SEC_PER_HOUR + hoursec;
          (year, yday) = gmtime_year 1970 daynum;
          year = year - 1900
      in do {
        (mon, mday) \<leftarrow> gmtime_month year 0 (yday + 1);
        Some \<lparr>tm_sec = daysec smod 60, tm_min = (daysec smod 3600) sdiv 60, tm_hour = daysec sdiv 3600,
              tm_mday = mday, tm_mon = int mon, tm_year = year, tm_wday = (daynum + 4) smod 7,
              tm_yday = yday, tm_isdst = 0\<rparr> })"

section \<open>Formatting\<close>

definition chars :: "string \<Rightarrow> u8 list" where
  "chars s = map (\<lambda>c. of_nat (of_char c)) s @ [0]"

definition weeknames :: "u8 list list" where
  "weeknames = map chars [''Sun'', ''Mon'', ''Tue'', ''Wed'', ''Thu'', ''Fri'', ''Sat'']"

definition monthnames :: "u8 list list" where
  "monthnames = map chars [''Jan'', ''Feb'', ''Mar'', ''Apr'', ''May'', ''Jun'', ''Jul'', ''Aug'', ''Sep'', ''Oct'', ''Nov'', ''Dec'']"

definition name_at :: "u8 list list \<Rightarrow> int \<Rightarrow> u8 list option" where
  "name_at names k = (if 0 \<le> k \<and> k < int (length names) then Some (names ! nat k) else None)"

text \<open>What a directive sets: \<^verbatim>\<open>svalue\<close>, \<^verbatim>\<open>subfmt\<close>, or \<^verbatim>\<open>value\<close> and \<^verbatim>\<open>width\<close>, or a character to store.\<close>

datatype directive = Svalue "u8 list" | Subfmt string | Value int nat | Direct u8

definition directive :: "u8 \<Rightarrow> tm \<Rightarrow> directive option" where
  "directive c tp =
     (if c = 97 then map_option Svalue (name_at weeknames (tm_wday tp))
      else if c = 98 \<or> c = 104 then map_option Svalue (name_at monthnames (tm_mon tp))
      else if c = 99 then Some (Subfmt ''%a %b %d %H:%M:%S %Y'')
      else if c = 100 then Some (Value (tm_mday tp) 2)
      else if c = 68 then Some (Subfmt ''%m/%d/%y'')
      else if c = 101 then Some (Value (tm_mday tp) 2)
      else if c = 70 then Some (Subfmt ''%Y-%m-%d'')
      else if c = 72 then Some (Value (tm_hour tp) 2)
      else if c = 73 then Some (Value (tm_hour tp sdiv 2) 2)
      else if c = 106 then Some (Value (tm_yday tp) 3)
      else if c = 109 then Some (Value (tm_mon tp + 1) 2)
      else if c = 77 then Some (Value (tm_min tp) 2)
      else if c = 112 then Some (Svalue (chars (if tm_hour tp < 12 then ''AM'' else ''PM'')))
      else if c = 82 then Some (Subfmt ''%H:%M'')
      else if c = 83 then Some (Value (tm_sec tp) 2)
      else if c = 84 then Some (Subfmt ''%H:%M:%S'')
      else if c = 119 then Some (Value (tm_wday tp) 2)
      else if c = 87 then Some (Value (tm_yday tp sdiv 7) 2)
      else if c = 121 then Some (Value (tm_year tp smod 100) 2)
      else if c = 89 then Some (Value (tm_year tp + 1900) 4)
      else Some (Direct (if c = 110 then 10 else if c = 116 then 9 else c)))"

text \<open>The directives with a format of their own, which decide how deep the function calls itself.\<close>

definition directive_weight :: "u8 \<Rightarrow> nat" where
  "directive_weight c = (if c \<in> {99, 68, 70, 82, 84} then 100 else 1)"

definition format_weight :: "u8 list \<Rightarrow> nat" where
  "format_weight fmt = sum_list (map directive_weight fmt)"

lemma format_weight_Cons [simp]: "format_weight (c # fmt) = directive_weight c + format_weight fmt"
  by (simp add: format_weight_def)

lemma directive_weight_pos [simp]: "0 < directive_weight c"
  by (simp add: directive_weight_def)

lemma directive_Subfmt:
  "directive c tp = Some (Subfmt f) \<Longrightarrow>
     c \<in> {99, 68, 70, 82, 84} \<and> f \<in> {''%a %b %d %H:%M:%S %Y'', ''%m/%d/%y'', ''%Y-%m-%d'', ''%H:%M'', ''%H:%M:%S''}"
  by (auto simp: directive_def split: if_splits)

lemma subformat_weight:
  "f \<in> {''%a %b %d %H:%M:%S %Y'', ''%m/%d/%y'', ''%Y-%m-%d'', ''%H:%M'', ''%H:%M:%S''} \<Longrightarrow> format_weight (chars f) < 100"
  by (auto simp: format_weight_def chars_def directive_weight_def)

lemma directive_smaller: "directive c tp = Some (Subfmt f) \<Longrightarrow> format_weight (chars f) < directive_weight c"
  using directive_Subfmt [of c tp f] subformat_weight [of f] by (simp add: directive_weight_def)

function strftime_loop :: "u8 list \<Rightarrow> nat \<Rightarrow> u8 list \<Rightarrow> nat \<Rightarrow> tm \<Rightarrow> (u8 list \<times> nat) option" where
  "strftime_loop buffer limit fmt i tp =
     (case fmt of [] \<Rightarrow> None
      | c # f \<Rightarrow>
          if c \<noteq> 0 \<and> i < limit
          then if c = 37
               then case f of [] \<Rightarrow> None
                    | d # f' \<Rightarrow>
                        (case directive d tp of None \<Rightarrow> None
                         | Some (Svalue svalue) \<Rightarrow>
                             (case strncpy (drop i buffer) svalue (limit - i) of None \<Rightarrow> None
                              | Some tail \<Rightarrow>
                                  (case strlen svalue of None \<Rightarrow> None
                                   | Some len \<Rightarrow>
                                       strftime_loop (take i buffer @ tail) limit f'
                                         (if i + len > limit then limit - 1 else i + len) tp))
                         | Some (Subfmt subfmt) \<Rightarrow>
                             (case strftime_loop (drop i buffer) (limit - i) (chars subfmt) 0 tp of None \<Rightarrow> None
                              | Some (b, k) \<Rightarrow>
                                  (case store_byte b k 0 of None \<Rightarrow> None
                                   | Some tail \<Rightarrow> strftime_loop (take i buffer @ tail) limit f' (i + k) tp))
                         | Some (Value v width) \<Rightarrow>
                             if width < limit - i
                             then (case itoa_padded (word_of_int v) (drop i buffer) 10 (int width) True False of None \<Rightarrow> None
                                   | Some tail \<Rightarrow> strftime_loop (take i buffer @ tail) limit f' (i + width) tp)
                             else strftime_loop buffer limit f' i tp
                         | Some (Direct v) \<Rightarrow>
                             (case store_byte buffer i v of None \<Rightarrow> None
                              | Some buffer \<Rightarrow> strftime_loop buffer limit f' (i + 1) tp))
               else (case store_byte buffer i c of None \<Rightarrow> None
                     | Some buffer \<Rightarrow> strftime_loop buffer limit f (i + 1) tp)
          else Some (buffer, i))"
  by pat_completeness auto
termination
  by (relation "measure (\<lambda>(buffer, limit, fmt, i, tp). format_weight fmt)") (auto dest!: directive_smaller)

declare strftime_loop.simps [simp del]

definition strftime :: "u8 list \<Rightarrow> nat \<Rightarrow> u8 list \<Rightarrow> tm \<Rightarrow> (u8 list \<times> nat) option" where
  "strftime buffer limit fmt tp = do {
     (buffer, i) \<leftarrow> strftime_loop buffer limit fmt 0 tp;
     buffer \<leftarrow> store_byte buffer i 0;
     Some (buffer, i) }"

section \<open>The calendar\<close>

definition days_in_year :: "int \<Rightarrow> int" where
  "days_in_year y = (if LEAPYEAR y then 366 else 365)"

text \<open>The days of the years from 1970 to the one before \<open>1970 + n\<close>.\<close>

fun days_before :: "nat \<Rightarrow> int" where
  "days_before 0 = 0"
| "days_before (Suc n) = days_before n + days_in_year (1970 + int n)"

text \<open>The lengths of the months as the loop over the months sees them, from the year less 1900.\<close>

definition month_lengths :: "int \<Rightarrow> int list" where
  "month_lengths y = (if LEAPYEAR y then monthdays[1 := 29] else monthdays)"

lemma gmtime_year_skip:
  "0 \<le> yd \<Longrightarrow> gmtime_year 1970 (days_before n + yd) = gmtime_year (1970 + int n) yd"
proof (induction n arbitrary: yd)
  case (Suc n)
  have "0 \<le> days_in_year (1970 + int n) + yd" using Suc(2) by (simp add: days_in_year_def)
  then have "gmtime_year 1970 (days_before (Suc n) + yd) = gmtime_year (1970 + int n) (days_in_year (1970 + int n) + yd)"
    using Suc(1) by (simp add: add.assoc)
  also have "\<dots> = gmtime_year (1970 + int n + 1) yd"
    using Suc(2) by (subst gmtime_year.simps) (simp add: days_in_year_def Let_def)
  finally show ?case by (simp add: ac_simps)
qed simp

lemma gmtime_year_eq:
  "0 \<le> yd \<Longrightarrow> yd < days_in_year (1970 + int n) \<Longrightarrow> gmtime_year 1970 (days_before n + yd) = (1970 + int n, yd)"
  using gmtime_year_skip [of yd n] by (simp add: gmtime_year.simps [of "1970 + int n"] days_in_year_def Let_def)

text \<open>Every day number belongs to a year and a day in it.\<close>

lemma gmtime_year_exists:
  assumes "0 \<le> dn"
  obtains n yd where "dn = days_before n + yd" "0 \<le> yd" "yd < days_in_year (1970 + int n)"
proof -
  have "\<exists>n. dn < days_before (Suc n)"
  proof -
    have "365 * int n \<le> days_before n" for n by (induction n) (auto simp: days_in_year_def)
    from this [of "Suc (nat dn)"] have "365 * (dn + 1) \<le> days_before (Suc (nat dn))"
      using assms by (simp del: days_before.simps)
    moreover have "dn < 365 * (dn + 1)" using assms by simp
    ultimately show ?thesis by (blast intro: less_le_trans)
  qed
  then obtain n where n: "dn < days_before (Suc n)" "\<forall>m < n. \<not> dn < days_before (Suc m)"
    using exists_least_iff [of "\<lambda>n. dn < days_before (Suc n)"] by blast
  then have "days_before n \<le> dn" using assms by (cases n) auto
  then show thesis using n(1) that [of n "dn - days_before n"] by simp
qed

lemma month_lengths_nth:
  "mon < 12 \<Longrightarrow> (if mon = 1 \<and> LEAPYEAR y then monthdays ! mon + 1 else monthdays ! mon) = month_lengths y ! mon"
proof -
  have "length monthdays = 12" "monthdays ! 1 = 28" by (simp_all add: monthdays_def)
  then show "mon < 12 \<Longrightarrow> ?thesis" by (auto simp: month_lengths_def nth_list_update)
qed

lemma length_month_lengths [simp]: "length (month_lengths y) = 12"
  by (simp add: month_lengths_def monthdays_def)

lemma month_lengths_pos: "l \<in> set (month_lengths y) \<Longrightarrow> 0 < l"
  by (auto simp: month_lengths_def monthdays_def split: if_splits)

lemma length_monthdays: "length monthdays = 12"
  by (simp add: monthdays_def)

lemma gmtime_month_step:
  "mon < 12 \<Longrightarrow> gmtime_month y mon mday =
     (if mday < month_lengths y ! mon then Some (mon, mday) else gmtime_month y (Suc mon) (mday - month_lengths y ! mon))"
  using month_lengths_nth [of mon y] by (subst gmtime_month.simps) (simp add: Let_def length_monthdays)

text \<open>The loop over the months finds the month whose days, counted from 0, hold the day.\<close>

lemma gmtime_month_eq:
  assumes "m < 12" "0 \<le> d" "d < month_lengths y ! m"
  shows "k \<le> m \<Longrightarrow> gmtime_month y k (sum_list (drop k (take m (month_lengths y))) + d) = Some (m, d)"
proof (induction "m - k" arbitrary: k)
  case 0
  then show ?case using assms by (simp add: gmtime_month_step)
next
  case (Suc j)
  let ?L = "month_lengths y"
  have k: "k < m" using Suc(2) by linarith
  have "drop k (take m ?L) = ?L ! k # drop (Suc k) (take m ?L)"
    using k assms(1) by (simp add: Cons_nth_drop_Suc [symmetric])
  moreover have "0 \<le> sum_list (drop (Suc k) (take m ?L))"
    by (intro sum_list_nonneg) (auto dest!: in_set_dropD in_set_takeD month_lengths_pos)
  ultimately show ?case
    using Suc(1) [of "Suc k"] Suc(2) k assms(1,2) by (subst gmtime_month_step) auto
qed

lemma gmtime_month_overrun:
  assumes "d \<ge> 0"
  shows "k \<le> 12 \<Longrightarrow> gmtime_month y k (sum_list (drop k (month_lengths y)) + d) = None"
proof (induction "12 - k" arbitrary: k)
  case 0
  then show ?case by (subst gmtime_month.simps) (simp add: monthdays_def)
next
  case (Suc j)
  let ?L = "month_lengths y"
  have k: "k < 12" using Suc(2) by linarith
  have "drop k ?L = ?L ! k # drop (Suc k) ?L" using k by (simp add: Cons_nth_drop_Suc)
  moreover have "0 \<le> sum_list (drop (Suc k) ?L)"
    by (intro sum_list_nonneg) (auto dest!: in_set_dropD month_lengths_pos)
  ultimately show ?case using Suc(1) [of "Suc k"] Suc(2) k assms by (subst gmtime_month_step) auto
qed

lemma sdiv_nonneg: "0 \<le> a \<Longrightarrow> 0 < b \<Longrightarrow> a sdiv b = a div b" "0 \<le> a \<Longrightarrow> 0 < b \<Longrightarrow> a smod b = a mod b" for a b :: int
  by (simp_all add: signed_divide_int_def signed_modulo_int_def sgn_if)

lemma day_split:
  fixes t :: int
  shows "t div 3600 div 24 = t div 86400" and "(t div 3600 mod 24) * 3600 + t mod 3600 = t mod 86400"
    and "t mod 86400 mod 60 = t mod 60" and "t mod 86400 mod 3600 div 60 = t div 60 mod 60"
    and "t mod 86400 div 3600 = t div 3600 mod 24"
proof -
  show "t div 3600 div 24 = t div 86400" by (simp add: zdiv_zmult2_eq [symmetric])
  show d: "(t div 3600 mod 24) * 3600 + t mod 3600 = t mod 86400" using zmod_zmult2_eq [of 24 t 3600] by simp
  show "t mod 86400 mod 60 = t mod 60" by (simp add: mod_mod_cancel)
  have "t mod 3600 = 60 * (t div 60 mod 60) + t mod 60" using zmod_zmult2_eq [of 60 t 60] by simp
  moreover have "t mod 86400 mod 3600 = t mod 3600" by (simp add: mod_mod_cancel)
  ultimately show "t mod 86400 mod 3600 div 60 = t div 60 mod 60" by simp
  show "t mod 86400 div 3600 = t div 3600 mod 24" unfolding d [symmetric] by simp
qed

lemma gmtime_unfold:
  assumes "t div 86400 = days_before n + yd" "0 \<le> t" "0 \<le> yd" "yd < days_in_year (1970 + int n)"
  shows "gmtime t = map_option (\<lambda>(mon, mday).
      \<lparr>tm_sec = t mod 60, tm_min = t div 60 mod 60, tm_hour = t div 3600 mod 24, tm_mday = mday, tm_mon = int mon,
       tm_year = 70 + int n, tm_wday = (t div 86400 + 4) mod 7, tm_yday = yd, tm_isdst = 0\<rparr>)
    (gmtime_month (70 + int n) 0 (yd + 1))"
proof -
  have pos: "0 \<le> t div 3600" "0 \<le> t div 86400" "0 \<le> t mod 86400" "0 \<le> t mod 86400 mod 3600"
    using assms(2) by (simp_all add: pos_imp_zdiv_nonneg_iff)
  have y: "gmtime_year 1970 (t div 86400) = (1970 + int n, yd)" using gmtime_year_eq [OF assms(3,4)] assms(1) by simp
  show ?thesis
    unfolding gmtime_def SEC_PER_HOUR_def
    using assms(2) pos
    by (simp add: sdiv_nonneg Let_def day_split y) (cases "gmtime_month (70 + int n) 0 (yd + 1)"; simp add: sdiv_nonneg day_split ac_simps case_prod_beta)
qed



text \<open>
  On the last day of a year, and on the last two of a leap year that the loop over the months does not
  recognise because it looks at the year less 1900, that loop runs past the table of month lengths.
\<close>

theorem gmtime_year_end_overruns:
  assumes "0 \<le> t" "t div 86400 = days_before n + yd" "0 \<le> yd" "yd < days_in_year (1970 + int n)"
    and "yd + 1 \<ge> sum_list (month_lengths (70 + int n))"
  shows "gmtime t = None"
  using gmtime_unfold [OF assms(2,1,3,4)] assms(5)
    gmtime_month_overrun [of "yd + 1 - sum_list (month_lengths (70 + int n))" 0 "70 + int n"] by simp

theorem gmtime_year_end_overruns_witness: "gmtime 31449600 = None"
  using gmtime_year_end_overruns [of 31449600 0 364]
  by (simp add: month_lengths_def monthdays_def days_in_year_def LEAPYEAR_def sdiv_nonneg)

text \<open>The leap year 2000 is one of those years.\<close>

lemma leap_year_2000: "LEAPYEAR 2000" "\<not> LEAPYEAR (2000 - 1900)"
  by (simp_all add: LEAPYEAR_def sdiv_nonneg)

text \<open>Directives that do not compute what their names say.\<close>

lemma directive_quirks:
  "directive 73 (tp\<lparr>tm_hour := 23\<rparr>) = Some (Value 11 2)"
  "directive 101 tp = directive 100 tp"
  "directive 106 tp = Some (Value (tm_yday tp) 3)"
  by (simp_all add: directive_def sdiv_nonneg)

text \<open>Text that fills the buffer up to the limit is terminated one byte behind it.\<close>

lemma strftime_overruns: "strftime [1, 1] 2 [65, 66, 0] tp = None" "strftime [1, 1, 1] 2 [65, 66, 0] tp = Some ([65, 66, 0], 2)"
  by (simp_all add: strftime_def strftime_loop.simps [of "[1, 1]"] strftime_loop.simps [of "[65, 1]"] strftime_loop.simps [of "[65, 66]"]
    strftime_loop.simps [of "[1, 1, 1]"] strftime_loop.simps [of "[65, 1, 1]"] strftime_loop.simps [of "[65, 66, 1]"] store_byte_def)

end
