(* ===== verification/Queues.thy ===== *)
theory Queues
  imports Kernel_Prelude
begin

text \<open>
  The intrusive doubly linked queue of \<^verbatim>\<open>include/kernel/utils/queue.h\<close>. A
  \<^verbatim>\<open>struct queue_node\<close> lives inside another object (a process, a timer, a cached block),
  so nodes are named by the address \<open>'a\<close> of that object and the node memory is a function
  from addresses to nodes; a pointer is an \<open>'a option\<close> whose \<open>None\<close> is \<^verbatim>\<open>NULL\<close>. Several
  queues can share one node memory, as the run queue and the blocked queue do.

  The abstraction \<open>queue_rep q m xs\<close> says that the queue header \<open>q\<close> and the node memory
  \<open>m\<close> hold exactly the nodes \<open>xs\<close> in that order. The lemmas show that every operation
  refines its list operation and touches no node outside the queue. The locale
  \<open>node_queue\<close> states this as the interface the other components use.
\<close>

section \<open>The data and the operations\<close>

record 'a queue_node =
  node_next :: "'a option"
  node_prev :: "'a option"

record 'a queue =
  q_head :: "'a option"
  q_tail :: "'a option"

type_synonym 'a nodes = "'a \<Rightarrow> 'a queue_node"

definition set_next :: "'a \<Rightarrow> 'a option \<Rightarrow> 'a nodes \<Rightarrow> 'a nodes" where
  "set_next n p m = m(n := (m n)\<lparr>node_next := p\<rparr>)"

definition set_prev :: "'a \<Rightarrow> 'a option \<Rightarrow> 'a nodes \<Rightarrow> 'a nodes" where
  "set_prev n p m = m(n := (m n)\<lparr>node_prev := p\<rparr>)"

definition queue_init :: "'a queue" where
  "queue_init = \<lparr>q_head = None, q_tail = None\<rparr>"

definition queue_node_init :: "'a \<Rightarrow> 'a nodes \<Rightarrow> 'a nodes" where
  "queue_node_init n m = set_prev n None (set_next n None m)"

definition queue_insert :: "'a queue \<Rightarrow> 'a \<Rightarrow> 'a nodes \<Rightarrow> 'a queue \<times> 'a nodes" where
  "queue_insert q n m =
     (let (q1, m1) = (case q_head q of
                        Some h \<Rightarrow> (q, set_prev h (Some n) m)
                      | None \<Rightarrow> (q\<lparr>q_tail := Some n\<rparr>, m));
          m2 = set_next n (q_head q1) m1;
          m3 = set_prev n None m2
      in (q1\<lparr>q_head := Some n\<rparr>, m3))"

definition queue_insert_after ::
    "'a queue \<Rightarrow> 'a \<Rightarrow> 'a option \<Rightarrow> 'a nodes \<Rightarrow> 'a queue \<times> 'a nodes" where
  "queue_insert_after q n after m =
     (let tail = (case after of Some a \<Rightarrow> node_next (m a) | None \<Rightarrow> q_head q);
          (q1, m1) = (case tail of
                        Some t \<Rightarrow> (q, set_prev t (Some n) m)
                      | None \<Rightarrow> (q\<lparr>q_tail := Some n\<rparr>, m));
          m2 = set_next n tail m1;
          (q2, m3) = (case after of
                        Some a \<Rightarrow> (q1, set_next a (Some n) m2)
                      | None \<Rightarrow> (q1\<lparr>q_head := Some n\<rparr>, m2))
      in (q2, set_prev n after m3))"

definition queue_remove :: "'a queue \<Rightarrow> 'a \<Rightarrow> 'a nodes \<Rightarrow> 'a queue \<times> 'a nodes" where
  "queue_remove q n m =
     (let (q1, m1) = (case node_next (m n) of
                        Some x \<Rightarrow> (q, set_prev x (node_prev (m n)) m)
                      | None \<Rightarrow> (q\<lparr>q_tail := node_prev (m n)\<rparr>, m));
          (q2, m2) = (case node_prev (m1 n) of
                        Some p \<Rightarrow> (q1, set_next p (node_next (m1 n)) m1)
                      | None \<Rightarrow> (q1\<lparr>q_head := node_next (m1 n)\<rparr>, m1))
      in (q2, set_prev n None (set_next n None m2)))"

definition queue_next :: "'a \<Rightarrow> 'a nodes \<Rightarrow> 'a option" where
  "queue_next n m = node_next (m n)"

definition queue_prev :: "'a \<Rightarrow> 'a nodes \<Rightarrow> 'a option" where
  "queue_prev n m = node_prev (m n)"

section \<open>The abstraction\<close>

text \<open>
  \<open>dseg m h p xs n t\<close>: following \<^verbatim>\<open>next\<close> from \<open>h\<close> runs through the nodes \<open>xs\<close> to \<open>n\<close>; the
  \<^verbatim>\<open>prev\<close> pointers run back to \<open>p\<close>; \<open>t\<close> is the last node reached (\<open>p\<close> if there is none).
\<close>

fun dseg :: "'a nodes \<Rightarrow> 'a option \<Rightarrow> 'a option \<Rightarrow> 'a list \<Rightarrow> 'a option \<Rightarrow> 'a option \<Rightarrow> bool" where
  "dseg m h p [] n t \<longleftrightarrow> h = n \<and> t = p"
| "dseg m h p (x # xs) n t \<longleftrightarrow>
     h = Some x \<and> node_prev (m x) = p \<and> dseg m (node_next (m x)) (Some x) xs n t"

definition queue_rep :: "'a queue \<Rightarrow> 'a nodes \<Rightarrow> 'a list \<Rightarrow> bool" where
  "queue_rep q m xs \<longleftrightarrow> distinct xs \<and> dseg m (q_head q) None xs None (q_tail q)"

lemma node_set_simps [simp]:
  "node_next (set_next n p m x) = (if x = n then p else node_next (m x))"
  "node_prev (set_next n p m x) = node_prev (m x)"
  "node_prev (set_prev n p m x) = (if x = n then p else node_prev (m x))"
  "node_next (set_prev n p m x) = node_next (m x)"
  by (auto simp: set_next_def set_prev_def)

lemma set_other [simp]:
  "x \<noteq> n \<Longrightarrow> set_next n p m x = m x"
  "x \<noteq> n \<Longrightarrow> set_prev n p m x = m x"
  by (auto simp: set_next_def set_prev_def)

lemma dseg_append:
  "dseg m h p (xs @ ys) n t \<longleftrightarrow> (\<exists>k l. dseg m h p xs k l \<and> dseg m k l ys n t)"
  by (induction xs arbitrary: h p) auto

lemma dseg_cong:
  "(\<And>x. x \<in> set xs \<Longrightarrow> m' x = m x) \<Longrightarrow> dseg m' h p xs n t = dseg m h p xs n t"
  by (induction xs arbitrary: h p) auto

lemma dseg_frame [simp]:
  "a \<notin> set xs \<Longrightarrow> dseg (set_next a v m) h p xs n t = dseg m h p xs n t"
  "a \<notin> set xs \<Longrightarrow> dseg (set_prev a v m) h p xs n t = dseg m h p xs n t"
proof -
  assume "a \<notin> set xs"
  then have "\<And>x. x \<in> set xs \<Longrightarrow> x \<noteq> a" by auto
  then show "dseg (set_next a v m) h p xs n t = dseg m h p xs n t"
    and "dseg (set_prev a v m) h p xs n t = dseg m h p xs n t"
    by (auto intro!: dseg_cong)
qed

lemma dseg_snoc:
  "dseg m h p (xs @ [x]) n t \<longleftrightarrow>
     t = Some x \<and> node_next (m x) = n \<and> (\<exists>l. dseg m h p xs (Some x) l \<and> node_prev (m x) = l)"
  by (auto simp: dseg_append)

lemma dseg_functional: "dseg m h p xs n t \<Longrightarrow> dseg m h p xs n' t' \<Longrightarrow> n = n' \<and> t = t'"
  by (induction xs arbitrary: h p) auto

text \<open>The node memory and the header determine the list, so the abstraction is functional.\<close>

lemma dseg_list_unique:
  "dseg m h p xs None t \<Longrightarrow> dseg m h p ys None t' \<Longrightarrow> xs = ys"
proof (induction xs arbitrary: h p ys)
  case Nil
  then show ?case by (cases ys) auto
next
  case (Cons x xs)
  then show ?case by (cases ys) auto
qed

lemma queue_rep_unique: "queue_rep q m xs \<Longrightarrow> queue_rep q m ys \<Longrightarrow> xs = ys"
  unfolding queue_rep_def by (elim conjE) (rule dseg_list_unique)

lemma queue_rep_cong:
  "(\<And>x. x \<in> set xs \<Longrightarrow> m' x = m x) \<Longrightarrow> queue_rep q m' xs = queue_rep q m xs"
  by (simp add: queue_rep_def dseg_cong [of xs m' m])

lemma queue_rep_distinct: "queue_rep q m xs \<Longrightarrow> distinct xs"
  by (simp add: queue_rep_def)

lemma queue_rep_init: "queue_rep queue_init m []"
  by (simp add: queue_rep_def queue_init_def)

lemma queue_rep_head: "queue_rep q m xs \<Longrightarrow> q_head q = (case xs of [] \<Rightarrow> None | x # _ \<Rightarrow> Some x)"
  by (cases xs) (auto simp: queue_rep_def)

lemma queue_rep_tail:
  "queue_rep q m xs \<Longrightarrow> q_tail q = (if xs = [] then None else Some (last xs))"
  by (cases xs rule: rev_cases) (auto simp: queue_rep_def dseg_snoc)

lemma queue_rep_next:
  assumes "queue_rep q m (xs @ n # ys)"
  shows "node_next (m n) = (case ys of [] \<Rightarrow> None | y # _ \<Rightarrow> Some y)"
  using assms by (cases ys) (auto simp: queue_rep_def dseg_append)

lemma queue_rep_prev:
  assumes "queue_rep q m (xs @ n # ys)"
  shows "node_prev (m n) = (if xs = [] then None else Some (last xs))"
  using assms by (cases xs rule: rev_cases) (auto simp: queue_rep_def dseg_append)


section \<open>The operations refine list operations\<close>

lemma queue_insert_refines:
  assumes "queue_rep q m xs" "n \<notin> set xs" "queue_insert q n m = (q', m')"
  shows "queue_rep q' m' (n # xs)"
  using assms by (cases xs) (auto simp: queue_insert_def queue_rep_def Let_def)

lemma queue_insert_frame:
  assumes "queue_rep q m xs" "queue_insert q n m = (q', m')" "x \<notin> insert n (set xs)"
  shows "m' x = m x"
  using assms queue_rep_head [OF assms(1)]
  by (cases xs) (auto simp: queue_insert_def Let_def)

lemma queue_insert_after_refines:
  assumes "queue_rep q m (xs @ a # ys)" "n \<notin> set (xs @ a # ys)"
    and "queue_insert_after q n (Some a) m = (q', m')"
  shows "queue_rep q' m' (xs @ a # n # ys)"
proof -
  have nx: "node_next (m a) = (case ys of [] \<Rightarrow> None | y # _ \<Rightarrow> Some y)"
    using assms(1) by (rule queue_rep_next)
  show ?thesis
    using assms nx
    by (cases ys) (auto simp: queue_insert_after_def queue_rep_def Let_def dseg_append)
qed

lemma queue_insert_after_None:
  "queue_insert_after q n None m = queue_insert q n m"
  by (auto simp: queue_insert_after_def queue_insert_def Let_def split: option.splits)

lemma queue_insert_after_frame:
  assumes "queue_rep q m (xs @ a # ys)" "queue_insert_after q n (Some a) m = (q', m')"
    and "x \<notin> insert n (set (xs @ a # ys))"
  shows "m' x = m x"
  using assms queue_rep_next [OF assms(1)]
  by (cases ys) (auto simp: queue_insert_after_def Let_def)

lemma queue_remove_nodes:
  assumes "queue_rep q m (xs @ n # ys)"
  shows "queue_remove q n m =
    (\<lparr>q_head = (if xs = [] then (case ys of [] \<Rightarrow> None | y # _ \<Rightarrow> Some y) else q_head q),
      q_tail = (if ys = [] then (if xs = [] then None else Some (last xs)) else q_tail q)\<rparr>,
     set_prev n None (set_next n None
       ((if xs = [] then id else set_next (last xs) (case ys of [] \<Rightarrow> None | y # _ \<Rightarrow> Some y))
         ((case ys of [] \<Rightarrow> id
             | y # _ \<Rightarrow> set_prev y (if xs = [] then None else Some (last xs))) m))))"
proof -
  note nx = queue_rep_next [OF assms] and pv = queue_rep_prev [OF assms]
  have "distinct (xs @ n # ys)" using assms by (rule queue_rep_distinct)
  then have "ys \<noteq> [] \<Longrightarrow> n \<noteq> hd ys" by (cases ys) auto
  then show ?thesis
    using nx pv by (cases ys; cases "xs = []") (simp_all add: queue_remove_def)
qed

lemma queue_remove_refines:
  assumes rep: "queue_rep q m (xs @ n # ys)" and rm: "queue_remove q n m = (q', m')"
  shows "queue_rep q' m' (xs @ ys)"
proof -
  have dist: "distinct (xs @ n # ys)" using rep by (rule queue_rep_distinct)
  show ?thesis
  proof (cases xs rule: rev_cases)
    case Nil
    then show ?thesis
      using rep rm queue_remove_nodes [OF rep] dist
      by (cases ys) (auto simp: queue_rep_def)
  next
    case (snoc zs z)
    then show ?thesis
      using rep rm queue_remove_nodes [OF rep] dist
      by (cases ys) (auto simp: queue_rep_def dseg_append)
  qed
qed

lemma queue_remove_detaches:
  assumes "queue_remove q n m = (q', m')"
  shows "node_next (m' n) = None" "node_prev (m' n) = None"
  using assms by (auto simp: queue_remove_def Let_def split: option.splits)

lemma queue_remove_frame:
  assumes rep: "queue_rep q m (xs @ n # ys)" and rm: "queue_remove q n m = (q', m')"
    and "x \<notin> set (xs @ n # ys)"
  shows "m' x = m x"
  using assms(3) rm queue_remove_nodes [OF rep]
  by (cases ys; cases xs rule: rev_cases) auto

text \<open>
  Removing a node that is in no queue (both of its pointers are \<^verbatim>\<open>NULL\<close>) does not leave the
  queue alone: it makes the header empty, whatever the queue held.
\<close>

lemma queue_remove_detached:
  assumes "node_next (m n) = None" "node_prev (m n) = None"
  shows "queue_remove q n m = (queue_init, m)"
  using assms by (auto simp: queue_remove_def queue_init_def Let_def set_next_def set_prev_def)


lemma queue_insert_after_tail:
  assumes "queue_rep q m xs" "n \<notin> set xs" "queue_insert_after q n (q_tail q) m = (q', m')"
  shows "queue_rep q' m' (xs @ [n])"
proof (cases xs rule: rev_cases)
  case Nil
  then show ?thesis
    using assms queue_rep_tail [OF assms(1)]
    by (auto simp: queue_insert_after_None dest: queue_insert_refines)
next
  case (snoc ys y)
  then show ?thesis
    using assms queue_rep_tail [OF assms(1)]
      queue_insert_after_refines [of q m ys y "[]" n q' m'] by simp
qed

section \<open>The interface the other components rely on\<close>

text \<open>
  The contract of a node queue: each operation acts on the represented list, and every
  other queue on disjoint nodes of the same memory stays as it was. The lemmas below are the
  compound moves of the kernel: from one queue to another (suspending and resuming a
  process), to the front of the same queue (the least recently used caches), behind a given
  node (rescheduling a process next).
\<close>

locale node_queue =
  fixes ins :: "'q \<Rightarrow> 'a \<Rightarrow> 'm \<Rightarrow> 'q \<times> 'm"
    and ins_after :: "'q \<Rightarrow> 'a \<Rightarrow> 'a option \<Rightarrow> 'm \<Rightarrow> 'q \<times> 'm"
    and rem :: "'q \<Rightarrow> 'a \<Rightarrow> 'm \<Rightarrow> 'q \<times> 'm"
    and rep :: "'q \<Rightarrow> 'm \<Rightarrow> 'a list \<Rightarrow> bool"
  assumes rep_dist: "rep q m xs \<Longrightarrow> distinct xs"
    and rep_fun: "rep q m xs \<Longrightarrow> rep q m ys \<Longrightarrow> xs = ys"
    and ins_rep: "rep q m xs \<Longrightarrow> n \<notin> set xs \<Longrightarrow> ins q n m = (q', m') \<Longrightarrow> rep q' m' (n # xs)"
    and ins_frame: "rep q m xs \<Longrightarrow> ins q n m = (q', m') \<Longrightarrow> rep p m ys \<Longrightarrow>
          n \<notin> set ys \<Longrightarrow> set xs \<inter> set ys = {} \<Longrightarrow> rep p m' ys"
    and ins_after_rep: "rep q m (xs @ a # ys) \<Longrightarrow> n \<notin> set (xs @ a # ys) \<Longrightarrow>
          ins_after q n (Some a) m = (q', m') \<Longrightarrow> rep q' m' (xs @ a # n # ys)"
    and ins_after_frame: "rep q m (xs @ a # ys) \<Longrightarrow> ins_after q n (Some a) m = (q', m') \<Longrightarrow>
          rep p m zs \<Longrightarrow> n \<notin> set zs \<Longrightarrow> set (xs @ a # ys) \<inter> set zs = {} \<Longrightarrow> rep p m' zs"
    and rem_rep: "rep q m (xs @ n # ys) \<Longrightarrow> rem q n m = (q', m') \<Longrightarrow> rep q' m' (xs @ ys)"
    and rem_frame: "rep q m (xs @ n # ys) \<Longrightarrow> rem q n m = (q', m') \<Longrightarrow> rep p m zs \<Longrightarrow>
          set (xs @ n # ys) \<inter> set zs = {} \<Longrightarrow> rep p m' zs"
begin

lemma rem_member:
  assumes "rep q m xs" "n \<in> set xs" "rem q n m = (q', m')"
  shows "rep q' m' (remove1 n xs)"
proof -
  from assms(2) obtain ys zs where xs: "xs = ys @ n # zs" and "n \<notin> set ys"
    by (meson split_list_first)
  then have "remove1 n xs = ys @ zs" by (simp add: remove1_append)
  then show ?thesis using rem_rep [of q m ys n zs q' m'] assms(1,3) xs by simp
qed

lemma rem_member_frame:
  assumes "rep q m xs" "n \<in> set xs" "rem q n m = (q', m')" "rep p m ys" "set xs \<inter> set ys = {}"
  shows "rep p m' ys"
proof -
  from assms(2) obtain us vs where "xs = us @ n # vs" by (meson split_list)
  then show ?thesis using assms rem_frame [of q m us n vs q' m' p ys] by simp
qed

lemma not_in_remove1: "rep q m xs \<Longrightarrow> n \<notin> set (remove1 n xs)"
  using rep_dist by auto

text \<open>Taking a node out of one queue and putting it at the front of another.\<close>

lemma transfer:
  assumes "rep q m xs" "n \<in> set xs" "rep p m ys" "set xs \<inter> set ys = {}"
    and "rem q n m = (q', m1)" "ins p n m1 = (p', m2)"
  shows "rep q' m2 (remove1 n xs)" "rep p' m2 (n # ys)"
proof -
  have q: "rep q' m1 (remove1 n xs)" using assms(1,2,5) by (rule rem_member)
  have p: "rep p m1 ys" using assms(1,2,5,3,4) by (rule rem_member_frame)
  have n: "n \<notin> set ys" using assms(2,4) by auto
  show "rep p' m2 (n # ys)" using ins_rep [OF p n assms(6)] .
  have "set ys \<inter> set (remove1 n xs) = {}"
    using assms(4) by (meson disjoint_iff notin_set_remove1)
  then show "rep q' m2 (remove1 n xs)"
    using ins_frame [OF p assms(6) q] not_in_remove1 [OF assms(1)] by blast
qed

text \<open>Moving a node to the front of its own queue.\<close>

lemma move_front:
  assumes "rep q m xs" "n \<in> set xs" "rem q n m = (q1, m1)" "ins q1 n m1 = (q2, m2)"
  shows "rep q2 m2 (n # remove1 n xs)"
  using ins_rep [OF rem_member [OF assms(1-3)] not_in_remove1 [OF assms(1)] assms(4)] .

lemma move_front_frame:
  assumes "rep q m xs" "n \<in> set xs" "rem q n m = (q1, m1)" "ins q1 n m1 = (q2, m2)"
    and "rep p m ys" "set xs \<inter> set ys = {}"
  shows "rep p m2 ys"
proof -
  have "set (remove1 n xs) \<inter> set ys = {}"
    using assms(6) by (meson disjoint_iff notin_set_remove1)
  moreover have "n \<notin> set ys" using assms(2,6) by auto
  ultimately show ?thesis
    using ins_frame [OF rem_member [OF assms(1-3)] assms(4) rem_member_frame [OF assms(1-3,5,6)]]
    by simp
qed

text \<open>Moving a node behind another one of the same queue.\<close>

lemma move_after:
  assumes "rep q m xs" "n \<in> set xs" "a \<in> set xs" "a \<noteq> n"
    and "rem q n m = (q1, m1)" "ins_after q1 n (Some a) m1 = (q2, m2)"
  obtains ys zs where "remove1 n xs = ys @ a # zs" "rep q2 m2 (ys @ a # n # zs)"
proof -
  have r: "rep q1 m1 (remove1 n xs)" using assms(1,2,5) by (rule rem_member)
  have "a \<in> set (remove1 n xs)" using assms(3,4) by simp
  then obtain ys zs where yz: "remove1 n xs = ys @ a # zs" by (meson split_list)
  then have "rep q2 m2 (ys @ a # n # zs)"
    using ins_after_rep [of q1 m1 ys a zs n q2 m2] r assms(6) not_in_remove1 [OF assms(1), of n]
    by simp
  with yz show ?thesis by (rule that)
qed

end

lemma queue_frame_rep:
  assumes "queue_rep p m ys" "\<And>x. x \<in> set ys \<Longrightarrow> m' x = m x"
  shows "queue_rep p m' ys"
  using assms queue_rep_cong by blast

interpretation nq: node_queue queue_insert queue_insert_after queue_remove queue_rep
proof unfold_locales
  fix q p :: "'a queue" and m :: "'a nodes" and xs ys zs n a q' m'
  show "queue_rep q m xs \<Longrightarrow> distinct xs" by (rule queue_rep_distinct)
  show "queue_rep q m xs \<Longrightarrow> queue_rep q m ys \<Longrightarrow> xs = ys" by (rule queue_rep_unique)
  show "queue_rep q m xs \<Longrightarrow> n \<notin> set xs \<Longrightarrow> queue_insert q n m = (q', m') \<Longrightarrow>
      queue_rep q' m' (n # xs)" by (rule queue_insert_refines)
  show "queue_rep q m xs \<Longrightarrow> queue_insert q n m = (q', m') \<Longrightarrow> queue_rep p m ys \<Longrightarrow>
      n \<notin> set ys \<Longrightarrow> set xs \<inter> set ys = {} \<Longrightarrow> queue_rep p m' ys"
    by (rule queue_frame_rep, assumption, erule queue_insert_frame) auto
  show "queue_rep q m (xs @ a # ys) \<Longrightarrow> n \<notin> set (xs @ a # ys) \<Longrightarrow>
      queue_insert_after q n (Some a) m = (q', m') \<Longrightarrow> queue_rep q' m' (xs @ a # n # ys)"
    by (rule queue_insert_after_refines)
  show "queue_rep q m (xs @ a # ys) \<Longrightarrow> queue_insert_after q n (Some a) m = (q', m') \<Longrightarrow>
      queue_rep p m zs \<Longrightarrow> n \<notin> set zs \<Longrightarrow> set (xs @ a # ys) \<inter> set zs = {} \<Longrightarrow> queue_rep p m' zs"
    by (rule queue_frame_rep, assumption, erule queue_insert_after_frame) auto
  show "queue_rep q m (xs @ n # ys) \<Longrightarrow> queue_remove q n m = (q', m') \<Longrightarrow>
      queue_rep q' m' (xs @ ys)" by (rule queue_remove_refines)
  show "queue_rep q m (xs @ n # ys) \<Longrightarrow> queue_remove q n m = (q', m') \<Longrightarrow> queue_rep p m zs \<Longrightarrow>
      set (xs @ n # ys) \<inter> set zs = {} \<Longrightarrow> queue_rep p m' zs"
    by (rule queue_frame_rep, assumption, erule queue_remove_frame) auto
qed

section \<open>Sequences of operations\<close>

datatype 'a queue_op = Insert 'a | Insert_after 'a 'a | Remove 'a

fun queue_step :: "'a queue \<times> 'a nodes \<Rightarrow> 'a queue_op \<Rightarrow> 'a queue \<times> 'a nodes" where
  "queue_step (q, m) (Insert n) = queue_insert q n m"
| "queue_step (q, m) (Insert_after n a) = queue_insert_after q n (Some a) m"
| "queue_step (q, m) (Remove n) = queue_remove q n m"

text \<open>
  The same operations on lists. A node may be inserted only when it is not in the queue, and
  only behind a member; only a member may be removed.
\<close>

fun list_insert_after :: "'a \<Rightarrow> 'a \<Rightarrow> 'a list \<Rightarrow> 'a list" where
  "list_insert_after n a [] = []"
| "list_insert_after n a (x # xs) = (if x = a then x # n # xs else x # list_insert_after n a xs)"

fun list_step :: "'a list \<Rightarrow> 'a queue_op \<Rightarrow> 'a list option" where
  "list_step xs (Insert n) = (if n \<in> set xs then None else Some (n # xs))"
| "list_step xs (Insert_after n a) =
     (if n \<in> set xs \<or> a \<notin> set xs then None else Some (list_insert_after n a xs))"
| "list_step xs (Remove n) = (if n \<in> set xs then Some (remove1 n xs) else None)"

fun list_steps :: "'a list \<Rightarrow> 'a queue_op list \<Rightarrow> 'a list option" where
  "list_steps xs [] = Some xs"
| "list_steps xs (op # ops) = (case list_step xs op of None \<Rightarrow> None | Some ys \<Rightarrow> list_steps ys ops)"

lemma list_insert_after_split:
  "a \<notin> set xs \<Longrightarrow> list_insert_after n a (xs @ a # ys) = xs @ a # n # ys"
  by (induction xs) auto

lemma queue_step_refines:
  assumes "queue_rep q m xs" "list_step xs op = Some ys" "queue_step (q, m) op = (q', m')"
  shows "queue_rep q' m' ys"
proof (cases op)
  case (Insert n)
  then show ?thesis using assms queue_insert_refines by (auto split: if_splits)
next
  case (Remove n)
  then show ?thesis using assms nq.rem_member by (auto split: if_splits)
next
  case (Insert_after n a)
  then have n: "n \<notin> set xs" "a \<in> set xs" "ys = list_insert_after n a xs"
    using assms(2) by (auto split: if_splits)
  then obtain us vs where xs: "xs = us @ a # vs" "a \<notin> set us" by (meson split_list_first)
  then show ?thesis
    using Insert_after n assms(1,3) queue_insert_after_refines [of q m us a vs n q' m']
    by (simp add: list_insert_after_split)
qed

text \<open>
  C3. A queue refines a list: after any sequence of insertions at the head, insertions behind a
  member and removals of members, starting from a queue that holds \<open>xs\<close>, following the pointers
  from the head visits exactly the nodes the same operations on lists give, in that order, the
  \<^verbatim>\<open>prev\<close> pointers run back over the same nodes and the tail is the last of them.
\<close>

theorem queue_steps_refine:
  assumes "queue_rep q m xs" "list_steps xs ops = Some ys" "foldl queue_step (q, m) ops = (q', m')"
  shows "queue_rep q' m' ys"
  using assms
proof (induction ops arbitrary: q m xs)
  case Nil
  then show ?case by simp
next
  case (Cons op ops)
  obtain zs where zs: "list_step xs op = Some zs" "list_steps zs ops = Some ys"
    using Cons.prems(2) by (auto split: option.splits)
  obtain q1 m1 where 1: "queue_step (q, m) op = (q1, m1)" by fastforce
  show ?case
    using Cons.IH [OF queue_step_refines [OF Cons.prems(1) zs(1) 1] zs(2)] Cons.prems(3) 1 by simp
qed

definition no_nodes :: "nat nodes" where
  "no_nodes = (\<lambda>_. \<lparr>node_next = None, node_prev = None\<rparr>)"

theorem queue_steps_refine_witness:
  "list_steps [] [Insert 1, Insert 2, Insert_after 3 2, Remove 2] = Some [3, 1 :: nat] \<and>
   queue_rep (fst (foldl queue_step (queue_init, no_nodes) [Insert 1, Insert 2, Insert_after 3 2, Remove 2]))
     (snd (foldl queue_step (queue_init, no_nodes) [Insert 1, Insert 2, Insert_after 3 2, Remove 2])) [3, 1]"
  using queue_steps_refine [OF queue_rep_init [of no_nodes], of "[Insert 1, Insert 2, Insert_after 3 2, Remove 2]" "[3, 1]"]
  by simp

text \<open>
  \<^verbatim>\<open>_queue_remove\<close> of a node that is in no queue loses the whole queue: the header is
  emptied although the nodes it held are still linked to each other.
\<close>

theorem queue_remove_detached_loses_queue:
  assumes "queue_rep q m xs" "xs \<noteq> []" "node_next (m n) = None" "node_prev (m n) = None"
    and "queue_remove q n m = (q', m')"
  shows "queue_rep q' m' [] \<and> \<not> queue_rep q' m' xs \<and> m' = m"
  using queue_remove_detached [of m n q] assms queue_rep_init [of m] queue_rep_unique [of queue_init m xs "[]"]
  by auto

theorem queue_remove_detached_loses_queue_witness:
  "queue_rep (fst (queue_remove (fst (queue_insert queue_init 1 no_nodes)) 2 (snd (queue_insert queue_init 1 no_nodes))))
     (snd (queue_remove (fst (queue_insert queue_init 1 no_nodes)) 2 (snd (queue_insert queue_init 1 no_nodes)))) []"
proof -
  let ?i = "queue_insert queue_init 1 no_nodes"
  let ?r = "queue_remove (fst ?i) 2 (snd ?i)"
  have "queue_rep (fst ?i) (snd ?i) [1]"
    using queue_insert_refines [OF queue_rep_init, of 1 no_nodes "fst ?i" "snd ?i"] by simp
  moreover have "node_next (snd ?i 2) = None" "node_prev (snd ?i 2) = None"
    by (simp_all add: queue_insert_def queue_init_def no_nodes_def)
  ultimately show ?thesis
    by (intro conjunct1 [OF queue_remove_detached_loses_queue [of "fst ?i" "snd ?i" "[1]" 2 "fst ?r" "snd ?r"]])
      simp_all
qed

end
