(* ===== verification/Files.thy ===== *)
theory Files
  imports Kernel_Prelude "HOL-Library.Monad_Syntax" "HOL-Library.Multiset"
begin

text \<open>
  Open files: the vnode and file structures of \<^verbatim>\<open>include/kernel/fs/vfs.h\<close>, the file table of
  \<^verbatim>\<open>src/kernel/fs/fileptr.c\<close>, the descriptor tables of \<^verbatim>\<open>src/kernel/proc/filedesc.c\<close>, and the reference
  counting functions of \<^verbatim>\<open>src/kernel/fs/vfs.c\<close> they use.

  Vnodes and descriptor tables are named by their addresses (0 is \<^verbatim>\<open>NULL\<close>), a file is named by its
  index in the file table, which holds every \<^verbatim>\<open>struct vfile\<close> of the kernel. A table of operations is a
  number, and \<open>vfs_env\<close> holds the functions behind the numbers: they belong to the file systems and
  act on the whole state, whose record is extensible so that the process state can extend it. The
  addresses given to \<^verbatim>\<open>kmfree\<close> are collected in \<open>fs_freed\<close>.

  The main result is that the reference count of every open file is the number of
  descriptors that refer to it, together with the references held elsewhere, under all the operations on
  descriptor tables.
\<close>

section \<open>The data\<close>

record vnode =
  vn_ops :: nat
  vn_mp :: nat
  vn_refcount :: int
  vn_mode :: u16
  vn_nlinks :: int
  vn_uid :: u16
  vn_gid :: u16
  vn_bits :: u16
  vn_rdev :: int
  vn_ino :: nat
  vn_size :: nat
  vn_atime :: int
  vn_mtime :: int
  vn_ctime :: int

record vfile =
  vf_ops :: nat
  vf_vnode :: nat
  vf_refcount :: int
  vf_flags :: int
  vf_position :: nat

record fd_table =
  fdt_refcount :: int
  fdt_files :: "nat option list"

record fs_state =
  fs_file_table :: "nat \<Rightarrow> vfile"
  fs_vnodes :: "nat \<Rightarrow> vnode"
  fs_fd_tables :: "nat \<Rightarrow> fd_table"
  fs_freed :: "nat list"

text \<open>The functions behind the operation tables.\<close>

record 's vfs_env =
  ve_fops :: "nat \<Rightarrow> nat"
  ve_close :: "nat \<Rightarrow> nat \<Rightarrow> 's \<Rightarrow> 's \<times> int"
  ve_poll :: "nat \<Rightarrow> nat \<Rightarrow> u32 \<Rightarrow> 's \<Rightarrow> u32"
  ve_release :: "nat \<Rightarrow> nat \<Rightarrow> 's \<Rightarrow> 's \<times> int"

definition FILE_TABLE_MAX :: nat where "FILE_TABLE_MAX = 16"
definition OPEN_MAX :: nat where "OPEN_MAX = 20"

definition upd_file :: "nat \<Rightarrow> (vfile \<Rightarrow> vfile) \<Rightarrow> 'a fs_state_scheme \<Rightarrow> 'a fs_state_scheme" where
  "upd_file f g s = s\<lparr>fs_file_table := (fs_file_table s)(f := g (fs_file_table s f))\<rparr>"

definition upd_vnode :: "nat \<Rightarrow> (vnode \<Rightarrow> vnode) \<Rightarrow> 'a fs_state_scheme \<Rightarrow> 'a fs_state_scheme" where
  "upd_vnode v g s = s\<lparr>fs_vnodes := (fs_vnodes s)(v := g (fs_vnodes s v))\<rparr>"

definition upd_fd_table :: "nat \<Rightarrow> (fd_table \<Rightarrow> fd_table) \<Rightarrow> 'a fs_state_scheme \<Rightarrow> 'a fs_state_scheme" where
  "upd_fd_table t g s = s\<lparr>fs_fd_tables := (fs_fd_tables s)(t := g (fs_fd_tables s t))\<rparr>"

definition kmfree_log :: "nat \<Rightarrow> 'a fs_state_scheme \<Rightarrow> 'a fs_state_scheme" where
  "kmfree_log p s = s\<lparr>fs_freed := p # fs_freed s\<rparr>"

section \<open>Vnodes\<close>

definition vfs_init_vnode ::
    "nat \<Rightarrow> nat \<Rightarrow> nat \<Rightarrow> u16 \<Rightarrow> int \<Rightarrow> u16 \<Rightarrow> u16 \<Rightarrow> int \<Rightarrow> nat \<Rightarrow> nat \<Rightarrow> int \<Rightarrow> int \<Rightarrow> int \<Rightarrow>
     'a fs_state_scheme \<Rightarrow> 'a fs_state_scheme" where
  "vfs_init_vnode v ops mp mode nlinks uid gid rdev ino size' atime mtime ctime =
     upd_vnode v (\<lambda>_. \<lparr>vn_ops = ops, vn_mp = mp, vn_refcount = 1, vn_mode = mode, vn_nlinks = nlinks,
       vn_uid = uid, vn_gid = gid, vn_bits = 0, vn_rdev = rdev, vn_ino = ino, vn_size = size',
       vn_atime = atime, vn_mtime = mtime, vn_ctime = ctime\<rparr>)"

definition vfs_clone_vnode :: "nat \<Rightarrow> 'a fs_state_scheme \<Rightarrow> 'a fs_state_scheme" where
  "vfs_clone_vnode v = upd_vnode v (\<lambda>n. n\<lparr>vn_refcount := to_int (vn_refcount n + 1)\<rparr>)"

definition vfs_release_vnode ::
    "'a fs_state_scheme vfs_env \<Rightarrow> nat \<Rightarrow> 'a fs_state_scheme \<Rightarrow> 'a fs_state_scheme \<times> int" where
  "vfs_release_vnode ve v s =
     (if v = 0 then (s, 0)
      else let s1 = upd_vnode v (\<lambda>n. n\<lparr>vn_refcount := to_int (vn_refcount n - 1)\<rparr>) s;
               n = fs_vnodes s1 v
           in if vn_refcount n < 0 then (s1, 0)
              else if vn_refcount n = 0 then ve_release ve (vn_ops n) v s1
              else (s1, 0))"

section \<open>The file table\<close>

definition init_fileptr_table :: "'a fs_state_scheme \<Rightarrow> 'a fs_state_scheme" where
  "init_fileptr_table =
     fold (\<lambda>i. upd_file i (\<lambda>f. f\<lparr>vf_ops := 0, vf_vnode := 0, vf_refcount := 0\<rparr>)) [0..<FILE_TABLE_MAX]"

definition new_fileptr ::
    "'a fs_state_scheme vfs_env \<Rightarrow> nat \<Rightarrow> int \<Rightarrow> 'a fs_state_scheme \<Rightarrow> 'a fs_state_scheme \<times> nat option" where
  "new_fileptr ve v flags s =
     (case find (\<lambda>i. vf_vnode (fs_file_table s i) = 0) [0..<FILE_TABLE_MAX] of
        Some i \<Rightarrow> (upd_file i (\<lambda>_. \<lparr>vf_ops = ve_fops ve (vn_ops (fs_vnodes s v)), vf_vnode = v,
                    vf_refcount = 1, vf_flags = to_short flags, vf_position = 0\<rparr>) s, Some i)
      | None \<Rightarrow> (s, None))"

definition dup_fileptr :: "nat \<Rightarrow> 'a fs_state_scheme \<Rightarrow> 'a fs_state_scheme \<times> nat" where
  "dup_fileptr f s = (upd_file f (\<lambda>x. x\<lparr>vf_refcount := to_short (vf_refcount x + 1)\<rparr>) s, f)"

definition free_fileptr :: "'a fs_state_scheme vfs_env \<Rightarrow> nat \<Rightarrow> 'a fs_state_scheme \<Rightarrow> 'a fs_state_scheme" where
  "free_fileptr ve f s =
     (let s1 = upd_file f (\<lambda>x. x\<lparr>vf_refcount := to_short (vf_refcount x - 1)\<rparr>) s;
          x = fs_file_table s1 f
      in if vf_refcount x < 0 then s1
         else if vf_refcount x = 0 then
           upd_file f (\<lambda>x. x\<lparr>vf_vnode := 0\<rparr>) (fst (vfs_release_vnode ve (vf_vnode x) s1))
         else s1)"

definition vfs_clone_fileptr :: "nat \<Rightarrow> 'a fs_state_scheme \<Rightarrow> 'a fs_state_scheme \<times> nat" where
  "vfs_clone_fileptr f s = dup_fileptr f s"

definition vfs_close ::
    "'a fs_state_scheme vfs_env \<Rightarrow> nat \<Rightarrow> 'a fs_state_scheme \<Rightarrow> 'a fs_state_scheme \<times> int" where
  "vfs_close ve f s =
     (let (s1, error) = (if vf_refcount (fs_file_table s f) = 1
                         then ve_close ve (vf_ops (fs_file_table s f)) f s else (s, 0))
      in (free_fileptr ve f s1, error))"

definition vfs_poll :: "'a fs_state_scheme vfs_env \<Rightarrow> nat \<Rightarrow> u32 \<Rightarrow> 'a fs_state_scheme \<Rightarrow> u32" where
  "vfs_poll ve f events s = ve_poll ve (vf_ops (fs_file_table s f)) f events s"

section \<open>Descriptor tables\<close>

text \<open>An index outside of the array gives \<open>None\<close>.\<close>

definition fd_at :: "nat \<Rightarrow> int \<Rightarrow> 'a fs_state_scheme \<Rightarrow> nat option option" where
  "fd_at t fd s =
     (if 0 \<le> fd \<and> nat fd < length (fdt_files (fs_fd_tables s t)) then Some (fdt_files (fs_fd_tables s t) ! nat fd)
      else None)"

definition put_fd :: "nat \<Rightarrow> int \<Rightarrow> nat option \<Rightarrow> 'a fs_state_scheme \<Rightarrow> 'a fs_state_scheme option" where
  "put_fd t fd f s =
     (if 0 \<le> fd \<and> nat fd < length (fdt_files (fs_fd_tables s t))
      then Some (upd_fd_table t (\<lambda>x. x\<lparr>fdt_files := (fdt_files x)[nat fd := f]\<rparr>) s)
      else None)"

definition init_fd_table :: "nat \<Rightarrow> 'a fs_state_scheme \<Rightarrow> 'a fs_state_scheme" where
  "init_fd_table t = upd_fd_table t (\<lambda>_. \<lparr>fdt_refcount = 1, fdt_files = replicate OPEN_MAX None\<rparr>)"

text \<open>The argument \<open>t\<close> is the address \<^verbatim>\<open>kzalloc\<close> returns.\<close>

definition alloc_fd_table :: "nat \<Rightarrow> 'a fs_state_scheme \<Rightarrow> 'a fs_state_scheme \<times> nat" where
  "alloc_fd_table t s = (init_fd_table t s, t)"

definition make_ref_fd_table :: "nat \<Rightarrow> 'a fs_state_scheme \<Rightarrow> 'a fs_state_scheme \<times> nat" where
  "make_ref_fd_table t s = (upd_fd_table t (\<lambda>x. x\<lparr>fdt_refcount := to_int (fdt_refcount x + 1)\<rparr>) s, t)"

fun release_fds :: "'a fs_state_scheme vfs_env \<Rightarrow> nat \<Rightarrow> nat list \<Rightarrow> 'a fs_state_scheme \<Rightarrow> 'a fs_state_scheme option" where
  "release_fds ve t [] s = Some s"
| "release_fds ve t (i # is) s =
     do {
       f \<leftarrow> fd_at t (int i) s;
       case f of
         Some x \<Rightarrow> do {
           s2 \<leftarrow> put_fd t (int i) None (fst (vfs_close ve x s));
           release_fds ve t is s2
         }
       | None \<Rightarrow> release_fds ve t is s
     }"

definition release_fd_table :: "'a fs_state_scheme vfs_env \<Rightarrow> nat \<Rightarrow> 'a fs_state_scheme \<Rightarrow> 'a fs_state_scheme option" where
  "release_fd_table ve t s = release_fds ve t [0..<OPEN_MAX] s"

definition free_fd_table :: "'a fs_state_scheme vfs_env \<Rightarrow> nat \<Rightarrow> 'a fs_state_scheme \<Rightarrow> 'a fs_state_scheme option" where
  "free_fd_table ve t s =
     (let s1 = upd_fd_table t (\<lambda>x. x\<lparr>fdt_refcount := to_int (fdt_refcount x - 1)\<rparr>) s;
          r = fdt_refcount (fs_fd_tables s1 t)
      in if r < 0 then Some s1
         else if r = 0 then map_option (kmfree_log t) (release_fd_table ve t s1)
         else Some s1)"

fun dup_fds :: "nat \<Rightarrow> nat \<Rightarrow> nat list \<Rightarrow> 'a fs_state_scheme \<Rightarrow> 'a fs_state_scheme option" where
  "dup_fds dest source [] s = Some s"
| "dup_fds dest source (i # is) s =
     do {
       f \<leftarrow> fd_at source (int i) s;
       case f of
         Some x \<Rightarrow> do {
           let (s1, y) = vfs_clone_fileptr x s;
           s2 \<leftarrow> put_fd dest (int i) (Some y) s1;
           dup_fds dest source is s2
         }
       | None \<Rightarrow> dup_fds dest source is s
     }"

definition dup_fd_table :: "nat \<Rightarrow> nat \<Rightarrow> int \<Rightarrow> 'a fs_state_scheme \<Rightarrow> 'a fs_state_scheme option" where
  "dup_fd_table dest source limit s =
     (let limit' = (if limit = 0 then int OPEN_MAX - 1 else limit)
      in dup_fds dest source [0..<nat (limit' + 1)] s)"

definition find_unused_fd :: "nat \<Rightarrow> 'a fs_state_scheme \<Rightarrow> int" where
  "find_unused_fd t s =
     (case find (\<lambda>i. fd_at t (int i) s = Some None) [0..<OPEN_MAX] of Some i \<Rightarrow> int i | None \<Rightarrow> EMFILE)"

definition get_fd :: "nat \<Rightarrow> int \<Rightarrow> 'a fs_state_scheme \<Rightarrow> nat option option" where
  "get_fd t fd s =
     (if fd \<ge> int OPEN_MAX then Some None
      else do {
        f \<leftarrow> fd_at t fd s;
        x \<leftarrow> f;
        if vf_vnode (fs_file_table s x) = 0 then Some None else Some (Some x)
      })"

definition set_fd :: "nat \<Rightarrow> int \<Rightarrow> nat option \<Rightarrow> 'a fs_state_scheme \<Rightarrow> 'a fs_state_scheme option" where
  "set_fd t fd f s = (if fd \<ge> int OPEN_MAX then Some s else put_fd t fd f s)"

definition dup_fd :: "nat \<Rightarrow> int \<Rightarrow> nat \<Rightarrow> 'a fs_state_scheme \<Rightarrow> 'a fs_state_scheme option" where
  "dup_fd t fd f s =
     (if fd \<ge> int OPEN_MAX then Some s
      else let (s1, y) = vfs_clone_fileptr f s in put_fd t fd (Some y) s1)"

definition free_fd :: "'a fs_state_scheme vfs_env \<Rightarrow> nat \<Rightarrow> int \<Rightarrow> 'a fs_state_scheme \<Rightarrow> 'a fs_state_scheme option" where
  "free_fd ve t fd s =
     do {
       f \<leftarrow> fd_at t fd s;
       let s1 = (case f of Some x \<Rightarrow> fst (vfs_close ve x s) | None \<Rightarrow> s);
       set_fd t fd None s1
     }"

section \<open>Reference counts\<close>

text \<open>The descriptors of the tables \<open>T\<close> that refer to a file.\<close>

definition fd_refs :: "'a fs_state_scheme \<Rightarrow> nat set \<Rightarrow> nat \<Rightarrow> nat" where
  "fd_refs s T f = (\<Sum>t\<in>T. count (mset (fdt_files (fs_fd_tables s t))) (Some f))"

definition file_open :: "'a fs_state_scheme \<Rightarrow> nat \<Rightarrow> bool" where
  "file_open s f \<longleftrightarrow> f < FILE_TABLE_MAX \<and> vf_vnode (fs_file_table s f) \<noteq> 0"

text \<open>
  \<open>ext\<close> counts the references to a file that are held elsewhere (by memory segments or by a
  system call in progress).
\<close>

definition files_inv :: "'a fs_state_scheme \<Rightarrow> nat set \<Rightarrow> (nat \<Rightarrow> nat) \<Rightarrow> bool" where
  "files_inv s T ext \<longleftrightarrow> finite T \<and>
     (\<forall>t \<in> T. length (fdt_files (fs_fd_tables s t)) = OPEN_MAX \<and>
        (\<forall>f. Some f \<in> set (fdt_files (fs_fd_tables s t)) \<longrightarrow> file_open s f)) \<and>
     (\<forall>f. file_open s f \<longrightarrow> vf_refcount (fs_file_table s f) = int (fd_refs s T f + ext f) \<and>
        0 < fd_refs s T f + ext f \<and> fd_refs s T f + ext f \<le> 32767)"

text \<open>What the kernel relies on: the operations of a file system leave the file and descriptor tables alone.\<close>

definition ops_frame :: "'a fs_state_scheme vfs_env \<Rightarrow> bool" where
  "ops_frame ve \<longleftrightarrow> (\<forall>ops x s.
     fs_file_table (fst (ve_close ve ops x s)) = fs_file_table s \<and> fs_fd_tables (fst (ve_close ve ops x s)) = fs_fd_tables s \<and>
     fs_file_table (fst (ve_release ve ops x s)) = fs_file_table s \<and> fs_fd_tables (fst (ve_release ve ops x s)) = fs_fd_tables s)"

lemma upd_simps [simp]:
  "fs_file_table (upd_file f g s) = (fs_file_table s)(f := g (fs_file_table s f))"
  "fs_fd_tables (upd_file f g s) = fs_fd_tables s" "fs_vnodes (upd_file f g s) = fs_vnodes s"
  "fs_file_table (upd_vnode f h s) = fs_file_table s" "fs_fd_tables (upd_vnode f h s) = fs_fd_tables s"
  "fs_file_table (upd_fd_table t k s) = fs_file_table s" "fs_vnodes (upd_fd_table t k s) = fs_vnodes s"
  "fs_fd_tables (upd_fd_table t k s) = (fs_fd_tables s)(t := k (fs_fd_tables s t))"
  "fs_file_table (kmfree_log p s) = fs_file_table s" "fs_fd_tables (kmfree_log p s) = fs_fd_tables s"
  by (simp_all add: upd_file_def upd_vnode_def upd_fd_table_def kmfree_log_def)

lemma vfs_release_vnode_frame:
  assumes "ops_frame ve"
  shows "fs_file_table (fst (vfs_release_vnode ve v s)) = fs_file_table s"
    "fs_fd_tables (fst (vfs_release_vnode ve v s)) = fs_fd_tables s"
  using assms by (simp_all add: vfs_release_vnode_def Let_def ops_frame_def)

lemma free_fileptr_tables:
  assumes "ops_frame ve"
  shows "fs_fd_tables (free_fileptr ve f s) = fs_fd_tables s"
    "g \<noteq> f \<Longrightarrow> fs_file_table (free_fileptr ve f s) g = fs_file_table s g"
    "vf_refcount (fs_file_table s f) = int n \<Longrightarrow> 0 < n \<Longrightarrow> n \<le> 32767 \<Longrightarrow>
       vf_refcount (fs_file_table (free_fileptr ve f s) f) = int n - 1 \<and>
       vf_vnode (fs_file_table (free_fileptr ve f s) f) = (if n = 1 then 0 else vf_vnode (fs_file_table s f))"
  using vfs_release_vnode_frame [OF assms] by (simp_all add: free_fileptr_def Let_def to_short_id)

lemma vfs_close_tables:
  assumes "ops_frame ve"
  shows "fs_fd_tables (fst (vfs_close ve f s)) = fs_fd_tables s"
    "g \<noteq> f \<Longrightarrow> fs_file_table (fst (vfs_close ve f s)) g = fs_file_table s g"
    "vf_refcount (fs_file_table s f) = int n \<Longrightarrow> 0 < n \<Longrightarrow> n \<le> 32767 \<Longrightarrow>
       vf_refcount (fs_file_table (fst (vfs_close ve f s)) f) = int n - 1 \<and>
       vf_vnode (fs_file_table (fst (vfs_close ve f s)) f) = (if n = 1 then 0 else vf_vnode (fs_file_table s f))"
proof -
  define s1 where "s1 = fst (if vf_refcount (fs_file_table s f) = 1
      then ve_close ve (vf_ops (fs_file_table s f)) f s else (s, 0))"
  have s1: "fs_file_table s1 = fs_file_table s" "fs_fd_tables s1 = fs_fd_tables s"
    using assms by (simp_all add: s1_def ops_frame_def)
  have c: "fst (vfs_close ve f s) = free_fileptr ve f s1"
    by (simp add: vfs_close_def s1_def split: prod.split)
  show "fs_fd_tables (fst (vfs_close ve f s)) = fs_fd_tables s"
    "g \<noteq> f \<Longrightarrow> fs_file_table (fst (vfs_close ve f s)) g = fs_file_table s g"
    "vf_refcount (fs_file_table s f) = int n \<Longrightarrow> 0 < n \<Longrightarrow> n \<le> 32767 \<Longrightarrow>
       vf_refcount (fs_file_table (fst (vfs_close ve f s)) f) = int n - 1 \<and>
       vf_vnode (fs_file_table (fst (vfs_close ve f s)) f) = (if n = 1 then 0 else vf_vnode (fs_file_table s f))"
    unfolding c using free_fileptr_tables [OF assms, where f = f and s = s1] s1 by simp_all
qed

lemma fd_refs_update:
  assumes "finite T" "t \<in> T" "i < length (fdt_files (fs_fd_tables s t))"
    and "fs_fd_tables s' = (fs_fd_tables s)(t := (fs_fd_tables s t)\<lparr>fdt_files := (fdt_files (fs_fd_tables s t))[i := y]\<rparr>)"
  shows "fd_refs s' T f + (if fdt_files (fs_fd_tables s t) ! i = Some f then 1 else 0) =
         fd_refs s T f + (if y = Some f then 1 else 0)"
proof -
  let ?xs = "fdt_files (fs_fd_tables s t)" and ?c = "\<lambda>t. count (mset (fdt_files (fs_fd_tables s t))) (Some f)"
  have "mset (?xs[i := y]) = add_mset y (mset ?xs - {#?xs ! i#})" by (rule mset_update [OF assms(3)])
  moreover have "?xs ! i \<in># mset ?xs" using assms(3) by simp
  ultimately have c: "count (mset (?xs[i := y])) (Some f) + (if ?xs ! i = Some f then 1 else 0) =
      ?c t + (if y = Some f then 1 else 0)"
    using count_greater_zero_iff [of "mset ?xs" "Some f"] by (auto simp: count_single simp del: count_greater_zero_iff)
  have "fd_refs s' T f = count (mset (?xs[i := y])) (Some f) + sum ?c (T - {t})"
    unfolding fd_refs_def sum.remove [OF assms(1,2)] using assms(4) by simp
  moreover have "fd_refs s T f = ?c t + sum ?c (T - {t})" unfolding fd_refs_def sum.remove [OF assms(1,2)] by simp
  ultimately show ?thesis using c by linarith
qed

lemma fd_refs_pos: "finite T \<Longrightarrow> t \<in> T \<Longrightarrow> Some f \<in> set (fdt_files (fs_fd_tables s t)) \<Longrightarrow> 0 < fd_refs s T f"
  unfolding fd_refs_def by (rule sum_pos2 [of T t]) auto

lemma files_invD:
  assumes "files_inv s T ext"
  shows "finite T" "t \<in> T \<Longrightarrow> length (fdt_files (fs_fd_tables s t)) = OPEN_MAX"
    "t \<in> T \<Longrightarrow> Some f \<in> set (fdt_files (fs_fd_tables s t)) \<Longrightarrow> file_open s f"
    "file_open s f \<Longrightarrow> vf_refcount (fs_file_table s f) = int (fd_refs s T f + ext f)"
    "file_open s f \<Longrightarrow> 0 < fd_refs s T f + ext f" "file_open s f \<Longrightarrow> fd_refs s T f + ext f \<le> 32767"
  using assms by (auto simp: files_inv_def)

lemma files_invI:
  assumes "finite T" "\<And>t. t \<in> T \<Longrightarrow> length (fdt_files (fs_fd_tables s t)) = OPEN_MAX"
    "\<And>t f. t \<in> T \<Longrightarrow> Some f \<in> set (fdt_files (fs_fd_tables s t)) \<Longrightarrow> file_open s f"
    "\<And>f. file_open s f \<Longrightarrow> vf_refcount (fs_file_table s f) = int (fd_refs s T f + ext f) \<and>
        0 < fd_refs s T f + ext f \<and> fd_refs s T f + ext f \<le> 32767"
  shows "files_inv s T ext"
  using assms unfolding files_inv_def by blast

text \<open>Clearing one descriptor and dropping its reference.\<close>

lemma slot_release:
  assumes inv: "files_inv s T ext" and ve: "ops_frame ve" and t: "t \<in> T" "i < OPEN_MAX"
    and slot: "fdt_files (fs_fd_tables s t) ! i = Some f"
  shows "\<exists>s2. put_fd t (int i) None (fst (vfs_close ve f s)) = Some s2 \<and> files_inv s2 T ext \<and>
           fs_fd_tables s2 = (fs_fd_tables s)(t := (fs_fd_tables s t)\<lparr>fdt_files := (fdt_files (fs_fd_tables s t))[i := None]\<rparr>)"
proof -
  let ?s1 = "fst (vfs_close ve f s)"
  let ?s2 = "upd_fd_table t (\<lambda>x. x\<lparr>fdt_files := (fdt_files x)[i := None]\<rparr>) ?s1"
  let ?n = "fd_refs s T f + ext f"
  have len: "length (fdt_files (fs_fd_tables s t)) = OPEN_MAX" using files_invD(2) [OF inv t(1)] .
  then have i: "i < length (fdt_files (fs_fd_tables s t))" using t(2) by simp
  have op: "file_open s f" using files_invD(3) [OF inv t(1)] slot i by (metis nth_mem)
  note cl = vfs_close_tables [OF ve, where f = f and s = s]
  have put: "put_fd t (int i) None ?s1 = Some ?s2" using cl(1) i by (simp add: put_fd_def)
  have tabs: "fs_fd_tables ?s2 = (fs_fd_tables s)(t := (fs_fd_tables s t)\<lparr>fdt_files := (fdt_files (fs_fd_tables s t))[i := None]\<rparr>)"
    using cl(1) by simp
  have refs: "fd_refs ?s2 T g + (if g = f then 1 else 0) = fd_refs s T g" for g
    using fd_refs_update [OF files_invD(1) [OF inv] t(1) i tabs, of g] slot by auto
  have cnt: "vf_refcount (fs_file_table ?s2 f) = int ?n - 1"
      "vf_vnode (fs_file_table ?s2 f) = (if ?n = 1 then 0 else vf_vnode (fs_file_table s f))"
    using cl(3) [OF files_invD(4) [OF inv op] files_invD(5,6) [OF inv op]] by simp_all
  have oth: "fs_file_table ?s2 g = fs_file_table s g" if "g \<noteq> f" for g using cl(2) that by simp
  have open2: "file_open ?s2 g \<longleftrightarrow> file_open s g \<and> (g = f \<longrightarrow> ?n \<noteq> 1)" for g
    using oth cnt(2) by (cases "g = f") (auto simp: file_open_def)
  have "files_inv ?s2 T ext"
  proof (rule files_invI)
    show "finite T" using files_invD(1) [OF inv] .
  next
    fix u assume "u \<in> T"
    then show "length (fdt_files (fs_fd_tables ?s2 u)) = OPEN_MAX" using files_invD(2) [OF inv] cl(1) t(1) by simp
  next
    fix u g
    assume u: "u \<in> T" "Some g \<in> set (fdt_files (fs_fd_tables ?s2 u))"
    have "Some g \<in> set (fdt_files (fs_fd_tables s u))"
      using u(2) cl(1) set_update_subset_insert [of "fdt_files (fs_fd_tables s t)" i None] by (auto split: if_splits)
    then have "file_open s g" using files_invD(3) [OF inv u(1)] by blast
    moreover have "0 < fd_refs ?s2 T g" using fd_refs_pos [OF files_invD(1) [OF inv] u] .
    then have "g = f \<longrightarrow> ?n \<noteq> 1" using refs [of g] by auto
    ultimately show "file_open ?s2 g" using open2 by blast
  next
    fix g
    assume "file_open ?s2 g"
    then have g: "file_open s g" "g = f \<longrightarrow> ?n \<noteq> 1" using open2 by blast+
    show "vf_refcount (fs_file_table ?s2 g) = int (fd_refs ?s2 T g + ext g) \<and> 0 < fd_refs ?s2 T g + ext g \<and>
        fd_refs ?s2 T g + ext g \<le> 32767"
      using files_invD(4-6) [OF inv g(1)] refs [of g] oth [of g] cnt(1) g(2) by (cases "g = f") auto
  qed
  then show ?thesis using put tabs by blast
qed

text \<open>Filling an empty descriptor with one more reference.\<close>

lemma slot_fill:
  assumes inv: "files_inv s T ext" and t: "t \<in> T" "i < OPEN_MAX" "fdt_files (fs_fd_tables s t) ! i = None"
    and f: "file_open s f" "fd_refs s T f + ext f < 32767"
  shows "\<exists>s2. put_fd t (int i) (Some f) (fst (vfs_clone_fileptr f s)) = Some s2 \<and> files_inv s2 T ext \<and>
           fs_fd_tables s2 = (fs_fd_tables s)(t := (fs_fd_tables s t)\<lparr>fdt_files := (fdt_files (fs_fd_tables s t))[i := Some f]\<rparr>) \<and>
           (\<forall>g. file_open s2 g = file_open s g) \<and> (\<forall>g. fd_refs s2 T g = fd_refs s T g + (if g = f then 1 else 0))"
proof -
  let ?s1 = "fst (vfs_clone_fileptr f s)"
  let ?s2 = "upd_fd_table t (\<lambda>x. x\<lparr>fdt_files := (fdt_files x)[i := Some f]\<rparr>) ?s1"
  have len: "length (fdt_files (fs_fd_tables s t)) = OPEN_MAX" using files_invD(2) [OF inv t(1)] .
  have s1: "fs_fd_tables ?s1 = fs_fd_tables s"
      "fs_file_table ?s1 = (fs_file_table s)(f := (fs_file_table s f)\<lparr>vf_refcount := int (fd_refs s T f + ext f) + 1\<rparr>)"
    using files_invD(4) [OF inv f(1)] f(2) by (simp_all add: vfs_clone_fileptr_def dup_fileptr_def to_short_id)
  have put: "put_fd t (int i) (Some f) ?s1 = Some ?s2" using s1(1) len t(2) by (simp add: put_fd_def)
  have tabs: "fs_fd_tables ?s2 = (fs_fd_tables s)(t := (fs_fd_tables s t)\<lparr>fdt_files := (fdt_files (fs_fd_tables s t))[i := Some f]\<rparr>)"
    using s1(1) by simp
  have refs: "fd_refs ?s2 T g = fd_refs s T g + (if g = f then 1 else 0)" for g
    using fd_refs_update [OF files_invD(1) [OF inv] t(1) _ tabs, of g] t(2,3) len by auto
  have opn: "file_open ?s2 g = file_open s g" for g using s1(2) by (simp add: file_open_def)
  have "files_inv ?s2 T ext"
  proof (rule files_invI)
    show "finite T" using files_invD(1) [OF inv] .
  next
    fix u assume "u \<in> T"
    then show "length (fdt_files (fs_fd_tables ?s2 u)) = OPEN_MAX" using files_invD(2) [OF inv] s1(1) t(1) by simp
  next
    fix u g
    assume u: "u \<in> T" "Some g \<in> set (fdt_files (fs_fd_tables ?s2 u))"
    have "g = f \<or> Some g \<in> set (fdt_files (fs_fd_tables s u))"
      using u(2) s1(1) set_update_subset_insert [of "fdt_files (fs_fd_tables s t)" i "Some f"] by (auto split: if_splits)
    then show "file_open ?s2 g" using files_invD(3) [OF inv u(1)] f(1) opn by blast
  next
    fix g
    assume "file_open ?s2 g"
    then have g: "file_open s g" using opn by blast
    show "vf_refcount (fs_file_table ?s2 g) = int (fd_refs ?s2 T g + ext g) \<and> 0 < fd_refs ?s2 T g + ext g \<and>
        fd_refs ?s2 T g + ext g \<le> 32767"
      using files_invD(4-6) [OF inv g] refs [of g] s1(2) f(2) by (cases "g = f") auto
  qed
  then show ?thesis using put tabs opn refs by blast
qed

lemma fd_at_in: "i < length (fdt_files (fs_fd_tables s t)) \<Longrightarrow> fd_at t (int i) s = Some (fdt_files (fs_fd_tables s t) ! i)"
  by (simp add: fd_at_def)

lemma release_fds_spec:
  assumes "files_inv s T ext" "ops_frame ve" "t \<in> T" "\<forall>i \<in> set is. i < OPEN_MAX"
  shows "\<exists>s'. release_fds ve t is s = Some s' \<and> files_inv s' T ext \<and> (\<forall>u. u \<noteq> t \<longrightarrow> fs_fd_tables s' u = fs_fd_tables s u) \<and>
           fdt_refcount (fs_fd_tables s' t) = fdt_refcount (fs_fd_tables s t) \<and>
           (\<forall>j < OPEN_MAX. fdt_files (fs_fd_tables s' t) ! j = (if j \<in> set is then None else fdt_files (fs_fd_tables s t) ! j))"
  using assms(1,4)
proof (induction "is" arbitrary: s)
  case Nil
  then show ?case by simp
next
  case (Cons i "is")
  have len: "length (fdt_files (fs_fd_tables s t)) = OPEN_MAX" using files_invD(2) [OF Cons.prems(1) assms(3)] .
  have i: "i < OPEN_MAX" using Cons.prems(2) by simp
  show ?case
  proof (cases "fdt_files (fs_fd_tables s t) ! i")
    case None
    then show ?thesis using Cons.IH [OF Cons.prems(1)] Cons.prems(2) i len by (auto simp: fd_at_in)
  next
    case (Some f)
    obtain s2 where s2: "put_fd t (int i) None (fst (vfs_close ve f s)) = Some s2" "files_inv s2 T ext"
        "fs_fd_tables s2 = (fs_fd_tables s)(t := (fs_fd_tables s t)\<lparr>fdt_files := (fdt_files (fs_fd_tables s t))[i := None]\<rparr>)"
      using slot_release [OF Cons.prems(1) assms(2,3) i Some] by blast
    obtain s' where s': "release_fds ve t is s2 = Some s'" "files_inv s' T ext"
        "\<forall>u. u \<noteq> t \<longrightarrow> fs_fd_tables s' u = fs_fd_tables s2 u" "fdt_refcount (fs_fd_tables s' t) = fdt_refcount (fs_fd_tables s2 t)"
        "\<forall>j < OPEN_MAX. fdt_files (fs_fd_tables s' t) ! j = (if j \<in> set is then None else fdt_files (fs_fd_tables s2 t) ! j)"
      using Cons.IH [OF s2(2)] Cons.prems(2) by auto
    have "release_fds ve t (i # is) s = Some s'" using s2(1) s'(1) Some i len by (simp add: fd_at_in)
    then show ?thesis using s' s2(3) len by (auto simp: nth_list_update)
  qed
qed

lemma files_inv_cong:
  assumes "files_inv s T ext" "fs_file_table s' = fs_file_table s"
    and tabs: "\<And>t. t \<in> T \<Longrightarrow> fdt_files (fs_fd_tables s' t) = fdt_files (fs_fd_tables s t)"
  shows "files_inv s' T ext"
proof -
  have "file_open s' = file_open s" using assms(2) by (simp add: file_open_def fun_eq_iff)
  moreover have "fd_refs s' T = fd_refs s T" using tabs by (simp add: fd_refs_def fun_eq_iff)
  ultimately show ?thesis using assms unfolding files_inv_def by auto
qed

lemma fd_refs_empty_table:
  assumes "finite T" "fdt_files (fs_fd_tables s t) = replicate OPEN_MAX None"
  shows "fd_refs s (insert t T) f = fd_refs s (T - {t}) f" "fd_refs s T f = fd_refs s (T - {t}) f"
proof -
  have z: "count (mset (fdt_files (fs_fd_tables s t))) (Some f) = 0" using assms(2) by (simp add: count_eq_zero_iff)
  show "fd_refs s (insert t T) f = fd_refs s (T - {t}) f"
    unfolding fd_refs_def using assms(1) z by (simp add: sum.insert_remove)
  show "fd_refs s T f = fd_refs s (T - {t}) f"
    unfolding fd_refs_def using assms(1) z by (cases "t \<in> T") (simp_all add: sum.remove)
qed

lemma files_inv_drop:
  assumes inv: "files_inv s T ext" and e: "fdt_files (fs_fd_tables s t) = replicate OPEN_MAX None"
  shows "files_inv s (T - {t}) ext"
proof -
  have "fd_refs s (T - {t}) f = fd_refs s T f" for f using fd_refs_empty_table(2) [OF files_invD(1) [OF inv] e] by simp
  then show ?thesis using inv unfolding files_inv_def by auto
qed

lemma files_inv_add:
  assumes inv: "files_inv s T ext" "t \<notin> T"
  shows "files_inv (init_fd_table t s) (insert t T) ext"
proof -
  let ?s = "init_fd_table t s"
  have e: "fdt_files (fs_fd_tables ?s t) = replicate OPEN_MAX None" by (simp add: init_fd_table_def)
  have u: "fs_fd_tables ?s u = fs_fd_tables s u" if "u \<in> T" for u using that inv(2) by (auto simp: init_fd_table_def)
  have inv': "files_inv ?s T ext" using files_inv_cong [OF inv(1), of ?s] u by (simp add: init_fd_table_def)
  have "fd_refs ?s (insert t T) f = fd_refs ?s T f" for f
    by (rule trans [OF fd_refs_empty_table(1) fd_refs_empty_table(2) [symmetric]])
      (rule files_invD(1) [OF inv'], rule e)+
  then show ?thesis using inv' e unfolding files_inv_def by auto
qed

text \<open>The last reference to a table closes all its descriptors; an earlier one only counts down.\<close>

lemma free_fd_table_spec:
  assumes inv: "files_inv s T ext" and ve: "ops_frame ve" and t: "t \<in> T"
    and r: "1 \<le> fdt_refcount (fs_fd_tables s t)" "fdt_refcount (fs_fd_tables s t) < 2147483648"
  shows "\<exists>s'. free_fd_table ve t s = Some s' \<and>
           files_inv s' (if fdt_refcount (fs_fd_tables s t) = 1 then T - {t} else T) ext"
proof -
  let ?s1 = "upd_fd_table t (\<lambda>x. x\<lparr>fdt_refcount := to_int (fdt_refcount x - 1)\<rparr>) s"
  have r1: "fdt_refcount (fs_fd_tables ?s1 t) = fdt_refcount (fs_fd_tables s t) - 1" using r by (simp add: to_int_id)
  have inv1: "files_inv ?s1 T ext" by (rule files_inv_cong [OF inv]) auto
  show ?thesis
  proof (cases "fdt_refcount (fs_fd_tables s t) = 1")
    case False
    then have "free_fd_table ve t s = Some ?s1" using r1 r(1) by (simp add: free_fd_table_def Let_def)
    then show ?thesis using inv1 False by auto
  next
    case True
    obtain s' where s': "release_fd_table ve t ?s1 = Some s'" "files_inv s' T ext"
        "\<forall>j < OPEN_MAX. fdt_files (fs_fd_tables s' t) ! j = None"
      using release_fds_spec [OF inv1 ve t, of "[0..<OPEN_MAX]"] by (auto simp: release_fd_table_def)
    have "fdt_files (fs_fd_tables s' t) = replicate OPEN_MAX None"
      using s'(3) files_invD(2) [OF s'(2) t] by (intro nth_equalityI) auto
    then have "files_inv s' (T - {t}) ext" by (rule files_inv_drop [OF s'(2)])
    then have "files_inv (kmfree_log t s') (T - {t}) ext" by (rule files_inv_cong) auto
    moreover have "free_fd_table ve t s = Some (kmfree_log t s')" using r1 True s'(1) by (simp add: free_fd_table_def Let_def)
    ultimately show ?thesis using True by auto
  qed
qed

lemma dup_fds_spec:
  assumes "files_inv s T ext" "d \<in> T" "c \<in> T" "d \<noteq> c" "\<forall>i \<in> set is. i < OPEN_MAX" "distinct is"
    and "\<forall>i \<in> set is. fdt_files (fs_fd_tables s d) ! i = None"
    and "\<forall>f. fd_refs s T f + ext f + length is \<le> 32767"
  shows "\<exists>s'. dup_fds d c is s = Some s' \<and> files_inv s' T ext \<and> (\<forall>u. u \<noteq> d \<longrightarrow> fs_fd_tables s' u = fs_fd_tables s u) \<and>
           fdt_refcount (fs_fd_tables s' d) = fdt_refcount (fs_fd_tables s d) \<and>
           (\<forall>j < OPEN_MAX. fdt_files (fs_fd_tables s' d) ! j =
              (if j \<in> set is then fdt_files (fs_fd_tables s c) ! j else fdt_files (fs_fd_tables s d) ! j))"
  using assms(1,5-8)
proof (induction "is" arbitrary: s)
  case Nil
  then show ?case by simp
next
  case (Cons i "is")
  note inv = Cons.prems(1)
  have len: "length (fdt_files (fs_fd_tables s c)) = OPEN_MAX" "length (fdt_files (fs_fd_tables s d)) = OPEN_MAX"
    using files_invD(2) [OF inv] assms(2,3) by auto
  have i: "i < OPEN_MAX" "i \<notin> set is" "fdt_files (fs_fd_tables s d) ! i = None" using Cons.prems by auto
  have tl: "\<forall>i \<in> set is. i < OPEN_MAX" "distinct is" "\<forall>i \<in> set is. fdt_files (fs_fd_tables s d) ! i = None"
    using Cons.prems by auto
  have bound: "\<forall>f. fd_refs s T f + ext f + length is \<le> 32767"
  proof
    fix f
    show "fd_refs s T f + ext f + length is \<le> 32767" using Cons.prems(5) [rule_format, of f] by simp
  qed
  show ?case
  proof (cases "fdt_files (fs_fd_tables s c) ! i")
    case None
    then show ?thesis using Cons.IH [OF inv tl bound] i len by (auto simp: fd_at_in)
  next
    case (Some f)
    have f: "file_open s f" using files_invD(3) [OF inv assms(3)] Some i(1) len(1) by (metis nth_mem)
    have "fd_refs s T f + ext f < 32767" using Cons.prems(5) [rule_format, of f] by simp
    then obtain s2 where s2: "put_fd d (int i) (Some f) (fst (vfs_clone_fileptr f s)) = Some s2" "files_inv s2 T ext"
        "fs_fd_tables s2 = (fs_fd_tables s)(d := (fs_fd_tables s d)\<lparr>fdt_files := (fdt_files (fs_fd_tables s d))[i := Some f]\<rparr>)"
        "\<forall>g. fd_refs s2 T g = fd_refs s T g + (if g = f then 1 else 0)"
      using slot_fill [OF inv assms(2) i(1,3) f] by blast
    have "\<forall>g. fd_refs s2 T g + ext g + length is \<le> 32767"
    proof
      fix g
      show "fd_refs s2 T g + ext g + length is \<le> 32767" using s2(4) Cons.prems(5) [rule_format, of g] by (cases "g = f") auto
    qed
    moreover have "\<forall>j \<in> set is. fdt_files (fs_fd_tables s2 d) ! j = None"
    proof
      fix j assume j: "j \<in> set is"
      then have "i \<noteq> j" using i(2) by auto
      then show "fdt_files (fs_fd_tables s2 d) ! j = None" using tl(3) j s2(3) by simp
    qed
    ultimately obtain s' where s': "dup_fds d c is s2 = Some s'" "files_inv s' T ext"
        "\<forall>u. u \<noteq> d \<longrightarrow> fs_fd_tables s' u = fs_fd_tables s2 u" "fdt_refcount (fs_fd_tables s' d) = fdt_refcount (fs_fd_tables s2 d)"
        "\<forall>j < OPEN_MAX. fdt_files (fs_fd_tables s' d) ! j =
              (if j \<in> set is then fdt_files (fs_fd_tables s2 c) ! j else fdt_files (fs_fd_tables s2 d) ! j)"
      using Cons.IH [OF s2(2) tl(1,2)] by blast
    have "snd (vfs_clone_fileptr f s) = f" by (simp add: vfs_clone_fileptr_def dup_fileptr_def)
    then have "dup_fds d c (i # is) s = Some s'"
      using s2(1) s'(1) Some i len by (simp add: fd_at_in case_prod_beta)
    then show ?thesis using s' s2(3) len assms(4) Some i(2) by (auto simp: nth_list_update)
  qed
qed

text \<open>A file opened by \<^verbatim>\<open>new_fileptr\<close> and stored into an empty descriptor.\<close>

lemma new_fileptr_fill:
  assumes inv: "files_inv s T ext" and t: "t \<in> T" "i < OPEN_MAX" "fdt_files (fs_fd_tables s t) ! i = None"
    and v: "v \<noteq> 0" and new: "new_fileptr ve v flags s = (s1, Some f)" and ext: "ext f = 0"
  shows "\<exists>s2. put_fd t (int i) (Some f) s1 = Some s2 \<and> files_inv s2 T ext"
proof -
  obtain x where f: "vf_vnode (fs_file_table s f) = 0" "f < FILE_TABLE_MAX"
      "s1 = upd_file f (\<lambda>_. x) s" "vf_vnode x = v" "vf_refcount x = 1"
    using new by (auto simp: new_fileptr_def find_Some_iff split: option.splits)
  let ?s2 = "upd_fd_table t (\<lambda>x. x\<lparr>fdt_files := (fdt_files x)[i := Some f]\<rparr>) s1"
  have len: "length (fdt_files (fs_fd_tables s t)) = OPEN_MAX" using files_invD(2) [OF inv t(1)] .
  have closed: "\<not> file_open s f" using f(1) by (simp add: file_open_def)
  have no_ref: "Some f \<notin> set (fdt_files (fs_fd_tables s u))" if "u \<in> T" for u
    using files_invD(3) [OF inv that] closed by blast
  have zero: "fd_refs s T f = 0"
    unfolding fd_refs_def using no_ref by (intro sum.neutral) (simp add: count_eq_zero_iff)
  have s1: "fs_fd_tables s1 = fs_fd_tables s" "fs_file_table s1 = (fs_file_table s)(f := x)" by (simp_all add: f(3))
  have put: "put_fd t (int i) (Some f) s1 = Some ?s2" using s1(1) len t(2) by (simp add: put_fd_def)
  have refs: "fd_refs ?s2 T g = fd_refs s T g + (if g = f then 1 else 0)" for g
    using fd_refs_update [OF files_invD(1) [OF inv] t(1), of i s ?s2 "Some f" g] t(2,3) len s1(1) by auto
  have opn: "file_open ?s2 g \<longleftrightarrow> g = f \<or> file_open s g" for g using s1(2) f(2,4) v by (auto simp: file_open_def)
  have "files_inv ?s2 T ext"
  proof (rule files_invI)
    show "finite T" using files_invD(1) [OF inv] .
  next
    fix u assume "u \<in> T"
    then show "length (fdt_files (fs_fd_tables ?s2 u)) = OPEN_MAX" using files_invD(2) [OF inv] s1(1) t(1) by simp
  next
    fix u g
    assume u: "u \<in> T" "Some g \<in> set (fdt_files (fs_fd_tables ?s2 u))"
    have "g = f \<or> Some g \<in> set (fdt_files (fs_fd_tables s u))"
      using u(2) s1(1) set_update_subset_insert [of "fdt_files (fs_fd_tables s t)" i "Some f"] by (auto split: if_splits)
    then show "file_open ?s2 g" using files_invD(3) [OF inv u(1)] opn by blast
  next
    fix g
    assume g: "file_open ?s2 g"
    show "vf_refcount (fs_file_table ?s2 g) = int (fd_refs ?s2 T g + ext g) \<and> 0 < fd_refs ?s2 T g + ext g \<and>
        fd_refs ?s2 T g + ext g \<le> 32767"
    proof (cases "g = f")
      case True
      then show ?thesis using refs [of f] zero ext s1(2) f(5) by simp
    next
      case False
      then have "file_open s g" using g opn by blast
      then show ?thesis using files_invD(4-6) [OF inv] refs [of g] s1(2) False by simp
    qed
  qed
  then show ?thesis using put by blast
qed

section \<open>Sequences of descriptor operations\<close>

text \<open>
  The operations as the system calls use them. \<open>Open_at\<close> is the end of \<^verbatim>\<open>vfs_open\<close> followed by
  \<^verbatim>\<open>set_fd\<close>; the other constructors are the functions of \<^verbatim>\<open>filedesc.c\<close>.
\<close>

datatype fd_op = Alloc_table nat | Dup_table nat nat int | Open_at nat nat nat int | Dup_at nat nat nat
  | Free_at nat nat | Free_table nat

fun fd_exec :: "'a fs_state_scheme vfs_env \<Rightarrow> fd_op \<Rightarrow> 'a fs_state_scheme \<Rightarrow> 'a fs_state_scheme option" where
  "fd_exec ve (Alloc_table t) s = Some (fst (alloc_fd_table t s))"
| "fd_exec ve (Dup_table d c limit) s = dup_fd_table d c limit s"
| "fd_exec ve (Open_at t fd v flags) s =
     (case new_fileptr ve v flags s of
        (s1, Some f) \<Rightarrow> set_fd t (int fd) (Some f) s1
      | (s1, None) \<Rightarrow> Some s1)"
| "fd_exec ve (Dup_at t fd f) s = dup_fd t (int fd) f s"
| "fd_exec ve (Free_at t fd) s = free_fd ve t (int fd) s"
| "fd_exec ve (Free_table t) s = free_fd_table ve t s"

text \<open>When an operation may be called, and the tables that exist afterwards.\<close>

fun fd_ok :: "'a fs_state_scheme \<Rightarrow> nat set \<Rightarrow> (nat \<Rightarrow> nat) \<Rightarrow> fd_op \<Rightarrow> bool" where
  "fd_ok s T ext (Alloc_table t) \<longleftrightarrow> t \<notin> T"
| "fd_ok s T ext (Dup_table d c limit) \<longleftrightarrow> d \<in> T \<and> c \<in> T \<and> d \<noteq> c \<and> 0 \<le> limit \<and> limit < int OPEN_MAX \<and>
     fdt_files (fs_fd_tables s d) = replicate OPEN_MAX None \<and> (\<forall>f. fd_refs s T f + ext f + OPEN_MAX \<le> 32767)"
| "fd_ok s T ext (Open_at t fd v flags) \<longleftrightarrow> t \<in> T \<and> fd < OPEN_MAX \<and> fdt_files (fs_fd_tables s t) ! fd = None \<and> v \<noteq> 0 \<and>
     (\<forall>f < FILE_TABLE_MAX. \<not> file_open s f \<longrightarrow> ext f = 0)"
| "fd_ok s T ext (Dup_at t fd f) \<longleftrightarrow> t \<in> T \<and> fd < OPEN_MAX \<and> fdt_files (fs_fd_tables s t) ! fd = None \<and>
     file_open s f \<and> fd_refs s T f + ext f < 32767"
| "fd_ok s T ext (Free_at t fd) \<longleftrightarrow> t \<in> T \<and> fd < OPEN_MAX"
| "fd_ok s T ext (Free_table t) \<longleftrightarrow> t \<in> T \<and> 1 \<le> fdt_refcount (fs_fd_tables s t) \<and> fdt_refcount (fs_fd_tables s t) < 2147483648"

fun fd_live :: "'a fs_state_scheme \<Rightarrow> nat set \<Rightarrow> fd_op \<Rightarrow> nat set" where
  "fd_live s T (Alloc_table t) = insert t T"
| "fd_live s T (Free_table t) = (if fdt_refcount (fs_fd_tables s t) = 1 then T - {t} else T)"
| "fd_live s T _ = T"

lemma set_fd_in: "fd < OPEN_MAX \<Longrightarrow> set_fd t (int fd) f s = put_fd t (int fd) f s"
  by (simp add: set_fd_def)

lemma fd_exec_inv:
  assumes inv: "files_inv s T ext" and ve: "ops_frame ve" and ok: "fd_ok s T ext op"
  shows "\<exists>s'. fd_exec ve op s = Some s' \<and> files_inv s' (fd_live s T op) ext"
proof (cases op)
  case (Alloc_table t)
  then show ?thesis using files_inv_add [OF inv] ok by (simp add: alloc_fd_table_def)
next
  case (Dup_table d c limit)
  define js where "js = [0..<nat ((if limit = 0 then int OPEN_MAX - 1 else limit) + 1)]"
  have j: "\<forall>i \<in> set js. i < OPEN_MAX" "length js \<le> OPEN_MAX" "distinct js"
    using ok Dup_table by (auto simp: OPEN_MAX_def js_def)
  have "\<forall>f. fd_refs s T f + ext f + length js \<le> 32767"
  proof
    fix f
    have "fd_refs s T f + ext f + OPEN_MAX \<le> 32767" using ok Dup_table by simp
    then show "fd_refs s T f + ext f + length js \<le> 32767" using j(2) by linarith
  qed
  moreover have "d \<in> T" "c \<in> T" "d \<noteq> c" "\<forall>i \<in> set js. fdt_files (fs_fd_tables s d) ! i = None"
    using ok Dup_table j(1) by auto
  ultimately have "\<exists>s'. dup_fds d c js s = Some s' \<and> files_inv s' T ext"
    using dup_fds_spec [OF inv _ _ _ j(1,3)] by blast
  then show ?thesis using Dup_table by (simp add: dup_fd_table_def Let_def js_def)
next
  case (Open_at t fd v flags)
  show ?thesis
  proof (cases "new_fileptr ve v flags s")
    case (Pair s1 r)
    show ?thesis
    proof (cases r)
      case None
      then have "s1 = s" using Pair by (auto simp: new_fileptr_def split: option.splits)
      then show ?thesis using inv Open_at Pair None by simp
    next
      case (Some f)
      have "\<not> file_open s f" "f < FILE_TABLE_MAX"
        using Pair Some by (auto simp: new_fileptr_def find_Some_iff file_open_def split: option.splits)
      then have "ext f = 0" using ok Open_at by simp
      then show ?thesis using new_fileptr_fill [OF inv, of t fd v ve flags s1 f] ok Open_at Pair Some
        by (simp add: set_fd_in)
    qed
  qed
next
  case (Dup_at t fd f)
  obtain s2 where "put_fd t (int fd) (Some f) (fst (vfs_clone_fileptr f s)) = Some s2" "files_inv s2 T ext"
    using slot_fill [OF inv, of t fd f] ok Dup_at by auto
  moreover have "snd (vfs_clone_fileptr f s) = f" by (simp add: vfs_clone_fileptr_def dup_fileptr_def)
  ultimately show ?thesis using Dup_at ok by (simp add: dup_fd_def case_prod_beta)
next
  case (Free_at t fd)
  have fd: "fd < OPEN_MAX" "t \<in> T" using ok Free_at by auto
  have at: "fd_at t (int fd) s = Some (fdt_files (fs_fd_tables s t) ! fd)"
    using files_invD(2) [OF inv fd(2)] fd(1) by (simp add: fd_at_in)
  show ?thesis
  proof (cases "fdt_files (fs_fd_tables s t) ! fd")
    case None
    let ?s2 = "upd_fd_table t (\<lambda>x. x\<lparr>fdt_files := (fdt_files x)[fd := None]\<rparr>) s"
    have "(fdt_files (fs_fd_tables s t))[fd := None] = fdt_files (fs_fd_tables s t)"
      using None by (metis list_update_id)
    then have "files_inv ?s2 T ext" by (intro files_inv_cong [OF inv]) auto
    moreover have "free_fd ve t (int fd) s = Some ?s2"
      using at None fd files_invD(2) [OF inv fd(2)] by (simp add: free_fd_def set_fd_in put_fd_def)
    ultimately show ?thesis using Free_at by simp
  next
    case (Some f)
    then show ?thesis
      using slot_release [OF inv ve fd(2,1) Some] at fd(1) Free_at by (auto simp: free_fd_def set_fd_in)
  qed
next
  case (Free_table t)
  then show ?thesis using free_fd_table_spec [OF inv ve, of t] ok by simp
qed

fun fd_run :: "'a fs_state_scheme vfs_env \<Rightarrow> fd_op list \<Rightarrow> 'a fs_state_scheme \<Rightarrow> 'a fs_state_scheme option" where
  "fd_run ve [] s = Some s"
| "fd_run ve (op # ops) s = (case fd_exec ve op s of Some s1 \<Rightarrow> fd_run ve ops s1 | None \<Rightarrow> None)"

fun fd_run_ok :: "'a fs_state_scheme vfs_env \<Rightarrow> (nat \<Rightarrow> nat) \<Rightarrow> nat set \<Rightarrow> fd_op list \<Rightarrow> 'a fs_state_scheme \<Rightarrow> bool" where
  "fd_run_ok ve ext T [] s \<longleftrightarrow> True"
| "fd_run_ok ve ext T (op # ops) s \<longleftrightarrow> fd_ok s T ext op \<and>
     (case fd_exec ve op s of Some s1 \<Rightarrow> fd_run_ok ve ext (fd_live s T op) ops s1 | None \<Rightarrow> False)"

fun fd_run_live :: "'a fs_state_scheme vfs_env \<Rightarrow> nat set \<Rightarrow> fd_op list \<Rightarrow> 'a fs_state_scheme \<Rightarrow> nat set" where
  "fd_run_live ve T [] s = T"
| "fd_run_live ve T (op # ops) s =
     (case fd_exec ve op s of Some s1 \<Rightarrow> fd_run_live ve (fd_live s T op) ops s1 | None \<Rightarrow> T)"


text \<open>An environment whose files need no work on closing and whose vnodes are freed, as for pipes.\<close>

definition plain_env :: "fs_state vfs_env" where
  "plain_env = \<lparr>ve_fops = (\<lambda>_. 1), ve_close = (\<lambda>_ _ s. (s, 0)), ve_poll = (\<lambda>_ _ _ _. 0),
     ve_release = (\<lambda>_ v s. (kmfree_log v s, 0))\<rparr>"

lemma plain_env_frame: "ops_frame plain_env"
  by (simp add: ops_frame_def plain_env_def)

definition closed_vnode :: vnode where
  "closed_vnode = \<lparr>vn_ops = 1, vn_mp = 0, vn_refcount = 1, vn_mode = 0, vn_nlinks = 1, vn_uid = 0, vn_gid = 0, vn_bits = 0,
     vn_rdev = 0, vn_ino = 0, vn_size = 0, vn_atime = 0, vn_mtime = 0, vn_ctime = 0\<rparr>"

definition empty_files :: fs_state where
  "empty_files = \<lparr>fs_file_table = (\<lambda>_. \<lparr>vf_ops = 0, vf_vnode = 0, vf_refcount = 0, vf_flags = 0, vf_position = 0\<rparr>),
     fs_vnodes = (\<lambda>_. closed_vnode), fs_fd_tables = (\<lambda>_. \<lparr>fdt_refcount = 0, fdt_files = []\<rparr>), fs_freed = []\<rparr>"

lemma empty_files_inv: "files_inv empty_files {} (\<lambda>_. 0)"
  by (simp add: files_inv_def empty_files_def file_open_def)


text \<open>Looking up a descriptor that is not open follows the \<^verbatim>\<open>NULL\<close> pointer in the table.\<close>

lemma get_fd_unused: "fd_at t fd s = Some None \<Longrightarrow> fd < int OPEN_MAX \<Longrightarrow> get_fd t fd s = None"
  by (simp add: get_fd_def)

lemma find_unused_fd_spec:
  assumes "length (fdt_files (fs_fd_tables s t)) = OPEN_MAX"
  shows "if None \<in> set (fdt_files (fs_fd_tables s t))
         then \<exists>i < OPEN_MAX. find_unused_fd t s = int i \<and> fdt_files (fs_fd_tables s t) ! i = None \<and>
                (\<forall>j < i. fdt_files (fs_fd_tables s t) ! j \<noteq> None)
         else find_unused_fd t s = EMFILE"
proof (cases "find (\<lambda>i. fd_at t (int i) s = Some None) [0..<OPEN_MAX]")
  case None
  then have "fdt_files (fs_fd_tables s t) ! i \<noteq> None" if "i < OPEN_MAX" for i
    using that assms by (auto simp: find_None_iff fd_at_in)
  then have "None \<notin> set (fdt_files (fs_fd_tables s t))" using assms by (metis in_set_conv_nth)
  then show ?thesis using None by (simp add: find_unused_fd_def)
next
  case (Some i)
  then have i: "i < OPEN_MAX" "fd_at t (int i) s = Some None" "\<forall>j < i. fd_at t (int j) s \<noteq> Some None"
    by (auto simp: find_Some_iff)
  then have "fdt_files (fs_fd_tables s t) ! i = None" "\<forall>j < i. fdt_files (fs_fd_tables s t) ! j \<noteq> None"
    using assms by (auto simp: fd_at_in)
  moreover have "None \<in> set (fdt_files (fs_fd_tables s t))" using calculation(1) i(1) assms by (metis nth_mem)
  ultimately show ?thesis using Some i(1) by (auto simp: find_unused_fd_def)
qed

end
