(* ===== verification/Procs.thy ===== *)
theory Procs
  imports Queues Files
begin

text \<open>
  The process table of \<^verbatim>\<open>src/kernel/proc/process.c\<close>, the structures of \<^verbatim>\<open>include/kernel/proc\<close>, and the timers of
  \<^verbatim>\<open>src/kernel/proc/timer.c\<close> up to the function that runs their callbacks.

  A process is named by the address of its \<^verbatim>\<open>struct process\<close> (0 is \<^verbatim>\<open>NULL\<close>). Every timer of the kernel is the
  \<^verbatim>\<open>timer\<close> field of a process and has the name of this process. The queue nodes embedded in the
  structures are kept apart from the other fields, in the node memories \<open>ps_run_nodes\<close> and \<open>ps_timer_nodes\<close>. The
  state extends the state of the open files. Functions of other parts of the kernel are fields of \<open>proc_env\<close>:
  freeing a memory map, the architecture's task data and signal frames, and the dispatcher of system calls.
  The address \<^verbatim>\<open>kzalloc\<close> returns is an argument. A read or write through \<^verbatim>\<open>NULL\<close> or outside an array is \<open>None\<close>.
  Interrupts are off inside the locked sections, which are therefore not marked.
\<close>

section \<open>The data\<close>

datatype proc_state = PS_RUNNING | PS_RESUMING | PS_BLOCKED | PS_STOPPED | PS_EXITED

datatype wait_check = Syscall_wait_check | Select_wait_check

datatype timer_callback = On_alarm | Select_timeout

record syscall_record =
  sr_syscall :: int
  sr_arg1 :: int
  sr_arg2 :: int
  sr_arg3 :: int
  sr_arg4 :: int
  sr_arg5 :: int

record timer =
  t_expires_time :: u64
  t_argp :: nat
  t_callback :: "timer_callback option"

record sigaction =
  sa_handler :: nat
  sa_mask :: u32
  sa_flags :: u32
  sa_restorer :: nat

record signal_data =
  sd_ignored :: u32
  sd_blocked :: u32
  sd_pending :: u32
  sd_actions :: "sigaction list"

record process =
  p_return_value :: int
  p_signal_pending :: int
  p_slotnum :: int
  p_state :: proc_state
  p_tid :: int
  p_tgid :: int
  p_pid :: int
  p_parent :: int
  p_pgid :: int
  p_session :: int
  p_bits :: u32
  p_exitcode :: int
  p_wait_events :: u32
  p_wait_check :: "wait_check option"
  p_blocked_call :: syscall_record
  p_timer :: timer
  p_signals :: signal_data
  p_start_time :: int
  p_user_time :: int
  p_sys_time :: int
  p_uid :: int
  p_umask :: u16
  p_ctty :: int
  p_cwd :: nat
  p_fd_table :: nat
  p_map :: nat

record proc_sys = fs_state +
  ps_procs :: "nat \<Rightarrow> process"
  ps_run_nodes :: "nat nodes"
  ps_timer_nodes :: "nat nodes"
  ps_run_queue :: "nat queue"
  ps_blocked_queue :: "nat queue"
  ps_timer_list :: "nat queue"
  ps_process_list :: "nat list"
  ps_next_pid :: int
  ps_num_processes :: int
  ps_next_process_slot :: nat
  ps_need_reschedule :: int
  ps_next_reschedule_time :: u64
  ps_kernel_reentries :: int
  ps_idle_proc :: nat
  ps_current_proc :: nat
  ps_previous_proc :: nat
  ps_current_syscall :: syscall_record
  ps_primordial_process :: nat
  ps_uptime :: u64
  ps_system_seconds :: int

record 's proc_env = "'s vfs_env" +
  pe_memory_map_free :: "nat \<Rightarrow> 's \<Rightarrow> 's"
  pe_arch_init_task_info :: "nat \<Rightarrow> 's \<Rightarrow> 's"
  pe_arch_release_task_info :: "nat \<Rightarrow> 's \<Rightarrow> 's"
  pe_arch_extended_switch_context :: "nat \<Rightarrow> nat \<Rightarrow> 's \<Rightarrow> 's"
  pe_arch_add_signal_context :: "nat \<Rightarrow> int \<Rightarrow> 's \<Rightarrow> 's"
  pe_arch_remove_signal_context :: "nat \<Rightarrow> 's \<Rightarrow> int \<times> 's"
  pe_do_syscall :: "'s \<Rightarrow> 's option"
  pe_create_idle_thread :: "'s \<Rightarrow> nat \<times> 's"
  pe_user_fd_set :: "int \<Rightarrow> 's \<Rightarrow> u32 list option"
  pe_behind_process_list :: nat

definition CONFIG_MAX_PROCESSES :: nat where "CONFIG_MAX_PROCESSES = 100"
definition INIT_PID :: int where "INIT_PID = 1"
definition PB_BLOCK_CONDITIONS :: u32 where "PB_BLOCK_CONDITIONS = 0x00FF"
definition PB_SYSCALL :: u32 where "PB_SYSCALL = 0x0001"
definition PB_WAITING :: u32 where "PB_WAITING = 0x0002"
definition PB_PAUSED :: u32 where "PB_PAUSED = 0x0004"
definition PB_SELECT :: u32 where "PB_SELECT = 0x0008"
definition PB_ALARM_ON :: u32 where "PB_ALARM_ON = 0x0100"
definition PB_DONT_SET_RETURN_VAL :: u32 where "PB_DONT_SET_RETURN_VAL = 0x0200"
definition PROC_DEFAULT_UMASK :: u16 where "PROC_DEFAULT_UMASK = 18"
definition SIG_HANDLERS_NUM :: nat where "SIG_HANDLERS_NUM = 32"
definition NANOS_PER_SECOND :: int where "NANOS_PER_SECOND = 1000000000"

definition PROC_IS_RUNNING :: "process \<Rightarrow> bool" where
  "PROC_IS_RUNNING p \<longleftrightarrow> p_state p = PS_RUNNING \<or> p_state p = PS_RESUMING"

definition zero_call :: syscall_record where
  "zero_call = \<lparr>sr_syscall = 0, sr_arg1 = 0, sr_arg2 = 0, sr_arg3 = 0, sr_arg4 = 0, sr_arg5 = 0\<rparr>"

definition zero_action :: sigaction where
  "zero_action = \<lparr>sa_handler = 0, sa_mask = 0, sa_flags = 0, sa_restorer = 0\<rparr>"

text \<open>What \<^verbatim>\<open>kzalloc\<close> leaves in the structure.\<close>

definition zero_process :: process where
  "zero_process =
     \<lparr>p_return_value = 0, p_signal_pending = 0, p_slotnum = 0, p_state = PS_RUNNING, p_tid = 0, p_tgid = 0, p_pid = 0,
      p_parent = 0, p_pgid = 0, p_session = 0, p_bits = 0, p_exitcode = 0, p_wait_events = 0, p_wait_check = None,
      p_blocked_call = zero_call, p_timer = \<lparr>t_expires_time = 0, t_argp = 0, t_callback = None\<rparr>,
      p_signals = \<lparr>sd_ignored = 0, sd_blocked = 0, sd_pending = 0, sd_actions = replicate SIG_HANDLERS_NUM zero_action\<rparr>,
      p_start_time = 0, p_user_time = 0, p_sys_time = 0, p_uid = 0, p_umask = 0, p_ctty = 0, p_cwd = 0, p_fd_table = 0,
      p_map = 0\<rparr>"

definition upd_proc :: "nat \<Rightarrow> (process \<Rightarrow> process) \<Rightarrow> 'a proc_sys_scheme \<Rightarrow> 'a proc_sys_scheme" where
  "upd_proc p g s = s\<lparr>ps_procs := (ps_procs s)(p := g (ps_procs s p))\<rparr>"

section \<open>Queue operations on the system state\<close>

definition run_queue_insert :: "nat \<Rightarrow> 'a proc_sys_scheme \<Rightarrow> 'a proc_sys_scheme" where
  "run_queue_insert p s =
     (let (q, m) = queue_insert (ps_run_queue s) p (ps_run_nodes s) in s\<lparr>ps_run_queue := q, ps_run_nodes := m\<rparr>)"

definition run_queue_remove :: "nat \<Rightarrow> 'a proc_sys_scheme \<Rightarrow> 'a proc_sys_scheme" where
  "run_queue_remove p s =
     (let (q, m) = queue_remove (ps_run_queue s) p (ps_run_nodes s) in s\<lparr>ps_run_queue := q, ps_run_nodes := m\<rparr>)"

definition run_queue_insert_after :: "nat \<Rightarrow> nat \<Rightarrow> 'a proc_sys_scheme \<Rightarrow> 'a proc_sys_scheme" where
  "run_queue_insert_after p after s =
     (let (q, m) = queue_insert_after (ps_run_queue s) p (Some after) (ps_run_nodes s)
      in s\<lparr>ps_run_queue := q, ps_run_nodes := m\<rparr>)"

definition blocked_queue_insert :: "nat \<Rightarrow> 'a proc_sys_scheme \<Rightarrow> 'a proc_sys_scheme" where
  "blocked_queue_insert p s =
     (let (q, m) = queue_insert (ps_blocked_queue s) p (ps_run_nodes s) in s\<lparr>ps_blocked_queue := q, ps_run_nodes := m\<rparr>)"

definition blocked_queue_remove :: "nat \<Rightarrow> 'a proc_sys_scheme \<Rightarrow> 'a proc_sys_scheme" where
  "blocked_queue_remove p s =
     (let (q, m) = queue_remove (ps_blocked_queue s) p (ps_run_nodes s) in s\<lparr>ps_blocked_queue := q, ps_run_nodes := m\<rparr>)"

definition timer_list_insert :: "nat \<Rightarrow> 'a proc_sys_scheme \<Rightarrow> 'a proc_sys_scheme" where
  "timer_list_insert p s =
     (let (q, m) = queue_insert (ps_timer_list s) p (ps_timer_nodes s) in s\<lparr>ps_timer_list := q, ps_timer_nodes := m\<rparr>)"

definition timer_list_remove :: "nat \<Rightarrow> 'a proc_sys_scheme \<Rightarrow> 'a proc_sys_scheme" where
  "timer_list_remove p s =
     (let (q, m) = queue_remove (ps_timer_list s) p (ps_timer_nodes s) in s\<lparr>ps_timer_list := q, ps_timer_nodes := m\<rparr>)"

section \<open>Timers\<close>

definition get_monotonic_uptime :: "'a proc_sys_scheme \<Rightarrow> u64" where
  "get_monotonic_uptime s = ps_uptime s"

definition get_system_time :: "'a proc_sys_scheme \<Rightarrow> int" where
  "get_system_time s = ps_system_seconds s"

definition expires_time :: "nat \<Rightarrow> 'a proc_sys_scheme \<Rightarrow> u64" where
  "expires_time t s = t_expires_time (p_timer (ps_procs s t))"

definition set_expires_time :: "nat \<Rightarrow> u64 \<Rightarrow> 'a proc_sys_scheme \<Rightarrow> 'a proc_sys_scheme" where
  "set_expires_time t e = upd_proc t (\<lambda>p. p\<lparr>p_timer := (p_timer p)\<lparr>t_expires_time := e\<rparr>\<rparr>)"

definition init_timer :: "nat \<Rightarrow> 'a proc_sys_scheme \<Rightarrow> 'a proc_sys_scheme" where
  "init_timer t s = set_expires_time t 0 (s\<lparr>ps_timer_nodes := queue_node_init t (ps_timer_nodes s)\<rparr>)"

text \<open>The product of the seconds is computed in an \<^verbatim>\<open>int\<close>.\<close>

definition add_timer :: "nat \<Rightarrow> int \<Rightarrow> int \<Rightarrow> 'a proc_sys_scheme \<Rightarrow> 'a proc_sys_scheme \<times> int" where
  "add_timer t seconds microseconds s =
     (let s = (if expires_time t s \<noteq> 0 then timer_list_remove t s else s);
          uptime = get_monotonic_uptime s;
          s = set_expires_time t
                (uptime + word_of_int (to_int (seconds * NANOS_PER_SECOND)) + word_of_int (to_int (microseconds * 1000))) s
      in (timer_list_insert t s, 0))"

definition remove_timer :: "nat \<Rightarrow> 'a proc_sys_scheme \<Rightarrow> 'a proc_sys_scheme \<times> int" where
  "remove_timer t s =
     (if expires_time t s = 0 then (s, -1) else (set_expires_time t 0 (timer_list_remove t s), 0))"

section \<open>The process table\<close>

definition init_proc :: "'a proc_sys_scheme \<Rightarrow> 'a proc_sys_scheme" where
  "init_proc s =
     s\<lparr>ps_next_pid := 2, ps_num_processes := 0, ps_next_process_slot := 0,
       ps_process_list := replicate CONFIG_MAX_PROCESSES 0, ps_primordial_process := 0\<rparr>"

text \<open>
  The test for the end of the table comes after the index has been incremented past it: the loop reads the
  word behind the array, which is a parameter.
\<close>

function next_slotnum_loop :: "nat list \<Rightarrow> nat \<Rightarrow> nat \<Rightarrow> bool \<Rightarrow> nat option \<times> nat" where
  "next_slotnum_loop procs behind slot once =
     (if (if slot < CONFIG_MAX_PROCESSES then procs ! slot else behind) \<noteq> 0
      then if slot + 1 > CONFIG_MAX_PROCESSES
           then if once then (None, slot + 1) else next_slotnum_loop procs behind 0 True
           else next_slotnum_loop procs behind (slot + 1) once
      else (Some slot, slot + 1))"
  by pat_completeness auto
termination
  by (relation "measures [\<lambda>(procs, behind, slot, once). if once then 0 else 1,
        \<lambda>(procs, behind, slot, once). CONFIG_MAX_PROCESSES - slot]") auto

declare next_slotnum_loop.simps [simp del]

definition next_slotnum :: "nat \<Rightarrow> 'a proc_sys_scheme \<Rightarrow> 'a proc_sys_scheme \<times> int" where
  "next_slotnum behind s =
     (case next_slotnum_loop (ps_process_list s) behind (ps_next_process_slot s) False of
        (Some slot, nxt) \<Rightarrow> (s\<lparr>ps_next_process_slot := nxt\<rparr>, int slot)
      | (None, nxt) \<Rightarrow> (s\<lparr>ps_next_process_slot := nxt\<rparr>, -1))"

definition init_signal_data :: "nat \<Rightarrow> 'a proc_sys_scheme \<Rightarrow> 'a proc_sys_scheme" where
  "init_signal_data p =
     upd_proc p (\<lambda>x. x\<lparr>p_signals := \<lparr>sd_ignored = 0, sd_blocked = 0, sd_pending = 0,
       sd_actions = map (\<lambda>a. a\<lparr>sa_handler := 0\<rparr>) (sd_actions (p_signals x))\<rparr>\<rparr>)"

definition insert_proc :: "nat \<Rightarrow> 'a proc_sys_scheme \<Rightarrow> 'a proc_sys_scheme" where
  "insert_proc p s = run_queue_insert p s"

text \<open>Entering a new structure into its slot and filling in its fields.\<close>

definition new_proc_fill :: "nat \<Rightarrow> int \<Rightarrow> int \<Rightarrow> int \<Rightarrow> 'a proc_sys_scheme \<Rightarrow> 'a proc_sys_scheme" where
  "new_proc_fill kz slotnum pid uid s =
     (let s = upd_proc kz (\<lambda>_. zero_process\<lparr>p_slotnum := slotnum\<rparr>) s;
          s = s\<lparr>ps_process_list := (ps_process_list s)[nat slotnum := kz], ps_num_processes := ps_num_processes s + 1\<rparr>;
          s = s\<lparr>ps_run_nodes := queue_node_init kz (ps_run_nodes s)\<rparr>;
          s = upd_proc kz (\<lambda>x. x\<lparr>p_tid := pid, p_tgid := pid, p_pid := pid, p_parent := INIT_PID, p_pgid := pid,
                p_session := pid, p_ctty := 0, p_state := PS_RUNNING, p_map := 0\<rparr>) s;
          s = init_timer kz s;
          s = init_signal_data kz s
      in upd_proc kz (\<lambda>x. x\<lparr>p_start_time := get_system_time s, p_uid := uid, p_umask := PROC_DEFAULT_UMASK,
           p_fd_table := 0\<rparr>) s)"

text \<open>\<open>kz\<close> is the address \<^verbatim>\<open>kzalloc\<close> returns; a slot behind the table is written out of bounds.\<close>

definition new_proc :: "'a proc_sys_scheme proc_env \<Rightarrow> nat \<Rightarrow> int \<Rightarrow> int \<Rightarrow> 'a proc_sys_scheme \<Rightarrow> ('a proc_sys_scheme \<times> nat) option" where
  "new_proc pe kz pid uid s =
     (let (pid, s) = (if pid = 0 then (ps_next_pid s, s\<lparr>ps_next_pid := to_int (ps_next_pid s + 1)\<rparr>) else (pid, s))
      in if ps_num_processes s \<ge> int CONFIG_MAX_PROCESSES then Some (s, 0)
         else let (s, slotnum) = next_slotnum (pe_behind_process_list pe) s
         in if slotnum < 0 then Some (s, 0)
         else if kz = 0 then Some (s, 0)
         else if slotnum \<ge> int CONFIG_MAX_PROCESSES then None
         else Some (insert_proc kz (pe_arch_init_task_info pe kz (new_proc_fill kz slotnum pid uid s)), kz))"

definition get_proc :: "int \<Rightarrow> 'a proc_sys_scheme \<Rightarrow> nat" where
  "get_proc pid s =
     (case find (\<lambda>p. p \<noteq> 0 \<and> p_pid (ps_procs s p) = pid) (ps_process_list s) of Some p \<Rightarrow> p | None \<Rightarrow> 0)"

text \<open>\<open>kz\<close> is the address of the new descriptor table.\<close>

definition reset_proc :: "'a proc_sys_scheme proc_env \<Rightarrow> nat \<Rightarrow> nat \<Rightarrow> 'a proc_sys_scheme \<Rightarrow> ('a proc_sys_scheme \<times> int) option" where
  "reset_proc pe kz p s = do {
     let s = upd_proc p (\<lambda>x. x\<lparr>p_wait_events := 0, p_wait_check := None, p_blocked_call := zero_call\<rparr>) s;
     let s = init_timer p s;
     let s = init_signal_data p s;
     let fdt = p_fd_table (ps_procs s p);
     if fdt \<noteq> 0 \<and> kz = 0 then Some (s, ENOMEM)
     else do {
       s \<leftarrow> (if fdt \<noteq> 0
             then do {
               let (s, t) = alloc_fd_table kz s;
               s \<leftarrow> dup_fd_table t fdt 2 s;
               s \<leftarrow> free_fd_table (vfs_env.truncate pe) (p_fd_table (ps_procs s p)) s;
               Some (upd_proc p (\<lambda>x. x\<lparr>p_fd_table := t\<rparr>) s) }
             else Some s);
       let s = (if p_map (ps_procs s p) \<noteq> 0
                then upd_proc p (\<lambda>x. x\<lparr>p_map := 0\<rparr>) (pe_memory_map_free pe (p_map (ps_procs s p)) s) else s);
       let s = (if ps_previous_proc s = p then s\<lparr>ps_previous_proc := 0\<rparr> else s);
       Some (s, 0) } }"

fun reparent :: "int \<Rightarrow> nat list \<Rightarrow> 'a proc_sys_scheme \<Rightarrow> 'a proc_sys_scheme \<times> int" where
  "reparent pid [] s = (s, 0)"
| "reparent pid (q # qs) s =
     (if q \<noteq> 0 \<and> p_parent (ps_procs s q) = pid
      then let (s, n) = reparent pid qs (upd_proc q (\<lambda>x. x\<lparr>p_parent := INIT_PID\<rparr>) s) in (s, n + 1)
      else reparent pid qs s)"

definition close_proc :: "'a proc_sys_scheme proc_env \<Rightarrow> nat \<Rightarrow> 'a proc_sys_scheme \<Rightarrow> ('a proc_sys_scheme \<times> int) option" where
  "close_proc pe p s = do {
     let s = (if p = ps_previous_proc s then s\<lparr>ps_previous_proc := 0\<rparr> else s);
     let s = fst (remove_timer p s);
     s \<leftarrow> (if p_fd_table (ps_procs s p) \<noteq> 0 then free_fd_table (vfs_env.truncate pe) (p_fd_table (ps_procs s p)) s else Some s);
     let s = (if p_map (ps_procs s p) \<noteq> 0
              then upd_proc p (\<lambda>x. x\<lparr>p_map := 0\<rparr>) (pe_memory_map_free pe (p_map (ps_procs s p)) s) else s);
     let (s, orphans) = reparent (p_pid (ps_procs s p)) (ps_process_list s) s;
     let s = pe_arch_release_task_info pe p s;
     Some (s, orphans) }"

definition cleanup_proc :: "nat \<Rightarrow> 'a proc_sys_scheme \<Rightarrow> 'a proc_sys_scheme option" where
  "cleanup_proc p s =
     (let slot = p_slotnum (ps_procs s p)
      in if 0 \<le> slot \<and> slot < int (length (ps_process_list s))
         then Some (kmfree_log p
                (if ps_process_list s ! nat slot = p
                 then s\<lparr>ps_process_list := (ps_process_list s)[nat slot := 0], ps_num_processes := ps_num_processes s - 1\<rparr>
                 else s))
         else None)"

definition find_exited_child :: "int \<Rightarrow> int \<Rightarrow> 'a proc_sys_scheme \<Rightarrow> nat" where
  "find_exited_child parent child s =
     (case find (\<lambda>p. p \<noteq> 0 \<and> p_state (ps_procs s p) = PS_EXITED \<and> p_parent (ps_procs s p) = parent \<and>
             (child = -1 \<or> p_pid (ps_procs s p) = child)) (ps_process_list s) of
        Some p \<Rightarrow> p | None \<Rightarrow> 0)"

definition set_proc_alarm :: "nat \<Rightarrow> u32 \<Rightarrow> 'a proc_sys_scheme \<Rightarrow> 'a proc_sys_scheme \<times> int" where
  "set_proc_alarm p seconds s =
     (if seconds = 0 then (fst (remove_timer p s), 0)
      else let s = upd_proc p (\<lambda>x. x\<lparr>p_bits := p_bits x OR PB_ALARM_ON,
                 p_timer := (p_timer x)\<lparr>t_argp := p, t_callback := Some On_alarm\<rparr>\<rparr>) s
           in (fst (add_timer p (sint seconds) 0 s), 0))"

text \<open>The iterator over the table is the index of the next slot.\<close>

definition proc_iter_start :: nat where "proc_iter_start = 0"

function proc_iter_next :: "nat \<Rightarrow> 'a proc_sys_scheme \<Rightarrow> nat \<times> nat" where
  "proc_iter_next slotnum s =
     (if slotnum \<ge> CONFIG_MAX_PROCESSES then (0, slotnum)
      else let p = ps_process_list s ! slotnum
           in if p = 0 then proc_iter_next (slotnum + 1) s else (p, slotnum + 1))"
  by pat_completeness auto
termination
  by (relation "measure (\<lambda>(slotnum, s). CONFIG_MAX_PROCESSES - slotnum)") auto

declare proc_iter_next.simps [simp del]

end
