(* ===== verification/Sched.thy ===== *)
theory Sched
  imports Procs
begin

text \<open>
  The scheduler of \<^verbatim>\<open>src/kernel/proc/scheduler.c\<close>: the run queue, the blocked queue, and the functions that
  move a process between them; and the \<^verbatim>\<open>select\<close> call of \<^verbatim>\<open>src/kernel/proc/select.c\<close>, one of the conditions a blocked
  process waits for.
\<close>

section \<open>Process states\<close>

definition state_of :: "nat \<Rightarrow> 'a proc_sys_scheme \<Rightarrow> proc_state" where
  "state_of p s = p_state (ps_procs s p)"

definition set_state :: "nat \<Rightarrow> proc_state \<Rightarrow> 'a proc_sys_scheme \<Rightarrow> 'a proc_sys_scheme" where
  "set_state p st = upd_proc p (\<lambda>x. x\<lparr>p_state := st\<rparr>)"

definition request_reschedule :: "'a proc_sys_scheme \<Rightarrow> 'a proc_sys_scheme" where
  "request_reschedule s = s\<lparr>ps_need_reschedule := 1\<rparr>"

text \<open>The idle thread is created by a function of the environment; \<open>None\<close> is the panic.\<close>

definition init_scheduler :: "'a proc_sys_scheme proc_env \<Rightarrow> 'a proc_sys_scheme \<Rightarrow> 'a proc_sys_scheme option" where
  "init_scheduler pe s =
     (let s = s\<lparr>ps_need_reschedule := 1, ps_next_reschedule_time := 0, ps_kernel_reentries := 1, ps_current_proc := 0,
            ps_previous_proc := 0, ps_run_queue := queue_init, ps_blocked_queue := queue_init\<rparr>;
          (idle, s) = pe_create_idle_thread pe s;
          s = s\<lparr>ps_idle_proc := idle\<rparr>
      in if idle = 0 then None else Some (run_queue_remove idle s))"

definition resume_proc :: "nat \<Rightarrow> 'a proc_sys_scheme \<Rightarrow> 'a proc_sys_scheme" where
  "resume_proc p s =
     (if state_of p s = PS_RUNNING \<or> state_of p s = PS_RESUMING \<or> state_of p s = PS_EXITED then s
      else let s = (if state_of p s = PS_BLOCKED then blocked_queue_remove p s else s);
               s = run_queue_insert p s
           in upd_proc p (\<lambda>x. x\<lparr>p_state := PS_RESUMING, p_wait_events := 0, p_wait_check := None\<rparr>) s)"

definition resume_waiting_parent :: "nat \<Rightarrow> 'a proc_sys_scheme \<Rightarrow> 'a proc_sys_scheme option" where
  "resume_waiting_parent p s =
     (if p = 0 then None
      else let parent = get_proc (p_parent (ps_procs s p)) s
           in if parent = 0 then None
              else if state_of parent s = PS_BLOCKED \<and> p_bits (ps_procs s parent) AND PB_WAITING \<noteq> 0
              then Some (resume_proc parent s)
              else Some s)"

definition exit_proc :: "'a proc_sys_scheme proc_env \<Rightarrow> nat \<Rightarrow> int \<Rightarrow> 'a proc_sys_scheme \<Rightarrow> 'a proc_sys_scheme option" where
  "exit_proc pe p status s =
     (if state_of p s = PS_EXITED then Some s
      else do {
        let s = (if state_of p s = PS_BLOCKED then blocked_queue_remove p s else run_queue_remove p s);
        let s = upd_proc p (\<lambda>x. x\<lparr>p_state := PS_EXITED, p_exitcode := status\<rparr>) s;
        (s, orphans) \<leftarrow> close_proc pe p s;
        s \<leftarrow> (if orphans \<noteq> 0 then resume_waiting_parent (get_proc 1 s) s else Some s);
        let s = s\<lparr>ps_need_reschedule := 1\<rparr>;
        resume_waiting_parent p s })"

definition stop_proc :: "nat \<Rightarrow> 'a proc_sys_scheme \<Rightarrow> 'a proc_sys_scheme" where
  "stop_proc p s =
     (if state_of p s = PS_EXITED \<or> state_of p s = PS_STOPPED then s
      else let s = (if state_of p s = PS_RUNNING \<or> state_of p s = PS_RESUMING then run_queue_remove p s
                    else if state_of p s = PS_BLOCKED then blocked_queue_remove p s else s)
           in (set_state p PS_STOPPED s)\<lparr>ps_need_reschedule := 1\<rparr>)"

definition suspend_proc :: "nat \<Rightarrow> u32 \<Rightarrow> 'a proc_sys_scheme \<Rightarrow> 'a proc_sys_scheme" where
  "suspend_proc p flags s =
     (if state_of p s \<noteq> PS_RUNNING then s
      else let s = run_queue_remove p s;
               s = blocked_queue_insert p s;
               s = upd_proc p (\<lambda>x. x\<lparr>p_state := PS_BLOCKED, p_bits := p_bits x OR (flags AND PB_BLOCK_CONDITIONS)\<rparr>) s
           in s\<lparr>ps_need_reschedule := 1\<rparr>)"

definition reschedule_proc_to_now :: "nat \<Rightarrow> 'a proc_sys_scheme \<Rightarrow> 'a proc_sys_scheme option" where
  "reschedule_proc_to_now p s =
     (if p = ps_current_proc s \<or> \<not> PROC_IS_RUNNING (ps_procs s p) then Some s
      else if ps_current_proc s = 0 then None
      else if \<not> PROC_IS_RUNNING (ps_procs s (ps_current_proc s)) then Some s
      else Some (run_queue_insert_after p (ps_current_proc s) (run_queue_remove p s)))"

definition resume_proc_without_restart :: "nat \<Rightarrow> 'a proc_sys_scheme \<Rightarrow> 'a proc_sys_scheme option" where
  "resume_proc_without_restart p s = reschedule_proc_to_now p (set_state p PS_RUNNING (resume_proc p s))"

section \<open>Blocking system calls\<close>

definition suspend_syscall :: "nat \<Rightarrow> u32 \<Rightarrow> u32 \<Rightarrow> wait_check option \<Rightarrow> syscall_record \<Rightarrow> 'a proc_sys_scheme \<Rightarrow> 'a proc_sys_scheme" where
  "suspend_syscall p proc_flags events check call s =
     upd_proc p (\<lambda>x. x\<lparr>p_wait_events := events, p_wait_check := check, p_blocked_call := call\<rparr>)
       (suspend_proc p (PB_SYSCALL OR proc_flags) s)"

definition set_proc_return_value :: "nat \<Rightarrow> int \<Rightarrow> 'a proc_sys_scheme \<Rightarrow> 'a proc_sys_scheme" where
  "set_proc_return_value p ret = upd_proc p (\<lambda>x. x\<lparr>p_return_value := ret\<rparr>)"

definition cancel_syscall :: "nat \<Rightarrow> 'a proc_sys_scheme \<Rightarrow> 'a proc_sys_scheme" where
  "cancel_syscall p s =
     (let s = (if state_of p s = PS_BLOCKED then resume_proc p s else s);
          s = (if state_of p s = PS_RESUMING then set_state p PS_RUNNING s else s);
          s = upd_proc p (\<lambda>x. x\<lparr>p_bits := p_bits x AND NOT PB_BLOCK_CONDITIONS\<rparr>) s;
          s = set_proc_return_value p EINTR s
      in upd_proc p (\<lambda>x. x\<lparr>p_bits := p_bits x OR PB_DONT_SET_RETURN_VAL\<rparr>) s)"

text \<open>The vnode of the file behind a descriptor of a process.\<close>

definition fd_vnode :: "nat \<Rightarrow> int \<Rightarrow> 'a proc_sys_scheme \<Rightarrow> nat option" where
  "fd_vnode p fd s =
     (if p_fd_table (ps_procs s p) = 0 then None
      else do {
        f \<leftarrow> fd_at (p_fd_table (ps_procs s p)) fd s;
        x \<leftarrow> f;
        Some (vf_vnode (fs_file_table s x)) })"

definition syscall_wait_check :: "nat \<Rightarrow> u32 \<Rightarrow> nat \<Rightarrow> int \<Rightarrow> 'a proc_sys_scheme \<Rightarrow> bool option" where
  "syscall_wait_check p events vnode rdev s =
     (let fd = sr_arg1 (p_blocked_call (ps_procs s p))
      in if vnode = 0 \<and> rdev = 0 then Some False
         else do {
           v \<leftarrow> fd_vnode p fd s;
           if vnode \<noteq> 0 \<and> v = vnode then Some True
           else if rdev \<noteq> 0 then if v = 0 then None else Some (vn_rdev (fs_vnodes s v) = rdev)
           else Some False })"

section \<open>Waiting for files\<close>

text \<open>
  A \<^verbatim>\<open>fd_set\<close> is four words of bits, \<open>None\<close> for a \<^verbatim>\<open>NULL\<close> pointer. The two nested loops over words and bits run
  through the descriptors in order.
\<close>

definition FDS_MAX :: nat where "FDS_MAX = 128"
definition VFS_POLL_READ :: u32 where "VFS_POLL_READ = 0x01"
definition VFS_POLL_WRITE :: u32 where "VFS_POLL_WRITE = 0x02"
definition VFS_POLL_ERROR :: u32 where "VFS_POLL_ERROR = 0x04"

definition fds_isset :: "u32 list option \<Rightarrow> nat \<Rightarrow> bool" where
  "fds_isset fds fd = (case fds of None \<Rightarrow> False | Some ws \<Rightarrow> bit (ws ! (fd div 32)) (fd mod 32))"

definition fds_clear :: "u32 list option \<Rightarrow> nat \<Rightarrow> u32 list option" where
  "fds_clear fds fd = map_option (\<lambda>ws. ws[fd div 32 := ws ! (fd div 32) AND NOT (push_bit (fd mod 32) 1)]) fds"

definition file_of_fd :: "nat \<Rightarrow> nat \<Rightarrow> 'a proc_sys_scheme \<Rightarrow> nat option option" where
  "file_of_fd p fd s = (if p_fd_table (ps_procs s p) = 0 then None else fd_at (p_fd_table (ps_procs s p)) (int fd) s)"

fun select_check_loop :: "nat \<Rightarrow> int \<Rightarrow> u32 list option \<Rightarrow> u32 list option \<Rightarrow> u32 list option \<Rightarrow> nat list \<Rightarrow> 'a proc_sys_scheme \<Rightarrow> int option" where
  "select_check_loop p limit readfds writefds exceptfds [] s = Some 0"
| "select_check_loop p limit readfds writefds exceptfds (fd # fds) s =
     (if int fd \<ge> limit then Some 0
      else if fds_isset readfds fd \<or> fds_isset writefds fd \<or> fds_isset exceptfds fd
      then do {
        f \<leftarrow> file_of_fd p fd s;
        if f = None then Some (-1) else select_check_loop p limit readfds writefds exceptfds fds s }
      else select_check_loop p limit readfds writefds exceptfds fds s)"

definition select_check_open_fds :: "nat \<Rightarrow> int \<Rightarrow> u32 list option \<Rightarrow> u32 list option \<Rightarrow> u32 list option \<Rightarrow> 'a proc_sys_scheme \<Rightarrow> int option" where
  "select_check_open_fds p limit readfds writefds exceptfds s =
     select_check_loop p limit readfds writefds exceptfds [0..<FDS_MAX] s"

definition select_mark :: "bool \<Rightarrow> bool \<Rightarrow> nat \<Rightarrow> u32 list option \<times> int \<Rightarrow> u32 list option \<times> int" where
  "select_mark event mark_ready fd r =
     (let (fds, ready) = r
      in if fds_isset fds fd
         then if event then (fds, ready + 1) else if mark_ready then (fds_clear fds fd, ready) else (fds, ready)
         else (fds, ready))"

fun select_poll_loop ::
    "'a proc_sys_scheme proc_env \<Rightarrow> nat \<Rightarrow> int \<Rightarrow> bool \<Rightarrow> nat list \<Rightarrow> u32 list option \<Rightarrow> u32 list option \<Rightarrow> u32 list option \<Rightarrow> int \<Rightarrow>
     'a proc_sys_scheme \<Rightarrow> (int \<times> u32 list option \<times> u32 list option \<times> u32 list option) option" where
  "select_poll_loop pe p limit mark_ready [] readfds writefds exceptfds ready s = Some (ready, readfds, writefds, exceptfds)"
| "select_poll_loop pe p limit mark_ready (fd # fds) readfds writefds exceptfds ready s =
     (if int fd \<ge> limit then Some (ready, readfds, writefds, exceptfds)
      else do {
        f \<leftarrow> file_of_fd p fd s;
        x \<leftarrow> f;
        let revents = vfs_poll (vfs_env.truncate pe) x (VFS_POLL_READ OR VFS_POLL_WRITE OR VFS_POLL_ERROR) s;
        let (readfds, ready) = select_mark (revents AND VFS_POLL_READ \<noteq> 0) mark_ready fd (readfds, ready);
        let (writefds, ready) = select_mark (revents AND VFS_POLL_WRITE \<noteq> 0) mark_ready fd (writefds, ready);
        let (exceptfds, ready) = select_mark (revents AND VFS_POLL_ERROR \<noteq> 0) mark_ready fd (exceptfds, ready);
        if \<not> mark_ready \<and> ready \<noteq> 0 then Some (1, readfds, writefds, exceptfds)
        else select_poll_loop pe p limit mark_ready fds readfds writefds exceptfds ready s })"

definition select_poll_fds ::
    "'a proc_sys_scheme proc_env \<Rightarrow> nat \<Rightarrow> int \<Rightarrow> u32 list option \<Rightarrow> u32 list option \<Rightarrow> u32 list option \<Rightarrow> bool \<Rightarrow>
     'a proc_sys_scheme \<Rightarrow> (int \<times> u32 list option \<times> u32 list option \<times> u32 list option) option" where
  "select_poll_fds pe p limit readfds writefds exceptfds mark_ready s =
     select_poll_loop pe p limit mark_ready [0..<FDS_MAX] readfds writefds exceptfds 0 s"

text \<open>The sets are read from the memory of the process through its blocked call.\<close>

definition select_wait_check :: "'a proc_sys_scheme proc_env \<Rightarrow> nat \<Rightarrow> 'a proc_sys_scheme \<Rightarrow> bool option" where
  "select_wait_check pe p s =
     (let call = p_blocked_call (ps_procs s p)
      in map_option (\<lambda>(r, _). r \<noteq> 0)
           (select_poll_fds pe p (sr_arg1 call) (pe_user_fd_set pe (sr_arg2 call) s) (pe_user_fd_set pe (sr_arg3 call) s)
              (pe_user_fd_set pe (sr_arg4 call) s) False s))"

definition select_timeout :: "nat \<Rightarrow> 'a proc_sys_scheme \<Rightarrow> 'a proc_sys_scheme \<times> int" where
  "select_timeout p s = (resume_proc p s, 0)"

definition enter_select ::
    "'a proc_sys_scheme proc_env \<Rightarrow> nat \<Rightarrow> int \<Rightarrow> u32 list option \<Rightarrow> u32 list option \<Rightarrow> u32 list option \<Rightarrow> (int \<times> int) option \<Rightarrow>
     'a proc_sys_scheme \<Rightarrow> ('a proc_sys_scheme \<times> int \<times> u32 list option \<times> u32 list option \<times> u32 list option) option" where
  "enter_select pe p limit readfds writefds exceptfds timeout s = do {
     let finish = (let s = upd_proc p (\<lambda>x. x\<lparr>p_bits := p_bits x AND NOT PB_SELECT, p_wait_check := None\<rparr>) s
                   in map_option (\<lambda>(n, sets). (s, n, sets)) (select_poll_fds pe p limit readfds writefds exceptfds True s));
     if p_bits (ps_procs s p) AND PB_SELECT = 0
     then do {
       bad \<leftarrow> select_check_open_fds p limit readfds writefds exceptfds s;
       if bad \<noteq> 0 then Some (s, -1, readfds, writefds, exceptfds)
       else do {
         (n, _) \<leftarrow> select_poll_fds pe p limit readfds writefds exceptfds False s;
         if n = 0
         then (case timeout of
                 Some (sec, usec) \<Rightarrow>
                   if sec = 0 \<and> usec = 0 then Some (s, 0, readfds, writefds, exceptfds)
                   else let c = ps_current_proc s;
                            s = upd_proc c (\<lambda>x. x\<lparr>p_timer := (p_timer x)\<lparr>t_argp := c, t_callback := Some Select_timeout\<rparr>\<rparr>) s;
                            s = fst (add_timer c sec usec s)
                        in Some (suspend_syscall p PB_SELECT 0xFF (Some Select_wait_check) (ps_current_syscall s) s, 0,
                                 readfds, writefds, exceptfds)
               | None \<Rightarrow> Some (suspend_syscall p PB_SELECT 0xFF (Some Select_wait_check) (ps_current_syscall s) s, 0,
                               readfds, writefds, exceptfds))
         else finish } }
     else finish }"

section \<open>Waking up blocked processes\<close>

definition run_wait_check :: "'a proc_sys_scheme proc_env \<Rightarrow> nat \<Rightarrow> u32 \<Rightarrow> nat \<Rightarrow> int \<Rightarrow> 'a proc_sys_scheme \<Rightarrow> bool option" where
  "run_wait_check pe p events vnode rdev s =
     (case p_wait_check (ps_procs s p) of
        None \<Rightarrow> Some False
      | Some c \<Rightarrow>
          if events AND p_wait_events (ps_procs s p) = 0 then Some False
          else (case c of Syscall_wait_check \<Rightarrow> syscall_wait_check p events vnode rdev s
                | Select_wait_check \<Rightarrow> select_wait_check pe p s))"

partial_function (option) resume_blocked_loop ::
    "'a proc_sys_scheme proc_env \<Rightarrow> u32 \<Rightarrow> nat \<Rightarrow> int \<Rightarrow> nat option \<Rightarrow> 'a proc_sys_scheme \<Rightarrow> 'a proc_sys_scheme option" where
  "resume_blocked_loop pe events vnode rdev cur s =
     (case cur of
        None \<Rightarrow> Some s
      | Some p \<Rightarrow> do {
          let nxt = queue_next p (ps_run_nodes s);
          ready \<leftarrow> run_wait_check pe p events vnode rdev s;
          resume_blocked_loop pe events vnode rdev nxt (if ready then resume_proc p s else s) })"

definition resume_blocked_procs :: "'a proc_sys_scheme proc_env \<Rightarrow> u32 \<Rightarrow> nat \<Rightarrow> int \<Rightarrow> 'a proc_sys_scheme \<Rightarrow> 'a proc_sys_scheme option" where
  "resume_blocked_procs pe events vnode rdev s =
     resume_blocked_loop pe events vnode rdev (q_head (ps_blocked_queue s)) s"

section \<open>The current system call\<close>

definition suspend_current_syscall :: "u32 \<Rightarrow> 'a proc_sys_scheme \<Rightarrow> 'a proc_sys_scheme" where
  "suspend_current_syscall events s =
     suspend_syscall (ps_current_proc s) PB_SYSCALL events (Some Syscall_wait_check) (ps_current_syscall s) s"

definition restart_current_syscall :: "'a proc_sys_scheme proc_env \<Rightarrow> 'a proc_sys_scheme \<Rightarrow> 'a proc_sys_scheme option" where
  "restart_current_syscall pe s =
     (let c = ps_current_proc s
      in if p_bits (ps_procs s c) AND PB_SYSCALL \<noteq> 0
         then let s = upd_proc c (\<lambda>x. x\<lparr>p_bits := p_bits x AND NOT PB_SYSCALL\<rparr>) s;
                  s = s\<lparr>ps_current_syscall := p_blocked_call (ps_procs s c)\<rparr>
              in pe_do_syscall pe s
         else Some s)"

definition return_to_current_proc :: "int \<Rightarrow> 'a proc_sys_scheme \<Rightarrow> 'a proc_sys_scheme" where
  "return_to_current_proc ret s =
     (let c = ps_current_proc s
      in if p_bits (ps_procs s c) AND PB_DONT_SET_RETURN_VAL \<noteq> 0
         then upd_proc c (\<lambda>x. x\<lparr>p_bits := p_bits x AND NOT PB_DONT_SET_RETURN_VAL\<rparr>) s
         else if state_of c s = PS_RUNNING then set_proc_return_value c ret s
         else s)"

section \<open>Choosing the next process\<close>

definition reschedule_period :: u64 where "reschedule_period = 100 * 1000 * 1000"

definition check_reschedule :: "u64 \<Rightarrow> 'a proc_sys_scheme \<Rightarrow> 'a proc_sys_scheme" where
  "check_reschedule uptime s =
     (if uptime > ps_next_reschedule_time s
      then s\<lparr>ps_next_reschedule_time := uptime + reschedule_period, ps_need_reschedule := 1\<rparr>
      else s)"

definition schedule_next :: "'a proc_sys_scheme \<Rightarrow> nat" where
  "schedule_next s =
     (let c = ps_current_proc s;
          node = (if c = 0 \<or> \<not> PROC_IS_RUNNING (ps_procs s c) \<or> queue_next c (ps_run_nodes s) = None
                  then q_head (ps_run_queue s)
                  else queue_next c (ps_run_nodes s))
      in case node of Some p \<Rightarrow> p | None \<Rightarrow> ps_idle_proc s)"

definition schedule :: "'a proc_sys_scheme proc_env \<Rightarrow> 'a proc_sys_scheme \<Rightarrow> 'a proc_sys_scheme option" where
  "schedule pe s =
     (let s = s\<lparr>ps_need_reschedule := 0\<rparr>;
          nxt = schedule_next s;
          s = s\<lparr>ps_current_proc := nxt, ps_next_reschedule_time := get_monotonic_uptime s + reschedule_period\<rparr>;
          s = (if nxt \<noteq> ps_previous_proc s then pe_arch_extended_switch_context pe (ps_previous_proc s) nxt s else s)
      in if state_of (ps_current_proc s) s = PS_RESUMING
         then restart_current_syscall pe (set_state (ps_current_proc s) PS_RUNNING s)
         else Some s)"

definition begin_multitasking :: "'a proc_sys_scheme \<Rightarrow> 'a proc_sys_scheme" where
  "begin_multitasking s = s\<lparr>ps_need_reschedule := 1\<rparr>"

end
