(* ===== verification/Signals.thy ===== *)
theory Signals
  imports Sched
begin

text \<open>
  Signals (\<^verbatim>\<open>src/kernel/proc/signal.c\<close>), the alarm of a process (\<^verbatim>\<open>src/kernel/proc/process.c\<close>) and the running of
  timers (\<^verbatim>\<open>src/kernel/proc/timer.c\<close>).
\<close>

section \<open>Signal sets\<close>

definition SIG_MASK_DEFAULT_TERMINATE :: u32 where "SIG_MASK_DEFAULT_TERMINATE = 0x47807FFF"
definition SIG_MASK_DEFAULT_STOP :: u32 where "SIG_MASK_DEFAULT_STOP = 0x003C0000"
definition SIG_MASK_MASKABLE :: u32 where "SIG_MASK_MASKABLE = 0xFFFBFEFF"
definition SA_RESTART :: u32 where "SA_RESTART = 0x0008"
definition SIGALRM :: int where "SIGALRM = 14"
definition SIGCONT :: int where "SIGCONT = 18"

definition signal_to_map :: "int \<Rightarrow> u32" where
  "signal_to_map signum = push_bit (nat (signum - 1)) 0x00000001"

fun get_next_signum_loop :: "nat \<Rightarrow> int \<Rightarrow> u32 \<Rightarrow> int" where
  "get_next_signum_loop 0 i sigs = -1"
| "get_next_signum_loop (Suc k) i sigs =
     (if sigs AND 0x01 \<noteq> 0 then i else get_next_signum_loop k (i + 1) (drop_bit 1 sigs))"

text \<open>The loop runs while \<^verbatim>\<open>i < 31\<close>.\<close>

definition get_next_signum :: "u32 \<Rightarrow> int" where
  "get_next_signum sigs = get_next_signum_loop 30 1 sigs"

section \<open>Actions\<close>

definition action_of :: "nat \<Rightarrow> int \<Rightarrow> 'a proc_sys_scheme \<Rightarrow> sigaction option" where
  "action_of p signum s =
     (let acts = sd_actions (p_signals (ps_procs s p))
      in if 1 \<le> signum \<and> signum - 1 < int (length acts) then Some (acts ! nat (signum - 1)) else None)"

definition upd_signals :: "nat \<Rightarrow> (signal_data \<Rightarrow> signal_data) \<Rightarrow> 'a proc_sys_scheme \<Rightarrow> 'a proc_sys_scheme" where
  "upd_signals p g = upd_proc p (\<lambda>x. x\<lparr>p_signals := g (p_signals x)\<rparr>)"

definition get_signal_action :: "nat \<Rightarrow> int \<Rightarrow> 'a proc_sys_scheme \<Rightarrow> (int \<times> sigaction) option" where
  "get_signal_action p signum s = map_option (Pair 0) (action_of p signum s)"

definition set_signal_action :: "nat \<Rightarrow> int \<Rightarrow> sigaction \<Rightarrow> 'a proc_sys_scheme \<Rightarrow> ('a proc_sys_scheme \<times> int) option" where
  "set_signal_action p signum act s =
     (if action_of p signum s = None then None
      else Some (upd_signals p (\<lambda>d. d\<lparr>sd_actions := (sd_actions d)[nat (signum - 1) :=
             act\<lparr>sa_mask := (sa_mask act OR signal_to_map signum) AND SIG_MASK_MASKABLE\<rparr>]\<rparr>) s, 0))"

definition run_signal_handler :: "nat \<Rightarrow> int \<Rightarrow> sigaction \<Rightarrow> 'a proc_sys_scheme \<Rightarrow> 'a proc_sys_scheme option" where
  "run_signal_handler p signum act s =
     (let s = (if p_bits (ps_procs s p) AND PB_PAUSED \<noteq> 0 \<or> sa_flags act AND SA_RESTART = 0 then cancel_syscall p s else s);
          s = upd_proc p (\<lambda>x. x\<lparr>p_signal_pending := signum\<rparr>) s
      in resume_proc_without_restart p s)"

definition run_signal_default_action ::
    "'a proc_sys_scheme proc_env \<Rightarrow> nat \<Rightarrow> int \<Rightarrow> u32 \<Rightarrow> 'a proc_sys_scheme \<Rightarrow> 'a proc_sys_scheme option" where
  "run_signal_default_action pe p signum sigmask s = do {
     s \<leftarrow> (if sigmask AND SIG_MASK_DEFAULT_TERMINATE \<noteq> 0
           then do { s \<leftarrow> exit_proc pe p (-1) s; resume_waiting_parent p s }
           else if sigmask AND SIG_MASK_DEFAULT_STOP \<noteq> 0 then Some (stop_proc p s)
           else if signum = SIGCONT then Some (resume_proc p s)
           else Some s);
     act \<leftarrow> action_of p signum s;
     Some (if sa_flags act AND SA_RESTART = 0 then cancel_syscall p s else s) }"

section \<open>Sending signals\<close>

definition dispatch_signal :: "'a proc_sys_scheme proc_env \<Rightarrow> nat \<Rightarrow> int \<Rightarrow> 'a proc_sys_scheme \<Rightarrow> ('a proc_sys_scheme \<times> int) option" where
  "dispatch_signal pe p signum s =
     (if signum \<le> 0 \<or> signum \<ge> 32 then Some (s, EINVAL)
      else let sigmask = signal_to_map signum; sd = p_signals (ps_procs s p)
           in if sigmask AND sd_ignored sd \<noteq> 0 then Some (s, 0)
              else if sigmask AND sd_blocked sd \<noteq> 0
              then Some (upd_signals p (\<lambda>d. d\<lparr>sd_pending := sd_pending d OR sigmask\<rparr>) s, 0)
              else do {
                act \<leftarrow> action_of p signum s;
                s \<leftarrow> (if sa_handler act \<noteq> 0 then run_signal_handler p signum act s
                      else run_signal_default_action pe p signum sigmask s);
                Some (s, 0) })"

definition send_signal :: "'a proc_sys_scheme proc_env \<Rightarrow> int \<Rightarrow> int \<Rightarrow> 'a proc_sys_scheme \<Rightarrow> ('a proc_sys_scheme \<times> int) option" where
  "send_signal pe pid signum s =
     (let p = get_proc pid s in if p = 0 then Some (s, ESRCH) else dispatch_signal pe p signum s)"

text \<open>The loop ends when the iterator has passed the last slot.\<close>

lemma proc_iter_next_less:
  "proc_iter_next k s = (p, k') \<Longrightarrow> p \<noteq> 0 \<Longrightarrow> k < k' \<and> k' \<le> CONFIG_MAX_PROCESSES"
proof (induction k s rule: proc_iter_next.induct)
  case (1 k s)
  then show ?case by (subst (asm) (2) proc_iter_next.simps) (auto simp: Let_def split: if_splits)
qed

function signal_group_loop ::
    "'a proc_sys_scheme proc_env \<Rightarrow> int \<Rightarrow> int \<Rightarrow> nat \<Rightarrow> 'a proc_sys_scheme \<Rightarrow> 'a proc_sys_scheme option" where
  "signal_group_loop pe pgid signum k s =
     (case proc_iter_next k s of
        (p, k') \<Rightarrow>
          if p = 0 then Some s
          else if p_pgid (ps_procs s p) = pgid
          then (case dispatch_signal pe p signum s of None \<Rightarrow> None | Some (s', _) \<Rightarrow> signal_group_loop pe pgid signum k' s')
          else signal_group_loop pe pgid signum k' s)"
  by pat_completeness auto
termination
  by (relation "measure (\<lambda>(pe, pgid, signum, k, s). CONFIG_MAX_PROCESSES - k)")
    (auto dest!: proc_iter_next_less [OF sym])

declare signal_group_loop.simps [simp del]

definition send_signal_process_group ::
    "'a proc_sys_scheme proc_env \<Rightarrow> int \<Rightarrow> int \<Rightarrow> 'a proc_sys_scheme \<Rightarrow> ('a proc_sys_scheme \<times> int) option" where
  "send_signal_process_group pe pgid signum s =
     map_option (\<lambda>s. (s, 0)) (signal_group_loop pe pgid signum proc_iter_start s)"

section \<open>Returning to the process\<close>

definition do_signal :: "'a proc_sys_scheme proc_env \<Rightarrow> 'a proc_sys_scheme \<Rightarrow> 'a proc_sys_scheme" where
  "do_signal pe s =
     (let c = ps_current_proc s;
          s = pe_arch_add_signal_context pe c (p_signal_pending (ps_procs s c)) s
      in upd_proc (ps_current_proc s) (\<lambda>x. x\<lparr>p_signal_pending := 0\<rparr>) s)"

definition check_pending_signals :: "'a proc_sys_scheme proc_env \<Rightarrow> 'a proc_sys_scheme \<Rightarrow> 'a proc_sys_scheme option" where
  "check_pending_signals pe s =
     (let c = ps_current_proc s; sd = p_signals (ps_procs s c)
      in if sd_pending sd AND NOT (sd_blocked sd) \<noteq> 0
         then let signum = get_next_signum (sd_pending sd)
              in if signum < 0 then Some s
                 else map_option fst (dispatch_signal pe c signum
                        (upd_signals c (\<lambda>d. d\<lparr>sd_pending := sd_pending d AND NOT (signal_to_map signum)\<rparr>) s))
         else Some s)"

definition cleanup_signal_handler :: "'a proc_sys_scheme proc_env \<Rightarrow> 'a proc_sys_scheme \<Rightarrow> 'a proc_sys_scheme option" where
  "cleanup_signal_handler pe s = do {
     let (signum, s) = pe_arch_remove_signal_context pe (ps_current_proc s) s;
     let c = ps_current_proc s;
     let s = (if p_bits (ps_procs s c) AND PB_SYSCALL \<noteq> 0 then suspend_proc c 0 s else s);
     act \<leftarrow> action_of c signum s;
     let s = (if sa_flags act AND SA_RESTART = 0
              then upd_proc c (\<lambda>x. x\<lparr>p_bits := p_bits x OR PB_DONT_SET_RETURN_VAL\<rparr>) (set_proc_return_value c EINTR s)
              else s);
     check_pending_signals pe s }"

section \<open>Timers\<close>

definition on_alarm :: "'a proc_sys_scheme proc_env \<Rightarrow> nat \<Rightarrow> 'a proc_sys_scheme \<Rightarrow> 'a proc_sys_scheme option" where
  "on_alarm pe p s =
     (let s = upd_proc p (\<lambda>x. x\<lparr>p_bits := p_bits x AND NOT PB_ALARM_ON\<rparr>) s
      in map_option fst (send_signal pe (p_pid (ps_procs s p)) SIGALRM s))"

definition run_timer_callback :: "'a proc_sys_scheme proc_env \<Rightarrow> nat \<Rightarrow> 'a proc_sys_scheme \<Rightarrow> 'a proc_sys_scheme option" where
  "run_timer_callback pe t s =
     (let tm = p_timer (ps_procs s t)
      in case t_callback tm of
           None \<Rightarrow> None
         | Some On_alarm \<Rightarrow> on_alarm pe (t_argp tm) s
         | Some Select_timeout \<Rightarrow> Some (fst (select_timeout (t_argp tm) s)))"

partial_function (option) check_timers_loop ::
    "'a proc_sys_scheme proc_env \<Rightarrow> u64 \<Rightarrow> nat option \<Rightarrow> 'a proc_sys_scheme \<Rightarrow> 'a proc_sys_scheme option" where
  "check_timers_loop pe uptime cur s =
     (case cur of
        None \<Rightarrow> Some s
      | Some t \<Rightarrow> do {
          let nxt = queue_next t (ps_timer_nodes s);
          s \<leftarrow> (if uptime > expires_time t s then run_timer_callback pe t (fst (remove_timer t s)) else Some s);
          check_timers_loop pe uptime nxt s })"

definition check_timers :: "'a proc_sys_scheme proc_env \<Rightarrow> u64 \<Rightarrow> 'a proc_sys_scheme \<Rightarrow> 'a proc_sys_scheme option" where
  "check_timers pe uptime s = check_timers_loop pe uptime (q_head (ps_timer_list s)) s"

definition check_timers_bh :: "'a proc_sys_scheme proc_env \<Rightarrow> 'a proc_sys_scheme \<Rightarrow> 'a proc_sys_scheme option" where
  "check_timers_bh pe s =
     (let uptime = get_monotonic_uptime s in map_option (check_reschedule uptime) (check_timers pe uptime s))"

end
