(* ===== verification/Sched_Inv.thy ===== *)
theory Sched_Inv
  imports Signals
begin

text \<open>
  The invariant of the scheduler: the run queue holds exactly the processes that are ready to run and the
  blocked queue exactly the blocked ones, each once. Every operation keeps it, with two exceptions
  that are stated as such: a stopped process must not be made to exit, and a process that has exited must not be
  resumed by a signal handler. From the invariant it follows which process runs next, and that
  every ready process gets its turn.
\<close>

section \<open>The invariant\<close>

definition procs :: "'a proc_sys_scheme \<Rightarrow> nat set" where
  "procs s = set (ps_process_list s) - {0}"

definition ready_procs :: "'a proc_sys_scheme \<Rightarrow> nat set" where
  "ready_procs s = {p \<in> procs s. p \<noteq> ps_idle_proc s \<and> PROC_IS_RUNNING (ps_procs s p)}"

definition blocked_procs :: "'a proc_sys_scheme \<Rightarrow> nat set" where
  "blocked_procs s = {p \<in> procs s. state_of p s = PS_BLOCKED}"

text \<open>
  Both queues together, as lists. A process that is in neither has a detached node.
\<close>

definition queues :: "'a proc_sys_scheme \<Rightarrow> nat list \<Rightarrow> nat list \<Rightarrow> bool" where
  "queues s R B \<longleftrightarrow> queue_rep (ps_run_queue s) (ps_run_nodes s) R \<and> queue_rep (ps_blocked_queue s) (ps_run_nodes s) B \<and>
     set R \<inter> set B = {} \<and>
     (\<forall>x \<in> procs s. x \<notin> set R \<longrightarrow> x \<notin> set B \<longrightarrow>
        node_next (ps_run_nodes s x) = None \<and> node_prev (ps_run_nodes s x) = None)"

definition sched_inv :: "'a proc_sys_scheme \<Rightarrow> nat list \<Rightarrow> nat list \<Rightarrow> bool" where
  "sched_inv s R B \<longleftrightarrow>
     queues s R B \<and> set R = ready_procs s \<and> set B = blocked_procs s \<and>
     state_of (ps_idle_proc s) s = PS_RUNNING \<and> ps_idle_proc s \<in> procs s"

definition sched_ok :: "'a proc_sys_scheme \<Rightarrow> bool" where
  "sched_ok s \<longleftrightarrow> (\<exists>R B. sched_inv s R B) \<and> (ps_current_proc s = 0 \<or> ps_current_proc s \<in> procs s)"

text \<open>What the invariant depends on.\<close>

definition same_sched :: "'a proc_sys_scheme \<Rightarrow> 'a proc_sys_scheme \<Rightarrow> bool" where
  "same_sched s s' \<longleftrightarrow>
     ps_run_queue s' = ps_run_queue s \<and> ps_blocked_queue s' = ps_blocked_queue s \<and> ps_run_nodes s' = ps_run_nodes s \<and>
     ps_process_list s' = ps_process_list s \<and> ps_idle_proc s' = ps_idle_proc s \<and> ps_current_proc s' = ps_current_proc s \<and>
     (\<forall>p. state_of p s' = state_of p s)"

lemma same_sched_refl [simp]: "same_sched s s"
  by (simp add: same_sched_def)

lemma same_sched_trans [trans]: "same_sched s s' \<Longrightarrow> same_sched s' s'' \<Longrightarrow> same_sched s s''"
  by (simp add: same_sched_def)

lemma same_sched_inv: "same_sched s s' \<Longrightarrow> sched_inv s' R B = sched_inv s R B"
  by (simp add: same_sched_def sched_inv_def queues_def ready_procs_def blocked_procs_def procs_def PROC_IS_RUNNING_def
      state_of_def)

lemma same_sched_ok: "same_sched s s' \<Longrightarrow> sched_ok s' = sched_ok s"
  using same_sched_inv [of s s'] by (simp add: sched_ok_def same_sched_def procs_def)

lemma same_sched_upd_proc: "(\<And>x. p_state (g x) = p_state x) \<Longrightarrow> same_sched s (upd_proc p g s)"
  by (simp add: same_sched_def upd_proc_def state_of_def)

lemma sched_ok_upd_proc: "(\<And>x. p_state (g x) = p_state x) \<Longrightarrow> sched_ok (upd_proc p g s) = sched_ok s"
  by (rule same_sched_ok [OF same_sched_upd_proc])

lemma upd_proc_simps [simp]:
  "ps_procs (upd_proc p g s) = (ps_procs s)(p := g (ps_procs s p))"
  "ps_run_queue (upd_proc p g s) = ps_run_queue s" "ps_blocked_queue (upd_proc p g s) = ps_blocked_queue s"
  "ps_run_nodes (upd_proc p g s) = ps_run_nodes s" "ps_process_list (upd_proc p g s) = ps_process_list s"
  "ps_idle_proc (upd_proc p g s) = ps_idle_proc s" "ps_current_proc (upd_proc p g s) = ps_current_proc s"
  "ps_previous_proc (upd_proc p g s) = ps_previous_proc s" "ps_timer_list (upd_proc p g s) = ps_timer_list s"
  "ps_timer_nodes (upd_proc p g s) = ps_timer_nodes s" "ps_uptime (upd_proc p g s) = ps_uptime s"
  by (simp_all add: upd_proc_def)

lemma queue_move_simps [simp]:
  "ps_procs (run_queue_insert p s) = ps_procs s" "ps_procs (run_queue_remove p s) = ps_procs s"
  "ps_procs (blocked_queue_insert p s) = ps_procs s" "ps_procs (blocked_queue_remove p s) = ps_procs s"
  "ps_procs (run_queue_insert_after p a s) = ps_procs s"
  "ps_process_list (run_queue_insert p s) = ps_process_list s" "ps_process_list (run_queue_remove p s) = ps_process_list s"
  "ps_process_list (blocked_queue_insert p s) = ps_process_list s" "ps_process_list (blocked_queue_remove p s) = ps_process_list s"
  "ps_process_list (run_queue_insert_after p a s) = ps_process_list s"
  "ps_idle_proc (run_queue_insert p s) = ps_idle_proc s" "ps_idle_proc (run_queue_remove p s) = ps_idle_proc s"
  "ps_idle_proc (blocked_queue_insert p s) = ps_idle_proc s" "ps_idle_proc (blocked_queue_remove p s) = ps_idle_proc s"
  "ps_idle_proc (run_queue_insert_after p a s) = ps_idle_proc s"
  "ps_current_proc (run_queue_insert p s) = ps_current_proc s" "ps_current_proc (run_queue_remove p s) = ps_current_proc s"
  "ps_current_proc (blocked_queue_insert p s) = ps_current_proc s" "ps_current_proc (blocked_queue_remove p s) = ps_current_proc s"
  "ps_current_proc (run_queue_insert_after p a s) = ps_current_proc s"
  by (simp_all add: run_queue_insert_def run_queue_remove_def blocked_queue_insert_def blocked_queue_remove_def
      run_queue_insert_after_def case_prod_beta)

section \<open>The queues under the moves of a process\<close>

lemma queue_remove_member_frame:
  assumes "queue_rep q m xs" "n \<in> set xs" "queue_remove q n m = (q', m')" "x \<notin> set xs"
  shows "m' x = m x"
proof -
  obtain us vs where "xs = us @ n # vs" using assms(2) by (meson split_list)
  then show ?thesis using queue_remove_frame [of q m us n vs q' m' x] assms by simp
qed

lemma sched_inv_queues: "sched_inv s R B \<Longrightarrow> queues s R B"
  by (simp add: sched_inv_def)

lemma run_queue_insert_queues:
  assumes "queues s R B" "p \<notin> set R" "p \<notin> set B"
  shows "queues (run_queue_insert p s) (p # R) B"
proof -
  have r: "queue_rep (ps_run_queue s) (ps_run_nodes s) R" and b: "queue_rep (ps_blocked_queue s) (ps_run_nodes s) B"
    and d: "set R \<inter> set B = {}" "set B \<inter> set R = {}"
    and det: "\<And>x. x \<in> procs s \<Longrightarrow> x \<notin> set R \<Longrightarrow> x \<notin> set B \<Longrightarrow> node_next (ps_run_nodes s x) = None \<and> node_prev (ps_run_nodes s x) = None"
    using assms(1) by (auto simp: queues_def)
  obtain q m where e: "queue_insert (ps_run_queue s) p (ps_run_nodes s) = (q, m)" by fastforce
  show ?thesis using assms nq.ins_rep [OF r assms(2) e] nq.ins_frame [OF r e b assms(3) d(1)] d
      det queue_insert_frame [OF r e]
    by (auto simp: queues_def run_queue_insert_def e procs_def)
qed

lemma blocked_queue_insert_queues:
  assumes "queues s R B" "p \<notin> set R" "p \<notin> set B"
  shows "queues (blocked_queue_insert p s) R (p # B)"
proof -
  have r: "queue_rep (ps_run_queue s) (ps_run_nodes s) R" and b: "queue_rep (ps_blocked_queue s) (ps_run_nodes s) B"
    and d: "set R \<inter> set B = {}" "set B \<inter> set R = {}"
    and det: "\<And>x. x \<in> procs s \<Longrightarrow> x \<notin> set R \<Longrightarrow> x \<notin> set B \<Longrightarrow> node_next (ps_run_nodes s x) = None \<and> node_prev (ps_run_nodes s x) = None"
    using assms(1) by (auto simp: queues_def)
  obtain q m where e: "queue_insert (ps_blocked_queue s) p (ps_run_nodes s) = (q, m)" by fastforce
  show ?thesis using assms nq.ins_rep [OF b assms(3) e] nq.ins_frame [OF b e r assms(2) d(2)] d
      det queue_insert_frame [OF b e]
    by (auto simp: queues_def blocked_queue_insert_def e procs_def)
qed

lemma run_queue_remove_queues:
  assumes "queues s R B" "p \<in> set R"
  shows "queues (run_queue_remove p s) (remove1 p R) B"
proof -
  have r: "queue_rep (ps_run_queue s) (ps_run_nodes s) R" and b: "queue_rep (ps_blocked_queue s) (ps_run_nodes s) B"
    and d: "set R \<inter> set B = {}" "set B \<inter> set R = {}"
    and det: "\<And>x. x \<in> procs s \<Longrightarrow> x \<notin> set R \<Longrightarrow> x \<notin> set B \<Longrightarrow> node_next (ps_run_nodes s x) = None \<and> node_prev (ps_run_nodes s x) = None"
    using assms(1) by (auto simp: queues_def)
  obtain q m where e: "queue_remove (ps_run_queue s) p (ps_run_nodes s) = (q, m)" by fastforce
  have "set (remove1 p R) \<inter> set B = {}" using assms(1) set_remove1_subset [of p R] by (auto simp: queues_def)
  moreover have "node_next (m x) = None \<and> node_prev (m x) = None" if "x \<in> procs s" "x \<notin> set (remove1 p R)" "x \<notin> set B" for x
    using that det [of x] queue_remove_member_frame [OF r assms(2) e, of x] queue_remove_detaches [OF e]
    by (cases "x = p") auto
  ultimately show ?thesis using nq.rem_member [OF r assms(2) e] nq.rem_member_frame [OF r assms(2) e b d(1)]
    by (simp add: queues_def run_queue_remove_def e procs_def)
qed

lemma blocked_queue_remove_queues:
  assumes "queues s R B" "p \<in> set B"
  shows "queues (blocked_queue_remove p s) R (remove1 p B)"
proof -
  have r: "queue_rep (ps_run_queue s) (ps_run_nodes s) R" and b: "queue_rep (ps_blocked_queue s) (ps_run_nodes s) B"
    and d: "set R \<inter> set B = {}" "set B \<inter> set R = {}"
    and det: "\<And>x. x \<in> procs s \<Longrightarrow> x \<notin> set R \<Longrightarrow> x \<notin> set B \<Longrightarrow> node_next (ps_run_nodes s x) = None \<and> node_prev (ps_run_nodes s x) = None"
    using assms(1) by (auto simp: queues_def)
  obtain q m where e: "queue_remove (ps_blocked_queue s) p (ps_run_nodes s) = (q, m)" by fastforce
  have "set (remove1 p B) \<inter> set R = {}" using assms(1) set_remove1_subset [of p B] by (auto simp: queues_def)
  moreover have "node_next (m x) = None \<and> node_prev (m x) = None" if "x \<in> procs s" "x \<notin> set R" "x \<notin> set (remove1 p B)" for x
    using that det [of x] queue_remove_member_frame [OF b assms(2) e, of x] queue_remove_detaches [OF e]
    by (cases "x = p") auto
  ultimately show ?thesis using nq.rem_member [OF b assms(2) e] nq.rem_member_frame [OF b assms(2) e r d(2)]
    by (simp add: queues_def blocked_queue_remove_def e Int_commute procs_def)
qed

lemma queues_distinct: "queues s R B \<Longrightarrow> distinct R" "queues s R B \<Longrightarrow> distinct B"
  by (auto simp: queues_def dest: nq.rep_dist)

lemma sched_invI:
  assumes "queues s R B" "set R = ready_procs s" "set B = blocked_procs s" "state_of (ps_idle_proc s) s = PS_RUNNING"
    "ps_idle_proc s \<in> procs s"
  shows "sched_inv s R B"
  using assms by (simp add: sched_inv_def)

text \<open>
  A process \<open>p\<close> gets the state \<open>st\<close>, and the queues change accordingly: the invariant holds again.
\<close>

definition ready_state :: "proc_state \<Rightarrow> bool" where
  "ready_state st \<longleftrightarrow> st = PS_RUNNING \<or> st = PS_RESUMING"

lemma sched_inv_move:
  assumes inv: "sched_inv s R B" and p: "p \<in> procs s" "p \<noteq> ps_idle_proc s"
    and q: "queues s' R' B'"
    and R': "set R' = (if ready_state st then insert p (set R) else set R - {p})"
    and B': "set B' = (if st = PS_BLOCKED then insert p (set B) else set B - {p})"
    and s': "ps_process_list s' = ps_process_list s" "ps_idle_proc s' = ps_idle_proc s"
      "state_of p s' = st" "\<And>x. x \<noteq> p \<Longrightarrow> state_of x s' = state_of x s"
  shows "sched_inv s' R' B'"
proof (rule sched_invI [OF q])
  have R: "set R = ready_procs s" and B: "set B = blocked_procs s" and i: "state_of (ps_idle_proc s) s = PS_RUNNING"
    using inv by (simp_all add: sched_inv_def)
  have st: "state_of x s' = (if x = p then st else state_of x s)" for x using s'(3,4) by simp
  show "set R' = ready_procs s'"
    unfolding R' R using p
    by (auto simp: ready_procs_def procs_def PROC_IS_RUNNING_def state_of_def [symmetric] st s'(1,2) ready_state_def)
  show "set B' = blocked_procs s'"
    unfolding B' B using p by (auto simp: blocked_procs_def procs_def st s'(1))
  show "state_of (ps_idle_proc s') s' = PS_RUNNING" using i p(2) by (simp add: st s'(2))
  show "ps_idle_proc s' \<in> procs s'" using inv s'(1,2) by (simp add: sched_inv_def procs_def)
qed

lemma sched_inv_mem:
  assumes "sched_inv s R B" "p \<in> procs s" "p \<noteq> ps_idle_proc s"
  shows "p \<in> set R \<longleftrightarrow> ready_state (state_of p s)" "p \<in> set B \<longleftrightarrow> state_of p s = PS_BLOCKED"
  using assms by (auto simp: sched_inv_def ready_procs_def blocked_procs_def PROC_IS_RUNNING_def ready_state_def state_of_def)

section \<open>Resuming, suspending, stopping\<close>

lemma state_upd [simp]:
  "state_of q (upd_proc p g s) = (if q = p then p_state (g (ps_procs s p)) else state_of q s)"
  by (simp add: state_of_def)

lemma state_moves [simp]:
  "state_of q (run_queue_insert p s) = state_of q s" "state_of q (run_queue_remove p s) = state_of q s"
  "state_of q (blocked_queue_insert p s) = state_of q s" "state_of q (blocked_queue_remove p s) = state_of q s"
  "state_of q (run_queue_insert_after p a s) = state_of q s" "state_of q (s\<lparr>ps_need_reschedule := n\<rparr>) = state_of q s"
  by (simp_all add: state_of_def)

lemma queues_upd [simp]:
  "queues (upd_proc p g s) R B = queues s R B" "queues (s\<lparr>ps_need_reschedule := n\<rparr>) R B = queues s R B"
  by (simp_all add: queues_def procs_def)

lemma resume_proc_inv:
  assumes inv: "sched_inv s R B" and p: "p \<in> procs s" "p \<noteq> ps_idle_proc s"
  shows "sched_inv (resume_proc p s)
    (if state_of p s \<in> {PS_BLOCKED, PS_STOPPED} then p # R else R) (if state_of p s = PS_BLOCKED then remove1 p B else B)"
proof -
  note q = sched_inv_queues [OF inv] and m = sched_inv_mem [OF inv p]
  consider (none) "state_of p s \<notin> {PS_BLOCKED, PS_STOPPED}" | (b) "state_of p s = PS_BLOCKED" | (st) "state_of p s = PS_STOPPED"
    by blast
  then show ?thesis
  proof cases
    case none
    then have "resume_proc p s = s" by (cases "state_of p s") (simp_all add: resume_proc_def)
    then show ?thesis using inv none by simp
  next
    case b
    then have mem: "p \<notin> set R" "p \<in> set B" using m by (simp_all add: ready_state_def)
    have "p \<notin> set (remove1 p B)" using queues_distinct(2) [OF q] by simp
    then have "queues (run_queue_insert p (blocked_queue_remove p s)) (p # R) (remove1 p B)"
      using run_queue_insert_queues [OF blocked_queue_remove_queues [OF q mem(2)] mem(1)] by simp
    then have "sched_inv (resume_proc p s) (p # R) (remove1 p B)"
      using queues_distinct(2) [OF q] b
      by (intro sched_inv_move [OF inv p, where st = PS_RESUMING])
        (simp_all add: resume_proc_def ready_state_def set_remove1_eq Let_def)
    then show ?thesis using b by simp
  next
    case st
    then have mem: "p \<notin> set R" "p \<notin> set B" using m by (simp_all add: ready_state_def)
    then have "queues (run_queue_insert p s) (p # R) B" by (rule run_queue_insert_queues [OF q])
    then have "sched_inv (resume_proc p s) (p # R) B"
      using mem st
      by (intro sched_inv_move [OF inv p, where st = PS_RESUMING])
        (simp_all add: resume_proc_def ready_state_def Let_def)
    then show ?thesis using st by simp
  qed
qed

lemma suspend_proc_inv:
  assumes inv: "sched_inv s R B" and p: "p \<in> procs s" "p \<noteq> ps_idle_proc s"
  shows "sched_inv (suspend_proc p flags s)
    (if state_of p s = PS_RUNNING then remove1 p R else R) (if state_of p s = PS_RUNNING then p # B else B)"
proof (cases "state_of p s = PS_RUNNING")
  case True
  note q = sched_inv_queues [OF inv] and m = sched_inv_mem [OF inv p]
  have mem: "p \<in> set R" "p \<notin> set B" using m True by (simp_all add: ready_state_def)
  have "p \<notin> set (remove1 p R)" using queues_distinct(1) [OF q] by simp
  then have "queues (blocked_queue_insert p (run_queue_remove p s)) (remove1 p R) (p # B)"
    using blocked_queue_insert_queues [OF run_queue_remove_queues [OF q mem(1)]] mem(2) by simp
  then have "sched_inv (suspend_proc p flags s) (remove1 p R) (p # B)"
    using queues_distinct(1) [OF q] True
    by (intro sched_inv_move [OF inv p, where st = PS_BLOCKED])
      (simp_all add: suspend_proc_def ready_state_def set_remove1_eq Let_def)
  then show ?thesis using True by simp
qed (use inv in \<open>simp add: suspend_proc_def\<close>)

lemma stop_proc_inv:
  assumes inv: "sched_inv s R B" and p: "p \<in> procs s" "p \<noteq> ps_idle_proc s"
  shows "sched_inv (stop_proc p s) (remove1 p R) (remove1 p B)"
proof -
  note q = sched_inv_queues [OF inv] and m = sched_inv_mem [OF inv p]
  note d = queues_distinct [OF q]
  consider (none) "state_of p s \<in> {PS_EXITED, PS_STOPPED}" | (r) "ready_state (state_of p s)" | (b) "state_of p s = PS_BLOCKED"
    by (cases "state_of p s") (auto simp: ready_state_def)
  then show ?thesis
  proof cases
    case none
    then have "p \<notin> set R" "p \<notin> set B" using m by (auto simp: ready_state_def)
    then show ?thesis using inv none by (auto simp: stop_proc_def remove1_idem)
  next
    case r
    then have mem: "p \<in> set R" "p \<notin> set B" using m by (auto simp: ready_state_def)
    then show ?thesis
      using run_queue_remove_queues [OF q mem(1)] r d
      by (intro sched_inv_move [OF inv p, where st = PS_STOPPED])
        (auto simp: stop_proc_def ready_state_def set_state_def Let_def remove1_idem)
  next
    case b
    then have mem: "p \<notin> set R" "p \<in> set B" using m by (auto simp: ready_state_def)
    then show ?thesis
      using blocked_queue_remove_queues [OF q mem(2)] b d
      by (intro sched_inv_move [OF inv p, where st = PS_STOPPED])
        (auto simp: stop_proc_def ready_state_def set_state_def Let_def remove1_idem)
  qed
qed

lemma set_running_inv:
  assumes "sched_inv s R B" "p \<in> procs s" "p \<noteq> ps_idle_proc s" "state_of p s = PS_RESUMING"
  shows "sched_inv (set_state p PS_RUNNING s) R B"
proof -
  have "p \<in> set R" "p \<notin> set B" using sched_inv_mem [OF assms(1-3)] assms(4) by (simp_all add: ready_state_def)
  then show ?thesis
    using sched_inv_queues [OF assms(1)]
    by (intro sched_inv_move [OF assms(1-3), where st = PS_RUNNING]) (auto simp: set_state_def ready_state_def)
qed

lemma set_state_simps [simp]:
  "procs (set_state p st s) = procs s" "ps_idle_proc (set_state p st s) = ps_idle_proc s"
  "state_of q (set_state p st s) = (if q = p then st else state_of q s)"
  "ps_current_proc (set_state p st s) = ps_current_proc s"
  by (auto simp: set_state_def procs_def)

lemma procs_resume [simp]: "procs (resume_proc p s) = procs s" "ps_idle_proc (resume_proc p s) = ps_idle_proc s"
  "ps_current_proc (resume_proc p s) = ps_current_proc s"
  by (simp_all add: resume_proc_def procs_def Let_def)

lemma state_resume:
  "state_of q (resume_proc p s) = (if q = p \<and> state_of p s \<in> {PS_BLOCKED, PS_STOPPED} then PS_RESUMING else state_of q s)"
  by (cases "state_of p s") (auto simp: resume_proc_def Let_def)

lemma cancel_syscall_inv:
  assumes inv: "sched_inv s R B" and p: "p \<in> procs s" "p \<noteq> ps_idle_proc s"
  shows "\<exists>R' B'. sched_inv (cancel_syscall p s) R' B'"
proof -
  define s1 where "s1 = (if state_of p s = PS_BLOCKED then resume_proc p s else s)"
  define s2 where "s2 = (if state_of p s1 = PS_RESUMING then set_state p PS_RUNNING s1 else s1)"
  obtain R1 B1 where 1: "sched_inv s1 R1 B1" using resume_proc_inv [OF inv p] inv unfolding s1_def by metis
  have p1: "p \<in> procs s1" "p \<noteq> ps_idle_proc s1" using p by (simp_all add: s1_def)
  have "sched_inv s2 R1 B1" using set_running_inv [OF 1 p1] 1 by (simp add: s2_def)
  moreover have "same_sched s2 (cancel_syscall p s)"
    unfolding cancel_syscall_def Let_def s1_def [symmetric] s2_def [symmetric] set_proc_return_value_def
    by (simp add: same_sched_def state_of_def)
  ultimately show ?thesis using same_sched_inv by blast
qed

lemma reschedule_proc_to_now_inv:
  assumes inv: "sched_inv s R B" and p: "p \<in> procs s" "p \<noteq> ps_idle_proc s"
    and c: "ps_current_proc s \<in> procs s" "ps_current_proc s \<noteq> ps_idle_proc s"
  shows "\<exists>s' R'. reschedule_proc_to_now p s = Some s' \<and> sched_inv s' R' B \<and> set R' = set R"
proof (cases "p = ps_current_proc s \<or> \<not> PROC_IS_RUNNING (ps_procs s p) \<or> \<not> PROC_IS_RUNNING (ps_procs s (ps_current_proc s))")
  case True
  have "ps_current_proc s \<noteq> 0" using c(1) by (simp add: procs_def)
  then show ?thesis using True inv by (auto simp: reschedule_proc_to_now_def)
next
  case False
  let ?c = "ps_current_proc s"
  have c0: "?c \<noteq> 0" using c(1) by (simp add: procs_def)
  note q = sched_inv_queues [OF inv]
  have rep: "queue_rep (ps_run_queue s) (ps_run_nodes s) R" "queue_rep (ps_blocked_queue s) (ps_run_nodes s) B"
    and d: "set R \<inter> set B = {}" using q by (simp_all add: queues_def)
  have mem: "p \<in> set R" "?c \<in> set R"
    using sched_inv_mem(1) [OF inv p] sched_inv_mem(1) [OF inv c] False
    by (auto simp: PROC_IS_RUNNING_def ready_state_def state_of_def)
  obtain q1 m1 where e1: "queue_remove (ps_run_queue s) p (ps_run_nodes s) = (q1, m1)" by fastforce
  obtain q2 m2 where e2: "queue_insert_after q1 p (Some ?c) m1 = (q2, m2)" by fastforce
  obtain ys zs where yz: "remove1 p R = ys @ ?c # zs" "queue_rep q2 m2 (ys @ ?c # p # zs)"
    using nq.move_after [OF rep(1) mem(1,2) _ e1 e2] False by auto
  have r1: "queue_rep q1 m1 (ys @ ?c # zs)" using nq.rem_member [OF rep(1) mem(1) e1] yz(1) by simp
  have b1: "queue_rep (ps_blocked_queue s) m1 B" by (rule nq.rem_member_frame [OF rep(1) mem(1) e1 rep(2) d])
  have sub: "set (ys @ ?c # zs) \<subseteq> set R" using set_remove1_subset [of p R] yz(1) by simp
  have b2: "queue_rep (ps_blocked_queue s) m2 B"
    by (rule nq.ins_after_frame [OF r1 e2 b1]) (use d mem(1) sub in blast)+
  have s': "reschedule_proc_to_now p s = Some (s\<lparr>ps_run_queue := q2, ps_run_nodes := m2\<rparr>)"
    using False c0 e1 e2 by (auto simp: reschedule_proc_to_now_def run_queue_remove_def run_queue_insert_after_def)
  have "distinct R" using queues_distinct(1) [OF q] .
  then have "set R = insert p (set (remove1 p R))" using mem(1) by (simp add: insert_absorb)
  then have set: "set (ys @ ?c # p # zs) = set R" unfolding yz(1) by auto
  have det: "node_next (m2 x) = None \<and> node_prev (m2 x) = None" if "x \<in> procs s" "x \<notin> set R" "x \<notin> set B" for x
  proof -
    have "m1 x = ps_run_nodes s x" by (rule queue_remove_member_frame [OF rep(1) mem(1) e1 that(2)])
    moreover have "m2 x = m1 x" by (rule queue_insert_after_frame [OF r1 e2]) (use that(2) mem(1) sub in blast)
    ultimately show ?thesis using q that by (simp add: queues_def)
  qed
  have "queues (s\<lparr>ps_run_queue := q2, ps_run_nodes := m2\<rparr>) (ys @ ?c # p # zs) B"
    using yz(2) b2 d det unfolding queues_def set by (simp add: procs_def)
  then have "sched_inv (s\<lparr>ps_run_queue := q2, ps_run_nodes := m2\<rparr>) (ys @ ?c # p # zs) B"
    using inv set by (simp add: sched_inv_def ready_procs_def blocked_procs_def procs_def state_of_def)
  then show ?thesis using s' set by blast
qed

section \<open>Exiting\<close>

text \<open>What the scheduler relies on: the functions of the other parts keep the invariant.\<close>

definition env_keeps_sched :: "'a proc_sys_scheme proc_env \<Rightarrow> bool" where
  "env_keeps_sched pe \<longleftrightarrow> (\<forall>s x k. sched_ok s \<longrightarrow>
     sched_ok (fst (ve_close pe k x s)) \<and> sched_ok (fst (ve_release pe k x s)) \<and> sched_ok (pe_memory_map_free pe x s) \<and>
     sched_ok (pe_arch_release_task_info pe x s))"

lemma same_sched_fs [simp]:
  "same_sched s (upd_file f g s)" "same_sched s (upd_vnode f h s)" "same_sched s (upd_fd_table f k s)"
  "same_sched s (kmfree_log f s)"
  by (simp_all add: same_sched_def upd_file_def upd_vnode_def upd_fd_table_def kmfree_log_def state_of_def)

lemma sched_ok_fs [simp]:
  "sched_ok (upd_file f g s) = sched_ok s" "sched_ok (upd_vnode f h s) = sched_ok s"
  "sched_ok (upd_fd_table f k s) = sched_ok s" "sched_ok (kmfree_log f s) = sched_ok s"
  by (rule same_sched_ok; simp)+

lemma vfs_close_sched:
  assumes "env_keeps_sched pe" "sched_ok s"
  shows "sched_ok (fst (vfs_close (vfs_env.truncate pe) f s))"
proof -
  have rel: "sched_ok t \<Longrightarrow> sched_ok (fst (vfs_release_vnode (vfs_env.truncate pe) v t))" for v t
    using assms(1) by (simp add: vfs_release_vnode_def Let_def env_keeps_sched_def vfs_env.truncate_def)
  have free: "sched_ok t \<Longrightarrow> sched_ok (free_fileptr (vfs_env.truncate pe) f t)" for t
    using rel by (simp add: free_fileptr_def Let_def)
  show ?thesis
    using assms free by (simp add: vfs_close_def case_prod_beta env_keeps_sched_def vfs_env.truncate_def)
qed

lemma release_fds_sched:
  "env_keeps_sched pe \<Longrightarrow> release_fds (vfs_env.truncate pe) t is s = Some s' \<Longrightarrow> sched_ok s \<Longrightarrow> sched_ok s'"
proof (induction "is" arbitrary: s)
  case (Cons i "is")
  from Cons.prems(2) obtain f where f: "fd_at t (int i) s = Some f" by (auto split: bind_splits)
  show ?case
  proof (cases f)
    case None
    then show ?thesis using Cons f by simp
  next
    case (Some x)
    then obtain s2 where s2: "put_fd t (int i) None (fst (vfs_close (vfs_env.truncate pe) x s)) = Some s2"
        "release_fds (vfs_env.truncate pe) t is s2 = Some s'"
      using Cons.prems(2) f by (auto split: bind_splits)
    have "sched_ok s2" using s2(1) vfs_close_sched [OF Cons.prems(1,3)] by (auto simp: put_fd_def split: if_splits)
    then show ?thesis using Cons.IH [OF Cons.prems(1) s2(2)] by simp
  qed
qed simp

lemma free_fd_table_sched:
  assumes "env_keeps_sched pe" "free_fd_table (vfs_env.truncate pe) t s = Some s'" "sched_ok s"
  shows "sched_ok s'"
  using assms release_fds_sched [OF assms(1)]
  by (auto simp: free_fd_table_def release_fd_table_def Let_def split: if_splits)

lemma remove_timer_sched [simp]: "same_sched s (fst (remove_timer p s))"
  by (simp add: remove_timer_def same_sched_def set_expires_time_def timer_list_remove_def case_prod_beta state_of_def)

lemma reparent_sched: "same_sched s (fst (reparent pid qs s))"
proof (induction pid qs s rule: reparent.induct)
  case (2 pid q qs s)
  show ?case
  proof (cases "q \<noteq> 0 \<and> p_parent (ps_procs s q) = pid")
    case True
    have "same_sched s (upd_proc q (\<lambda>x. x\<lparr>p_parent := INIT_PID\<rparr>) s)" by (rule same_sched_upd_proc) simp
    then show ?thesis using True 2(1) [OF True] by (auto simp: case_prod_beta intro: same_sched_trans)
  next
    case False
    then show ?thesis using 2(2) [OF False] by (simp only: reparent.simps if_False)
  qed
qed simp

lemma close_proc_sched:
  assumes env: "env_keeps_sched pe" and c: "close_proc pe p s = Some (s', n)" and ok: "sched_ok s"
  shows "sched_ok s'"
proof -
  define s1 where "s1 = (if p = ps_previous_proc s then s\<lparr>ps_previous_proc := 0\<rparr> else s)"
  define s2 where "s2 = fst (remove_timer p s1)"
  have "same_sched s s1" by (simp add: s1_def same_sched_def state_of_def)
  then have s2: "sched_ok s2" using ok same_sched_ok remove_timer_sched [of s1 p] unfolding s2_def by blast
  define X where "X = (if p_fd_table (ps_procs s2 p) \<noteq> 0
      then free_fd_table (vfs_env.truncate pe) (p_fd_table (ps_procs s2 p)) s2 else Some s2)"
  define rest where "rest = (\<lambda>s3. let
      s4 = (if p_map (ps_procs s3 p) \<noteq> 0
        then upd_proc p (\<lambda>x. x\<lparr>p_map := 0\<rparr>) (pe_memory_map_free pe (p_map (ps_procs s3 p)) s3) else s3);
      (s5, orphans) = reparent (p_pid (ps_procs s4 p)) (ps_process_list s4) s4;
      s6 = pe_arch_release_task_info pe p s5 in Some (s6, orphans))"
  have cl: "close_proc pe p s = X \<bind> rest"
    unfolding close_proc_def X_def rest_def s2_def s1_def Let_def ..
  then obtain s3 where s3: "X = Some s3" "rest s3 = Some (s', n)" using c by (cases X) auto
  have ok3: "sched_ok s3" using s3(1) s2 free_fd_table_sched [OF env] by (auto simp: X_def split: if_splits)
  define s4 where "s4 = (if p_map (ps_procs s3 p) \<noteq> 0
      then upd_proc p (\<lambda>x. x\<lparr>p_map := 0\<rparr>) (pe_memory_map_free pe (p_map (ps_procs s3 p)) s3) else s3)"
  have "sched_ok (pe_memory_map_free pe m s3)" for m using env ok3 by (simp add: env_keeps_sched_def)
  then have ok4: "sched_ok s4"
    using ok3 by (simp add: s4_def sched_ok_upd_proc)
  define s5 where "s5 = fst (reparent (p_pid (ps_procs s4 p)) (ps_process_list s4) s4)"
  have ok5: "sched_ok s5" using ok4 by (simp add: s5_def same_sched_ok [OF reparent_sched])
  have "s' = pe_arch_release_task_info pe p s5"
    using s3(2) unfolding rest_def Let_def s4_def [symmetric] by (simp add: case_prod_beta s5_def)
  then show ?thesis using env ok5 by (simp add: env_keeps_sched_def)
qed

lemma get_proc_mem: "get_proc pid s \<noteq> 0 \<Longrightarrow> get_proc pid s \<in> procs s"
proof -
  assume "get_proc pid s \<noteq> 0"
  then have "find (\<lambda>p. p \<noteq> 0 \<and> p_pid (ps_procs s p) = pid) (ps_process_list s) = Some (get_proc pid s)"
    by (simp add: get_proc_def split: option.splits)
  then show ?thesis using \<open>get_proc pid s \<noteq> 0\<close> by (auto simp: procs_def find_Some_iff)
qed

lemma resume_proc_ok: "sched_ok s \<Longrightarrow> p \<in> procs s \<Longrightarrow> p \<noteq> ps_idle_proc s \<Longrightarrow> sched_ok (resume_proc p s)"
  unfolding sched_ok_def using resume_proc_inv by (simp only: procs_resume) blast

lemma resume_waiting_parent_ok:
  assumes "sched_ok s" "resume_waiting_parent p s = Some s'"
  shows "sched_ok s'"
proof -
  define q where "q = get_proc (p_parent (ps_procs s p)) s"
  have "state_of (ps_idle_proc s) s = PS_RUNNING" using assms(1) by (auto simp: sched_ok_def sched_inv_def)
  then have "state_of q s = PS_BLOCKED \<Longrightarrow> q \<noteq> ps_idle_proc s" by auto
  moreover have "q \<noteq> 0 \<Longrightarrow> q \<in> procs s" unfolding q_def by (rule get_proc_mem)
  ultimately show ?thesis
    using assms resume_proc_ok [OF assms(1), of q]
    by (auto simp: resume_waiting_parent_def Let_def q_def [symmetric] split: if_splits)
qed

text \<open>The state after the process has left its queue.\<close>

lemma exit_leaves_queue:
  assumes inv: "sched_inv s R B" and p: "p \<in> procs s" "p \<noteq> ps_idle_proc s" "state_of p s \<noteq> PS_STOPPED" "state_of p s \<noteq> PS_EXITED"
  defines "s1 \<equiv> (if state_of p s = PS_BLOCKED then blocked_queue_remove p s else run_queue_remove p s)"
  shows "sched_inv (upd_proc p (\<lambda>x. x\<lparr>p_state := PS_EXITED, p_exitcode := status\<rparr>) s1) (remove1 p R) (remove1 p B)"
proof -
  note q = sched_inv_queues [OF inv] and m = sched_inv_mem [OF inv p(1,2)]
  note d = queues_distinct [OF q]
  show ?thesis
  proof (cases "state_of p s = PS_BLOCKED")
    case True
    then have mem: "p \<notin> set R" "p \<in> set B" using m by (auto simp: ready_state_def)
    then show ?thesis
      using blocked_queue_remove_queues [OF q mem(2)] True d
      by (intro sched_inv_move [OF inv p(1,2), where st = PS_EXITED]) (auto simp: s1_def ready_state_def remove1_idem)
  next
    case False
    then have mem: "p \<in> set R" "p \<notin> set B" using m p(3,4) by (cases "state_of p s"; auto simp: ready_state_def)+
    then show ?thesis
      using run_queue_remove_queues [OF q mem(1)] False d
      by (intro sched_inv_move [OF inv p(1,2), where st = PS_EXITED]) (auto simp: s1_def ready_state_def remove1_idem)
  qed
qed

lemma exit_proc_ok:
  assumes env: "env_keeps_sched pe" and ok: "sched_ok s" and p: "p \<in> procs s" "p \<noteq> ps_idle_proc s" "state_of p s \<noteq> PS_STOPPED"
    and ex: "exit_proc pe p status s = Some s'"
  shows "sched_ok s'"
proof (cases "state_of p s = PS_EXITED")
  case True
  then show ?thesis using ok ex by (simp add: exit_proc_def)
next
  case False
  define s1 where "s1 = (if state_of p s = PS_BLOCKED then blocked_queue_remove p s else run_queue_remove p s)"
  define s2 where "s2 = upd_proc p (\<lambda>x. x\<lparr>p_state := PS_EXITED, p_exitcode := status\<rparr>) s1"
  have "ps_current_proc s2 = ps_current_proc s" "procs s2 = procs s" by (simp_all add: s2_def s1_def procs_def)
  then have ok2: "sched_ok s2" using exit_leaves_queue [OF _ p False] ok unfolding sched_ok_def s2_def s1_def by metis
  obtain s3 n s4 where s3: "close_proc pe p s2 = Some (s3, n)"
      "(if n \<noteq> 0 then resume_waiting_parent (get_proc 1 s3) s3 else Some s3) = Some s4"
      "resume_waiting_parent p (s4\<lparr>ps_need_reschedule := 1\<rparr>) = Some s'"
    using ex False unfolding exit_proc_def Let_def s1_def [symmetric] s2_def [symmetric]
    by (auto simp: bind_eq_Some_conv split: if_splits)
  have "sched_ok s3" by (rule close_proc_sched [OF env s3(1) ok2])
  then have "sched_ok s4" using s3(2) resume_waiting_parent_ok by (auto split: if_splits)
  moreover have "same_sched s4 (s4\<lparr>ps_need_reschedule := 1\<rparr>)" by (simp add: same_sched_def state_of_def)
  ultimately show ?thesis using resume_waiting_parent_ok [OF _ s3(3)] same_sched_ok by blast
qed

section \<open>Which process runs next\<close>

lemma sched_inv_idle:
  assumes "sched_inv s R B"
  shows "ps_idle_proc s \<notin> set R" "ps_idle_proc s \<notin> set B" "node_next (ps_run_nodes s (ps_idle_proc s)) = None"
    "node_prev (ps_run_nodes s (ps_idle_proc s)) = None" "0 \<notin> set R"
proof -
  show n: "ps_idle_proc s \<notin> set R" "ps_idle_proc s \<notin> set B" "0 \<notin> set R"
    using assms by (auto simp: sched_inv_def ready_procs_def blocked_procs_def procs_def)
  then show "node_next (ps_run_nodes s (ps_idle_proc s)) = None" "node_prev (ps_run_nodes s (ps_idle_proc s)) = None"
    using assms by (auto simp: sched_inv_def queues_def)
qed

lemma schedule_next_member:
  assumes inv: "sched_inv s R B" and i: "i < length R" "ps_current_proc s = R ! i"
  shows "schedule_next s = R ! (Suc i mod length R)"
proof -
  let ?c = "ps_current_proc s"
  have c: "?c \<in> set R" using i by simp
  then have run: "PROC_IS_RUNNING (ps_procs s ?c)" "?c \<noteq> 0"
    using inv sched_inv_idle(5) [OF inv] by (auto simp: sched_inv_def ready_procs_def)
  have rep: "queue_rep (ps_run_queue s) (ps_run_nodes s) R" using inv by (simp add: sched_inv_def queues_def)
  have "R = take i R @ ?c # drop (Suc i) R" using i by (simp add: id_take_nth_drop)
  then have nx: "queue_next ?c (ps_run_nodes s) = (case drop (Suc i) R of [] \<Rightarrow> None | y # _ \<Rightarrow> Some y)"
    using queue_rep_next [of "ps_run_queue s" "ps_run_nodes s" "take i R" ?c "drop (Suc i) R"] rep
    by (simp add: queue_next_def)
  show ?thesis
  proof (cases "Suc i = length R")
    case True
    moreover have "q_head (ps_run_queue s) = Some (R ! 0)" using queue_rep_head [OF rep] i(1) by (cases R) auto
    ultimately show ?thesis using nx run by (simp add: schedule_next_def Let_def)
  next
    case False
    then have "drop (Suc i) R = R ! Suc i # drop (Suc (Suc i)) R" using i(1) by (simp add: Cons_nth_drop_Suc)
    then show ?thesis using nx run False i(1) by (simp add: schedule_next_def Let_def)
  qed
qed

lemma schedule_next_other:
  assumes inv: "sched_inv s R B" and c: "ps_current_proc s = 0 \<or> ps_current_proc s \<in> procs s" "ps_current_proc s \<notin> set R"
  shows "schedule_next s = (if R = [] then ps_idle_proc s else R ! 0)"
proof -
  have rep: "queue_rep (ps_run_queue s) (ps_run_nodes s) R" using inv by (simp add: sched_inv_def queues_def)
  have "\<not> PROC_IS_RUNNING (ps_procs s (ps_current_proc s)) \<or> queue_next (ps_current_proc s) (ps_run_nodes s) = None \<or> ps_current_proc s = 0"
    using c inv sched_inv_idle(3) [OF inv] by (auto simp: sched_inv_def ready_procs_def queue_next_def)
  then show ?thesis using queue_rep_head [OF rep] by (auto simp: schedule_next_def Let_def split: list.splits)
qed

lemma schedule_next_procs:
  assumes "sched_inv s R B" "ps_current_proc s = 0 \<or> ps_current_proc s \<in> procs s"
  shows "schedule_next s \<in> insert (ps_idle_proc s) (set R)" "schedule_next s \<in> procs s"
proof -
  show m: "schedule_next s \<in> insert (ps_idle_proc s) (set R)"
  proof (cases "ps_current_proc s \<in> set R")
    case True
    then obtain i where i: "i < length R" "ps_current_proc s = R ! i" by (metis in_set_conv_nth)
    then have "R ! (Suc i mod length R) \<in> set R" by (intro nth_mem mod_less_divisor) linarith
    then show ?thesis using schedule_next_member [OF assms(1) i] by simp
  next
    case False
    then show ?thesis using schedule_next_other [OF assms False] by auto
  qed
  then show "schedule_next s \<in> procs s" using assms(1) by (auto simp: sched_inv_def ready_procs_def)
qed

text \<open>What is relied on of the context switch: it does not touch the data of the scheduler.\<close>

definition switch_frame :: "'a proc_sys_scheme proc_env \<Rightarrow> bool" where
  "switch_frame pe \<longleftrightarrow> (\<forall>a b s. same_sched s (pe_arch_extended_switch_context pe a b s))"

lemma schedule_running:
  assumes sw: "switch_frame pe" and inv: "sched_inv s R B" and c: "ps_current_proc s = 0 \<or> ps_current_proc s \<in> procs s"
    and run: "\<forall>p \<in> set R. state_of p s = PS_RUNNING"
  obtains s' where "schedule pe s = Some s'" "ps_current_proc s' = schedule_next s" "sched_inv s' R B"
    "\<forall>p \<in> set R. state_of p s' = PS_RUNNING" "procs s' = procs s"
proof -
  define n where "n = schedule_next s"
  define s1 where "s1 = s\<lparr>ps_need_reschedule := 0, ps_current_proc := n, ps_next_reschedule_time := get_monotonic_uptime s + reschedule_period\<rparr>"
  define s2 where "s2 = (if n \<noteq> ps_previous_proc s1 then pe_arch_extended_switch_context pe (ps_previous_proc s1) n s1 else s1)"
  have "schedule_next (s\<lparr>ps_need_reschedule := 0\<rparr>) = n" by (simp add: n_def schedule_next_def Let_def cong: if_cong option.case_cong)
  then have sch: "schedule pe s =
      (if state_of (ps_current_proc s2) s2 = PS_RESUMING then restart_current_syscall pe (set_state (ps_current_proc s2) PS_RUNNING s2) else Some s2)"
    by (simp add: schedule_def Let_def s2_def s1_def get_monotonic_uptime_def)
  have 12: "same_sched s1 s2" using sw by (simp add: s2_def switch_frame_def)
  have st: "state_of p s2 = state_of p s" for p using 12 by (simp add: same_sched_def s1_def state_of_def)
  have cur: "ps_current_proc s2 = n" using 12 by (simp add: same_sched_def s1_def)
  have "sched_inv s1 R B = sched_inv s R B"
    by (simp add: s1_def sched_inv_def queues_def ready_procs_def blocked_procs_def procs_def state_of_def)
  then have "sched_inv s2 R B" using inv using same_sched_inv [OF 12] by simp
  moreover have "state_of n s \<noteq> PS_RESUMING"
    using schedule_next_procs(1) [OF inv c] run inv by (auto simp: n_def sched_inv_def)
  moreover have "procs s2 = procs s" using 12 by (simp add: same_sched_def s1_def procs_def)
  ultimately show thesis using that [of s2] sch cur st run by (simp add: n_def)
qed

fun schedule_times :: "'a proc_sys_scheme proc_env \<Rightarrow> nat \<Rightarrow> 'a proc_sys_scheme \<Rightarrow> 'a proc_sys_scheme option" where
  "schedule_times pe 0 s = Some s"
| "schedule_times pe (Suc n) s = schedule pe s \<bind> schedule_times pe n"

lemma schedule_times_round:
  assumes sw: "switch_frame pe"
  shows "sched_inv s R B \<Longrightarrow> i < length R \<Longrightarrow> ps_current_proc s = R ! i \<Longrightarrow> \<forall>p \<in> set R. state_of p s = PS_RUNNING \<Longrightarrow>
    \<exists>s'. schedule_times pe n s = Some s' \<and> ps_current_proc s' = R ! ((i + n) mod length R)"
proof (induction n arbitrary: s i)
  case (Suc n)
  have c: "ps_current_proc s = 0 \<or> ps_current_proc s \<in> procs s"
    using Suc.prems(1-3) by (auto simp: sched_inv_def ready_procs_def dest: nth_mem)
  obtain s1 where s1: "schedule pe s = Some s1" "ps_current_proc s1 = schedule_next s" "sched_inv s1 R B"
      "\<forall>p \<in> set R. state_of p s1 = PS_RUNNING"
    by (rule schedule_running [OF sw Suc.prems(1) c Suc.prems(4)])
  have cur: "ps_current_proc s1 = R ! (Suc i mod length R)" using s1(2) schedule_next_member [OF Suc.prems(1-3)] by simp
  have "Suc i mod length R < length R" using Suc.prems(2) by (intro mod_less_divisor) linarith
  from Suc.IH [OF s1(3) this cur s1(4)] show ?case by (simp add: s1(1) mod_simps)
qed simp

section \<open>Creating and removing processes\<close>

lemma next_slotnum_loop_free:
  "next_slotnum_loop ps behind slot once = (Some k, n) \<Longrightarrow> k < CONFIG_MAX_PROCESSES \<Longrightarrow> ps ! k = 0"
proof (induction ps behind slot once rule: next_slotnum_loop.induct)
  case (1 ps behind slot once)
  show ?case
    using 1(3,4) 1(1,2) by (auto simp: next_slotnum_loop.simps [of ps behind slot once] split: if_splits)
qed

lemma next_slotnum_frame:
  "ps_procs (fst (next_slotnum b s)) = ps_procs s" "ps_process_list (fst (next_slotnum b s)) = ps_process_list s"
  "ps_run_nodes (fst (next_slotnum b s)) = ps_run_nodes s" "ps_run_queue (fst (next_slotnum b s)) = ps_run_queue s"
  "ps_blocked_queue (fst (next_slotnum b s)) = ps_blocked_queue s" "ps_idle_proc (fst (next_slotnum b s)) = ps_idle_proc s"
  "ps_current_proc (fst (next_slotnum b s)) = ps_current_proc s"
  by (auto simp: next_slotnum_def split: prod.splits option.splits)

lemma next_slotnum_free:
  "snd (next_slotnum b s) = k \<Longrightarrow> 0 \<le> k \<Longrightarrow> k < int CONFIG_MAX_PROCESSES \<Longrightarrow> ps_process_list s ! nat k = 0"
  using next_slotnum_loop_free [of "ps_process_list s" b "ps_next_process_slot s" False]
  by (auto simp: next_slotnum_def split: prod.splits option.splits)

text \<open>A new process: the table, the node and the state it gets, before it is queued.\<close>

lemma new_proc_cases:
  assumes "new_proc pe kz pid uid s = Some (s', p)"
  obtains (failed) "same_sched s s'" "p = 0"
  | (created) t k where "s' = insert_proc kz (pe_arch_init_task_info pe kz t)" "p = kz" "kz \<noteq> 0"
      "k < CONFIG_MAX_PROCESSES" "ps_process_list s ! k = 0" "ps_process_list t = (ps_process_list s)[k := kz]"
      "ps_run_nodes t = queue_node_init kz (ps_run_nodes s)" "ps_run_queue t = ps_run_queue s"
      "ps_blocked_queue t = ps_blocked_queue s" "ps_idle_proc t = ps_idle_proc s" "ps_current_proc t = ps_current_proc s"
      "\<forall>x. state_of x t = (if x = kz then PS_RUNNING else state_of x s)"
proof -
  define s1 where "s1 = (if pid = 0 then s\<lparr>ps_next_pid := to_int (ps_next_pid s + 1)\<rparr> else s)"
  define s2 where "s2 = fst (next_slotnum (pe_behind_process_list pe) s1)"
  define slot where "slot = snd (next_slotnum (pe_behind_process_list pe) s1)"
  have s1: "same_sched s s1" by (simp add: s1_def same_sched_def state_of_def)
  have s2: "same_sched s s2"
    using s1 next_slotnum_frame [of "pe_behind_process_list pe" s1] unfolding s2_def same_sched_def state_of_def by simp
  show thesis
  proof (cases "ps_num_processes s1 \<ge> int CONFIG_MAX_PROCESSES \<or> slot < 0 \<or> kz = 0")
    case True
    then have "s' \<in> {s1, s2} \<and> p = 0"
      using assms by (auto simp: new_proc_def Let_def case_prod_beta s1_def s2_def slot_def split: if_splits)
    then show ?thesis using failed s1 s2 by auto
  next
    case False
    obtain pid' where np: "slot < int CONFIG_MAX_PROCESSES" "p = kz"
        "s' = insert_proc kz (pe_arch_init_task_info pe kz (new_proc_fill kz slot pid' uid s2))"
      using assms False by (auto simp: new_proc_def Let_def case_prod_beta s1_def s2_def slot_def split: if_splits)
    have "ps_process_list s ! nat slot = 0"
      using next_slotnum_free [of "pe_behind_process_list pe" s1 slot] np(1) False s1
      by (simp add: slot_def [symmetric] same_sched_def)
    then show ?thesis
      using s2 False np
      by (intro created [of "new_proc_fill kz slot pid' uid s2" "nat slot"])
        (auto simp: new_proc_fill_def Let_def same_sched_def init_timer_def set_expires_time_def init_signal_data_def upd_proc_def
          state_of_def zero_process_def)
  qed
qed

lemma set_update_free: "k < length xs \<Longrightarrow> xs ! k = 0 \<Longrightarrow> z \<noteq> 0 \<Longrightarrow> set (xs[k := z]) - {0} = insert z (set xs - {0})"
proof -
  assume k: "k < length xs" "xs ! k = 0" "z \<noteq> 0"
  have "set xs = insert 0 (set (take k xs) \<union> set (drop (Suc k) xs))"
    using arg_cong [OF id_take_nth_drop [OF k(1)], of set] k(2) by auto
  moreover have "set (xs[k := z]) = insert z (set (take k xs) \<union> set (drop (Suc k) xs))"
    using k(1) by (simp add: upd_conv_take_nth_drop)
  ultimately show ?thesis using k(3) by auto
qed

text \<open>What is relied on of the architecture: preparing the task data of a process leaves the scheduler alone.\<close>

definition init_frame :: "'a proc_sys_scheme proc_env \<Rightarrow> bool" where
  "init_frame pe \<longleftrightarrow> (\<forall>p s. same_sched s (pe_arch_init_task_info pe p s))"

lemma new_proc_ok:
  assumes fr: "init_frame pe" and ok: "sched_ok s" and kz: "kz \<notin> procs s" "length (ps_process_list s) = CONFIG_MAX_PROCESSES"
    and np: "new_proc pe kz pid uid s = Some (s', p)"
  shows "sched_ok s'"
  using np
proof (cases rule: new_proc_cases)
  case failed
  then show ?thesis using ok same_sched_ok by blast
next
  case (created t k)
  obtain R B where inv: "sched_inv s R B" using ok by (auto simp: sched_ok_def)
  have q: "queues s R B" by (rule sched_inv_queues [OF inv])
  define u where "u = pe_arch_init_task_info pe kz t"
  have u: "same_sched t u" using fr by (simp add: u_def init_frame_def)
  have notin: "kz \<notin> set R" "kz \<notin> set B" using inv kz(1) by (auto simp: sched_inv_def ready_procs_def blocked_procs_def)
  have pt: "procs t = insert kz (procs s)"
    using set_update_free [of k "ps_process_list s" kz] created(3-6) kz(2) by (simp add: procs_def)
  have nodes: "x \<noteq> kz \<Longrightarrow> ps_run_nodes t x = ps_run_nodes s x" for x by (simp add: created(7) queue_node_init_def)
  have "queue_rep q (ps_run_nodes t) xs = queue_rep q (ps_run_nodes s) xs" if "kz \<notin> set xs" for q xs
    using that by (intro queue_rep_cong nodes) auto
  then have qt: "queues t R B"
    using q notin nodes pt created(7-9) by (auto simp: queues_def queue_node_init_def)
  then have "queues u R B" using u by (simp add: queues_def same_sched_def procs_def)
  then have qs: "queues s' (kz # R) B" using run_queue_insert_queues notin created(1) by (simp add: u_def insert_proc_def)
  have s': "procs s' = insert kz (procs s)" "ps_idle_proc s' = ps_idle_proc s" "ps_current_proc s' = ps_current_proc s"
    "\<And>x. state_of x s' = (if x = kz then PS_RUNNING else state_of x s)"
    using u pt created by (simp_all add: u_def [symmetric] same_sched_def insert_proc_def procs_def)
  have i: "ps_idle_proc s \<noteq> kz" using inv kz(1) by (auto simp: sched_inv_def)
  have "sched_inv s' (kz # R) B"
  proof (rule sched_invI [OF qs])
    have st: "p_state (ps_procs s' x) = (if x = kz then PS_RUNNING else p_state (ps_procs s x))" for x
      using s'(4) by (simp add: state_of_def)
    show "set (kz # R) = ready_procs s'" using inv s'(1,2) st i kz(1)
      by (auto simp: sched_inv_def ready_procs_def PROC_IS_RUNNING_def)
    show "set B = blocked_procs s'" using inv s'(1,4) kz(1) by (auto simp: sched_inv_def blocked_procs_def)
    show "state_of (ps_idle_proc s') s' = PS_RUNNING" "ps_idle_proc s' \<in> procs s'"
      using inv s' i by (simp_all add: sched_inv_def)
  qed
  then show ?thesis using ok s'(1,3) by (auto simp: sched_ok_def)
qed

lemma cleanup_proc_ok:
  assumes ok: "sched_ok s" and p: "state_of p s = PS_EXITED" "p \<noteq> ps_current_proc s" and cl: "cleanup_proc p s = Some s'"
  shows "sched_ok s'"
proof -
  define k where "k = nat (p_slotnum (ps_procs s p))"
  define t where "t = (if ps_process_list s ! k = p
      then s\<lparr>ps_process_list := (ps_process_list s)[k := 0], ps_num_processes := ps_num_processes s - 1\<rparr> else s)"
  have s': "s' = kmfree_log p t" and k: "k < length (ps_process_list s)"
    using cl by (auto simp: cleanup_proc_def Let_def k_def t_def split: if_splits)
  obtain R B where inv: "sched_inv s R B" using ok by (auto simp: sched_ok_def)
  have sub: "procs t \<subseteq> procs s" "procs s \<subseteq> insert p (procs t)"
  proof -
    show "procs t \<subseteq> procs s" by (auto simp: t_def procs_def dest: set_update_subset_insert [THEN subsetD])
    have "set (ps_process_list s) \<subseteq> insert (ps_process_list s ! k) (set ((ps_process_list s)[k := 0]))"
      by (auto simp: in_set_conv_nth nth_list_update) (metis nth_list_update_neq)
    then show "procs s \<subseteq> insert p (procs t)" by (auto simp: t_def procs_def)
  qed
  have pr: "ps_procs t = ps_procs s" "ps_idle_proc t = ps_idle_proc s" "ps_current_proc t = ps_current_proc s"
    "ps_run_queue t = ps_run_queue s" "ps_blocked_queue t = ps_blocked_queue s" "ps_run_nodes t = ps_run_nodes s"
    by (simp_all add: t_def)
  have idle: "ps_idle_proc s \<noteq> p" using inv p(1) by (auto simp: sched_inv_def)
  have q: "queues t R B" using sched_inv_queues [OF inv] sub(1) pr by (auto simp: queues_def)
  have "sched_inv t R B"
  proof (rule sched_invI [OF q])
    show "set R = ready_procs t" using inv sub p(1) pr
      by (auto simp: sched_inv_def ready_procs_def PROC_IS_RUNNING_def state_of_def)
    show "set B = blocked_procs t" using inv sub p(1) pr by (auto simp: sched_inv_def blocked_procs_def state_of_def)
    show "state_of (ps_idle_proc t) t = PS_RUNNING" "ps_idle_proc t \<in> procs t"
      using inv sub idle pr by (auto simp: sched_inv_def state_of_def)
  qed
  then have "sched_ok t" using ok sub p(2) pr by (auto simp: sched_ok_def)
  then show ?thesis by (simp add: s')
qed

end
