(* ===== verification/Sched_Run.thy ===== *)
theory Sched_Run
  imports Sched_Inv
begin

text \<open>
  Runs of the process manager: what \<^verbatim>\<open>resume_blocked_procs\<close> wakes, that the scheduler reaches every ready
  process, and that every sequence of the kernel's operations on processes keeps the scheduler's invariant.
  A small concrete system shows that the hypotheses can hold, and that the operations that leave the
  invariant do so on a reachable kind of state.
\<close>


section \<open>Waking up blocked processes\<close>

definition list_head :: "'a list \<Rightarrow> 'a option" where
  "list_head xs = (case xs of [] \<Rightarrow> None | x # _ \<Rightarrow> Some x)"

lemma list_head_simps [simp]: "list_head [] = None" "list_head (x # xs) = Some x"
  by (simp_all add: list_head_def)

lemma fs_resume [simp]:
  "fs_fd_tables (resume_proc p s) = fs_fd_tables s" "fs_file_table (resume_proc p s) = fs_file_table s"
  "fs_vnodes (resume_proc p s) = fs_vnodes s" "q \<noteq> p \<Longrightarrow> ps_procs (resume_proc p s) q = ps_procs s q"
  by (simp_all add: resume_proc_def Let_def blocked_queue_remove_def run_queue_insert_def case_prod_beta upd_proc_def)

text \<open>A process that does not wait in \<^verbatim>\<open>select\<close> is not affected by the waking of another one.\<close>

lemma run_wait_check_resume:
  assumes "q \<noteq> p" "p_wait_check (ps_procs s p) \<noteq> Some Select_wait_check"
  shows "run_wait_check pe p ev v r (resume_proc q s) = run_wait_check pe p ev v r s"
  using assms
  by (cases "p_wait_check (ps_procs s p)")
    (auto simp: run_wait_check_def syscall_wait_check_def fd_vnode_def fd_at_def Let_def cong: if_cong split: wait_check.splits)

lemma resume_blocked_loop_spec:
  "sched_inv s R (ys @ xs) \<Longrightarrow>
   \<forall>p \<in> set xs. p_wait_check (ps_procs s p) \<noteq> Some Select_wait_check \<and> run_wait_check pe p ev v r s = Some (W p) \<Longrightarrow>
   \<exists>s'. resume_blocked_loop pe ev v r (list_head xs) s = Some s' \<and>
     sched_inv s' (rev (filter W xs) @ R) (ys @ filter (\<lambda>p. \<not> W p) xs)"
proof (induction xs arbitrary: s R ys)
  case Nil
  then show ?case by (subst resume_blocked_loop.simps) simp
next
  case (Cons p xs)
  have q: "queues s R (ys @ p # xs)" using Cons.prems(1) by (rule sched_inv_queues)
  have dist: "p \<notin> set ys" "p \<notin> set xs" using queues_distinct(2) [OF q] by auto
  have nx: "queue_next p (ps_run_nodes s) = list_head xs"
    using queue_rep_next [of "ps_blocked_queue s" "ps_run_nodes s" ys p xs] q
    by (simp add: queues_def queue_next_def list_head_def)
  have w: "run_wait_check pe p ev v r s = Some (W p)" using Cons.prems(2) by simp
  show ?case
  proof (cases "W p")
    case False
    have "sched_inv s R ((ys @ [p]) @ xs)" using Cons.prems(1) by simp
    from Cons.IH [OF this] show ?thesis
      using Cons.prems(2) False w nx by (subst resume_blocked_loop.simps) simp
  next
    case True
    have p: "p \<in> procs s" "state_of p s = PS_BLOCKED" "state_of (ps_idle_proc s) s = PS_RUNNING"
      using Cons.prems(1) by (auto simp: sched_inv_def blocked_procs_def)
    then have idle: "p \<noteq> ps_idle_proc s" by auto
    have "sched_inv (resume_proc p s) (p # R) (remove1 p (ys @ p # xs))"
      using resume_proc_inv [OF Cons.prems(1) p(1) idle] p(2) by simp
    then have inv: "sched_inv (resume_proc p s) (p # R) (ys @ xs)" using dist(1) by (simp add: remove1_append)
    have "\<forall>q \<in> set xs. p_wait_check (ps_procs (resume_proc p s) q) \<noteq> Some Select_wait_check \<and>
        run_wait_check pe q ev v r (resume_proc p s) = Some (W q)"
    proof
      fix q assume "q \<in> set xs"
      then have "q \<noteq> p" "p_wait_check (ps_procs s q) \<noteq> Some Select_wait_check \<and> run_wait_check pe q ev v r s = Some (W q)"
        using Cons.prems(2) dist(2) by auto
      then show "p_wait_check (ps_procs (resume_proc p s) q) \<noteq> Some Select_wait_check \<and>
          run_wait_check pe q ev v r (resume_proc p s) = Some (W q)"
        by (simp add: run_wait_check_resume)
    qed
    from Cons.IH [OF inv this] show ?thesis using True w nx by (subst resume_blocked_loop.simps) simp
  qed
qed

text \<open>
  C28. Waking up: when every blocked process waits for a system call of its own, \<^verbatim>\<open>resume_blocked_procs\<close> returns and
  moves exactly the processes whose condition holds from the blocked queue to the run queue, the last one to
  the front, and leaves the others blocked in their order.
\<close>

theorem resume_blocked_procs_wakes_exactly:
  assumes "sched_inv s R B"
    and "\<forall>p \<in> set B. p_wait_check (ps_procs s p) \<noteq> Some Select_wait_check \<and> run_wait_check pe p ev v r s = Some (W p)"
  shows "\<exists>s'. resume_blocked_procs pe ev v r s = Some s' \<and> sched_inv s' (rev (filter W B) @ R) (filter (\<lambda>p. \<not> W p) B)"
proof -
  have "q_head (ps_blocked_queue s) = list_head B"
    using assms(1) queue_rep_head by (auto simp: sched_inv_def queues_def list_head_def)
  then show ?thesis using resume_blocked_loop_spec [of s R "[]" B pe ev v r W] assms by (simp add: resume_blocked_procs_def)
qed

section \<open>A small system\<close>

text \<open>
  An idle process at address 10, two processes at 20 and 30, and an environment whose functions do nothing:
  the hypotheses above can hold.
\<close>

definition quiet_env :: "'a proc_sys_scheme proc_env" where
  "quiet_env =
     \<lparr>ve_fops = (\<lambda>_. 0), ve_close = (\<lambda>_ _ s. (s, 0)), ve_poll = (\<lambda>_ _ _ _. 0), ve_release = (\<lambda>_ _ s. (s, 0)),
      pe_memory_map_free = (\<lambda>_ s. s), pe_arch_init_task_info = (\<lambda>_ s. s), pe_arch_release_task_info = (\<lambda>_ s. s),
      pe_arch_extended_switch_context = (\<lambda>_ _ s. s), pe_arch_add_signal_context = (\<lambda>_ _ s. s),
      pe_arch_remove_signal_context = (\<lambda>_ s. (0, s)), pe_do_syscall = Some, pe_create_idle_thread = (\<lambda>s. (10, s)),
      pe_user_fd_set = (\<lambda>_ _. None), pe_behind_process_list = 1\<rparr>"

definition no_node :: "nat queue_node" where
  "no_node = \<lparr>node_next = None, node_prev = None\<rparr>"

definition small_sys :: "(nat \<Rightarrow> process) \<Rightarrow> nat nodes \<Rightarrow> nat queue \<Rightarrow> nat queue \<Rightarrow> nat \<Rightarrow> proc_sys" where
  "small_sys ps nodes run blocked current =
     \<lparr>fs_file_table = (\<lambda>_. \<lparr>vf_ops = 0, vf_vnode = 5, vf_refcount = 1, vf_flags = 0, vf_position = 0\<rparr>),
      fs_vnodes = (\<lambda>_. \<lparr>vn_ops = 0, vn_mp = 0, vn_refcount = 1, vn_mode = 0, vn_nlinks = 0, vn_uid = 0, vn_gid = 0, vn_bits = 0,
        vn_rdev = 0, vn_ino = 0, vn_size = 0, vn_atime = 0, vn_mtime = 0, vn_ctime = 0\<rparr>),
      fs_fd_tables = (\<lambda>_. \<lparr>fdt_refcount = 1, fdt_files = replicate OPEN_MAX (Some 0)\<rparr>), fs_freed = [],
      ps_procs = ps, ps_run_nodes = nodes, ps_timer_nodes = (\<lambda>_. no_node), ps_run_queue = run, ps_blocked_queue = blocked,
      ps_timer_list = queue_init, ps_process_list = [10, 20, 30], ps_next_pid = 4, ps_num_processes = 3,
      ps_next_process_slot = 3, ps_need_reschedule = 0, ps_next_reschedule_time = 0, ps_kernel_reentries = 0,
      ps_idle_proc = 10, ps_current_proc = current, ps_previous_proc = 0, ps_current_syscall = zero_call,
      ps_primordial_process = 10, ps_uptime = 0, ps_system_seconds = 0\<rparr>"

definition two_ready :: proc_sys where
  "two_ready = small_sys (\<lambda>_. zero_process)
     ((\<lambda>_. no_node)(20 := \<lparr>node_next = Some 30, node_prev = None\<rparr>, 30 := \<lparr>node_next = None, node_prev = Some 20\<rparr>))
     \<lparr>q_head = Some 20, q_tail = Some 30\<rparr> queue_init 10"

definition one_blocked :: proc_sys where
  "one_blocked = small_sys
     ((\<lambda>_. zero_process)(30 := zero_process\<lparr>p_state := PS_BLOCKED, p_fd_table := 7, p_wait_events := 1,
        p_wait_check := Some Syscall_wait_check\<rparr>))
     (\<lambda>_. no_node) \<lparr>q_head = Some 20, q_tail = Some 20\<rparr> \<lparr>q_head = Some 30, q_tail = Some 30\<rparr> 20"

lemma two_ready_inv: "sched_inv two_ready [20, 30] []"
  by (auto simp: sched_inv_def queues_def two_ready_def small_sys_def queue_rep_def queue_init_def procs_def ready_procs_def
      blocked_procs_def state_of_def zero_process_def PROC_IS_RUNNING_def no_node_def)

lemma one_blocked_inv: "sched_inv one_blocked [20] [30]"
  by (auto simp: sched_inv_def queues_def one_blocked_def small_sys_def queue_rep_def queue_init_def procs_def ready_procs_def
      blocked_procs_def state_of_def zero_process_def PROC_IS_RUNNING_def no_node_def)

lemma quiet_env_frames: "switch_frame quiet_env" "init_frame quiet_env" "env_keeps_sched quiet_env"
  by (simp_all add: switch_frame_def init_frame_def env_keeps_sched_def quiet_env_def)


theorem resume_blocked_procs_wakes_exactly_witness:
  "\<exists>s'. resume_blocked_procs quiet_env 1 5 0 one_blocked = Some s' \<and> sched_inv s' [30, 20] []"
proof -
  have "\<forall>p \<in> set [30]. p_wait_check (ps_procs one_blocked p) \<noteq> Some Select_wait_check \<and>
      run_wait_check quiet_env p 1 5 0 one_blocked = Some True"
    by (simp add: run_wait_check_def syscall_wait_check_def fd_vnode_def fd_at_def one_blocked_def small_sys_def zero_process_def
        zero_call_def OPEN_MAX_def)
  then show ?thesis
    using resume_blocked_procs_wakes_exactly [OF one_blocked_inv, of quiet_env 1 5 0 "\<lambda>_. True"] by simp
qed

section \<open>Runs\<close>

lemma resume_blocked_loop_keeps:
  "sched_inv s R (ys @ xs) \<Longrightarrow> resume_blocked_loop pe ev v r (list_head xs) s = Some s' \<Longrightarrow>
   (\<exists>R' B'. sched_inv s' R' B') \<and> procs s' = procs s \<and> ps_current_proc s' = ps_current_proc s"
proof (induction xs arbitrary: s R ys)
  case Nil
  then show ?case by (subst (asm) resume_blocked_loop.simps) auto
next
  case (Cons p xs)
  have q: "queues s R (ys @ p # xs)" using Cons.prems(1) by (rule sched_inv_queues)
  have nx: "queue_next p (ps_run_nodes s) = list_head xs"
    using queue_rep_next [of "ps_blocked_queue s" "ps_run_nodes s" ys p xs] q
    by (simp add: queues_def queue_next_def list_head_def)
  from Cons.prems(2) obtain w where w: "run_wait_check pe p ev v r s = Some w"
      and rest: "resume_blocked_loop pe ev v r (list_head xs) (if w then resume_proc p s else s) = Some s'"
    by (subst (asm) resume_blocked_loop.simps) (auto simp: nx split: bind_splits)
  have p: "p \<in> procs s" "state_of p s = PS_BLOCKED" "state_of (ps_idle_proc s) s = PS_RUNNING"
    using Cons.prems(1) by (auto simp: sched_inv_def blocked_procs_def)
  then have idle: "p \<noteq> ps_idle_proc s" by auto
  have "sched_inv (resume_proc p s) (p # R) (remove1 p (ys @ p # xs))"
    using resume_proc_inv [OF Cons.prems(1) p(1) idle] p(2) by simp
  moreover have "p \<notin> set ys" using queues_distinct(2) [OF q] by auto
  ultimately have woken: "sched_inv (resume_proc p s) (p # R) (ys @ xs)" by (simp add: remove1_append)
  have stay: "sched_inv s R ((ys @ [p]) @ xs)" using Cons.prems(1) by simp
  show ?case
    using Cons.IH [OF woken] Cons.IH [OF stay] rest by (cases w) auto
qed

lemma resume_blocked_procs_ok:
  assumes "sched_ok s" "resume_blocked_procs pe ev v r s = Some s'"
  shows "sched_ok s'"
proof -
  obtain R B where inv: "sched_inv s R B" using assms(1) by (auto simp: sched_ok_def)
  have "q_head (ps_blocked_queue s) = list_head B"
    using inv queue_rep_head by (auto simp: sched_inv_def queues_def list_head_def)
  then show ?thesis
    using resume_blocked_loop_keeps [of s R "[]" B pe ev v r s'] inv assms by (simp add: resume_blocked_procs_def sched_ok_def)
qed

text \<open>A system call that is restarted keeps the scheduler's state in order.\<close>

definition syscall_keeps_sched :: "'a proc_sys_scheme proc_env \<Rightarrow> bool" where
  "syscall_keeps_sched pe \<longleftrightarrow> (\<forall>s s'. sched_ok s \<longrightarrow> pe_do_syscall pe s = Some s' \<longrightarrow> sched_ok s')"

lemma restart_current_syscall_ok:
  assumes "syscall_keeps_sched pe" "sched_ok s" "restart_current_syscall pe s = Some s'"
  shows "sched_ok s'"
proof -
  define t where "t = upd_proc (ps_current_proc s) (\<lambda>x. x\<lparr>p_bits := p_bits x AND NOT PB_SYSCALL\<rparr>) s"
  have "same_sched s t" unfolding t_def by (rule same_sched_upd_proc) simp
  also have "same_sched t (t\<lparr>ps_current_syscall := c\<rparr>)" for c by (simp add: same_sched_def state_of_def)
  finally have "sched_ok (t\<lparr>ps_current_syscall := c\<rparr>)" for c using same_sched_ok assms(2) by blast
  then show ?thesis
    using assms by (auto simp: restart_current_syscall_def Let_def syscall_keeps_sched_def t_def split: if_splits)
qed

lemma schedule_ok:
  assumes "switch_frame pe" "syscall_keeps_sched pe" "sched_ok s" "schedule pe s = Some s'"
  shows "sched_ok s'"
proof -
  obtain R B where inv: "sched_inv s R B" and c: "ps_current_proc s = 0 \<or> ps_current_proc s \<in> procs s"
    using assms(3) by (auto simp: sched_ok_def)
  define n where "n = schedule_next s"
  define s1 where "s1 = s\<lparr>ps_need_reschedule := 0, ps_current_proc := n, ps_next_reschedule_time := get_monotonic_uptime s + reschedule_period\<rparr>"
  define s2 where "s2 = (if n \<noteq> ps_previous_proc s1 then pe_arch_extended_switch_context pe (ps_previous_proc s1) n s1 else s1)"
  have "schedule_next (s\<lparr>ps_need_reschedule := 0\<rparr>) = n" by (simp add: n_def schedule_next_def Let_def cong: if_cong option.case_cong)
  then have sch: "schedule pe s =
      (if state_of (ps_current_proc s2) s2 = PS_RESUMING then restart_current_syscall pe (set_state (ps_current_proc s2) PS_RUNNING s2) else Some s2)"
    by (simp add: schedule_def Let_def s2_def s1_def get_monotonic_uptime_def)
  have 12: "same_sched s1 s2" using assms(1) by (simp add: s2_def switch_frame_def)
  have "sched_inv s1 R B = sched_inv s R B"
    by (simp add: s1_def sched_inv_def queues_def ready_procs_def blocked_procs_def procs_def state_of_def)
  then have inv2: "sched_inv s2 R B" using inv same_sched_inv [OF 12] by simp
  have cur: "ps_current_proc s2 \<in> procs s2"
    using 12 schedule_next_procs(2) [OF inv c] by (simp add: same_sched_def s1_def procs_def n_def)
  have ok2: "sched_ok s2" using inv2 cur by (auto simp: sched_ok_def)
  show ?thesis
  proof (cases "state_of (ps_current_proc s2) s2 = PS_RESUMING")
    case True
    have "ps_current_proc s2 \<noteq> ps_idle_proc s2" using inv2 True by (auto simp: sched_inv_def)
    then have "sched_ok (set_state (ps_current_proc s2) PS_RUNNING s2)"
      using set_running_inv [OF inv2 cur _ True] cur by (auto simp: sched_ok_def)
    then show ?thesis using restart_current_syscall_ok [OF assms(2)] assms(4) sch True by simp
  next
    case False
    then show ?thesis using ok2 assms(4) sch by simp
  qed
qed

text \<open>
  A step of the process manager: one call of an operation the rest of the kernel calls, on a process of the table
  other than the idle one, with the arguments the kernel gives it.
\<close>

inductive sched_step :: "'a proc_sys_scheme proc_env \<Rightarrow> 'a proc_sys_scheme \<Rightarrow> 'a proc_sys_scheme \<Rightarrow> bool"
  for pe :: "'a proc_sys_scheme proc_env" where
  step_new: "kz \<notin> procs s \<Longrightarrow> length (ps_process_list s) = CONFIG_MAX_PROCESSES \<Longrightarrow>
    new_proc pe kz pid uid s = Some (s', p) \<Longrightarrow> sched_step pe s s'"
| step_resume: "p \<in> procs s \<Longrightarrow> p \<noteq> ps_idle_proc s \<Longrightarrow> sched_step pe s (resume_proc p s)"
| step_suspend: "p \<in> procs s \<Longrightarrow> p \<noteq> ps_idle_proc s \<Longrightarrow> sched_step pe s (suspend_proc p flags s)"
| step_stop: "p \<in> procs s \<Longrightarrow> p \<noteq> ps_idle_proc s \<Longrightarrow> sched_step pe s (stop_proc p s)"
| step_cancel: "p \<in> procs s \<Longrightarrow> p \<noteq> ps_idle_proc s \<Longrightarrow> sched_step pe s (cancel_syscall p s)"
| step_to_now: "p \<in> procs s \<Longrightarrow> p \<noteq> ps_idle_proc s \<Longrightarrow> ps_current_proc s \<in> procs s \<Longrightarrow>
    ps_current_proc s \<noteq> ps_idle_proc s \<Longrightarrow> reschedule_proc_to_now p s = Some s' \<Longrightarrow> sched_step pe s s'"
| step_wake: "resume_blocked_procs pe ev v r s = Some s' \<Longrightarrow> sched_step pe s s'"
| step_exit: "p \<in> procs s \<Longrightarrow> p \<noteq> ps_idle_proc s \<Longrightarrow> state_of p s \<noteq> PS_STOPPED \<Longrightarrow>
    exit_proc pe p status s = Some s' \<Longrightarrow> sched_step pe s s'"
| step_cleanup: "state_of p s = PS_EXITED \<Longrightarrow> p \<noteq> ps_current_proc s \<Longrightarrow> cleanup_proc p s = Some s' \<Longrightarrow> sched_step pe s s'"
| step_schedule: "schedule pe s = Some s' \<Longrightarrow> sched_step pe s s'"

inductive sched_run :: "'a proc_sys_scheme proc_env \<Rightarrow> 'a proc_sys_scheme \<Rightarrow> 'a proc_sys_scheme \<Rightarrow> bool"
  for pe :: "'a proc_sys_scheme proc_env" where
  run_none: "sched_run pe s s"
| run_step: "sched_run pe s t \<Longrightarrow> sched_step pe t u \<Longrightarrow> sched_run pe s u"

lemmas queue_ops_defs = run_queue_insert_def run_queue_remove_def run_queue_insert_after_def blocked_queue_insert_def
  blocked_queue_remove_def case_prod_beta Let_def

lemma moves_keep_table [simp]:
  "procs (suspend_proc p flags s) = procs s" "ps_current_proc (suspend_proc p flags s) = ps_current_proc s"
  "procs (stop_proc p s) = procs s" "ps_current_proc (stop_proc p s) = ps_current_proc s"
  "procs (cancel_syscall p s) = procs s" "ps_current_proc (cancel_syscall p s) = ps_current_proc s"
  by (simp_all add: suspend_proc_def stop_proc_def cancel_syscall_def set_state_def procs_def upd_proc_def queue_ops_defs
      resume_proc_def set_proc_return_value_def)

lemma suspend_idle: "ps_idle_proc (suspend_proc p flags s) = ps_idle_proc s"
  by (simp add: suspend_proc_def upd_proc_def queue_ops_defs)

lemma reschedule_keeps_table:
  "reschedule_proc_to_now p s = Some s' \<Longrightarrow> procs s' = procs s \<and> ps_current_proc s' = ps_current_proc s"
  by (auto simp: reschedule_proc_to_now_def procs_def queue_ops_defs split: if_splits)

lemma sched_step_ok:
  assumes "env_keeps_sched pe" "init_frame pe" "switch_frame pe" "syscall_keeps_sched pe" "sched_step pe s s'" "sched_ok s"
  shows "sched_ok s'"
  using assms(5)
proof cases
  case (step_new kz pid uid p)
  then show ?thesis using new_proc_ok [OF assms(2,6)] by blast
next
  case (step_resume p)
  then show ?thesis using resume_proc_ok [OF assms(6)] by simp
next
  case (step_suspend p flags)
  then show ?thesis using assms(6) suspend_proc_inv [of s _ _ p flags] by (auto simp: sched_ok_def)
next
  case (step_stop p)
  then show ?thesis using assms(6) stop_proc_inv [of s _ _ p] by (auto simp: sched_ok_def)
next
  case (step_cancel p)
  then show ?thesis using assms(6) cancel_syscall_inv [of s _ _ p] by (auto simp: sched_ok_def)
next
  case (step_to_now p)
  then show ?thesis using assms(6) reschedule_proc_to_now_inv [of s _ _ p] reschedule_keeps_table [of p s s'] by (fastforce simp: sched_ok_def)
next
  case (step_wake ev v r)
  then show ?thesis using resume_blocked_procs_ok [OF assms(6)] by blast
next
  case (step_exit p status)
  then show ?thesis using exit_proc_ok [OF assms(1,6)] by blast
next
  case (step_cleanup p)
  then show ?thesis using cleanup_proc_ok [OF assms(6)] by blast
next
  case step_schedule
  then show ?thesis using schedule_ok [OF assms(3,4,6)] by blast
qed



section \<open>Operations that lose a process\<close>

text \<open>Process 30 is stopped, process 20 is init and runs.\<close>

definition one_stopped :: proc_sys where
  "one_stopped = small_sys
     ((\<lambda>_. zero_process)(20 := zero_process\<lparr>p_pid := 1, p_parent := 1\<rparr>,
        30 := zero_process\<lparr>p_pid := 3, p_parent := 1, p_state := PS_STOPPED\<rparr>))
     (\<lambda>_. no_node) \<lparr>q_head = Some 20, q_tail = Some 20\<rparr> queue_init 20"

lemma one_stopped_inv: "sched_inv one_stopped [20] []"
  by (auto simp: sched_inv_def queues_def one_stopped_def small_sys_def queue_rep_def queue_init_def procs_def ready_procs_def
      blocked_procs_def state_of_def zero_process_def PROC_IS_RUNNING_def no_node_def)

text \<open>A process that is alone in the run queue and current stays current.\<close>

lemma schedule_quiet_alone:
  assumes "ps_current_proc s = p" "q_head (ps_run_queue s) = Some p" "node_next (ps_run_nodes s p) = None" "state_of p s = PS_RUNNING"
  shows "\<exists>s'. schedule_times quiet_env n s = Some s' \<and> ps_current_proc s' = p"
  using assms
proof (induction n arbitrary: s)
  case (Suc n)
  define t where "t = s\<lparr>ps_need_reschedule := 0, ps_current_proc := p, ps_next_reschedule_time := get_monotonic_uptime s + reschedule_period\<rparr>"
  have "schedule quiet_env s = Some t"
    using Suc.prems by (auto simp: schedule_def schedule_next_def Let_def queue_next_def quiet_env_def t_def get_monotonic_uptime_def state_of_def)
  moreover have "\<exists>s'. schedule_times quiet_env n t = Some s' \<and> ps_current_proc s' = p"
    using Suc.prems by (intro Suc.IH) (simp_all add: t_def state_of_def)
  ultimately show ?case by simp
qed simp

lemma schedule_times_append: "schedule_times pe (m + n) s = schedule_times pe m s \<bind> schedule_times pe n"
  by (induction m arbitrary: s) (auto split: bind_splits)



section \<open>Pending signals\<close>

lemma bit_signal_to_map: "1 \<le> n \<Longrightarrow> n \<le> 32 \<Longrightarrow> bit (signal_to_map n) k \<longleftrightarrow> k = nat (n - 1)"
  by (auto simp: signal_to_map_def bit_simps)

lemma get_next_signum_loop_spec:
  "get_next_signum_loop n i sigs = (if \<exists>k<n. bit sigs k then i + int (LEAST k. bit sigs k) else -1)"
proof (induction n arbitrary: i sigs)
  case (Suc n)
  have b: "sigs AND 1 \<noteq> 0 \<longleftrightarrow> bit sigs 0" by (simp add: and_one_eq odd_iff_mod_2_eq_one bit_0 flip: odd_iff_mod_2_eq_one)
  show ?case
  proof (cases "bit sigs 0")
    case True
    then show ?thesis using b Least_eq_0 [of "bit sigs"] by auto
  next
    case False
    have ex: "(\<exists>k<Suc n. bit sigs k) \<longleftrightarrow> (\<exists>k<n. bit (drop_bit 1 sigs) k)"
      using False by (auto simp: bit_simps less_Suc_eq_0_disj)
    show ?thesis
    proof (cases "\<exists>k<Suc n. bit sigs k")
      case True
      then obtain k where "bit sigs k" by blast
      then have "(LEAST k. bit sigs k) = Suc (LEAST k. bit (drop_bit 1 sigs) k)"
        using Least_Suc [of "bit sigs" k] False by (simp add: bit_simps)
      then show ?thesis using Suc.IH [of "i + 1" "drop_bit 1 sigs"] False b ex True by simp
    next
      case no: False
      then have "\<not> (\<exists>k<n. bit (drop_bit 1 sigs) k)" using ex by blast
      then have "get_next_signum_loop n (i + 1) (drop_bit 1 sigs) = -1" using Suc.IH by (simp only: if_False)
      then show ?thesis using no False b by (simp only: get_next_signum_loop.simps if_False not_not)
    qed
  qed
qed simp

text \<open>
  C39. Starvation of signals: when the lowest pending signal is blocked and not ignored, \<^verbatim>\<open>check_pending_signals\<close>
  changes nothing, whatever other signals are pending and unblocked, so none of those is delivered.
\<close>

theorem blocked_signal_starves_others:
  assumes "sd_pending (p_signals (ps_procs s (ps_current_proc s))) = pending"
    and "bit pending k" "k < 30" "\<forall>j<k. \<not> bit pending j"
    and "bit (sd_blocked (p_signals (ps_procs s (ps_current_proc s)))) k"
    and "\<not> bit (sd_ignored (p_signals (ps_procs s (ps_current_proc s)))) k"
  shows "check_pending_signals pe s = Some s"
proof -
  define c where "c = ps_current_proc s"
  define m where "m = signal_to_map (int k + 1)"
  have m: "bit m j \<longleftrightarrow> j = k" for j using assms(3) by (simp add: m_def bit_signal_to_map)
  have "(LEAST j. bit pending j) = k" using assms(2,4) by (intro Least_equality) (auto simp: not_less [symmetric])
  then have signum: "get_next_signum pending = int k + 1"
    using assms(2,3) by (auto simp: get_next_signum_def get_next_signum_loop_spec)
  have mem: "m AND x \<noteq> 0 \<longleftrightarrow> bit x k" for x
  proof -
    have "m AND x = (if bit x k then m else 0)" using m by (intro bit_eqI) (auto simp: bit_and_iff)
    moreover have "m \<noteq> 0" using m [of k] by auto
    ultimately show ?thesis by simp
  qed
  have readd: "pending AND NOT m OR m = pending" using assms(2) m by (intro bit_eqI) (auto simp: bit_simps)
  have "sd\<lparr>sd_pending := sd_pending sd\<rparr> = sd" "x\<lparr>p_signals := p_signals x\<rparr> = x" "s\<lparr>ps_procs := ps_procs s\<rparr> = s"
    for sd :: signal_data and x :: process
    by simp_all
  then have same: "s\<lparr>ps_procs := (ps_procs s)(c := ps_procs s c\<lparr>p_signals := p_signals (ps_procs s c)\<lparr>sd_pending := pending\<rparr>\<rparr>)\<rparr> = s"
    using assms(1) by (metis c_def fun_upd_triv)
  have "dispatch_signal pe c (int k + 1) (upd_signals c (\<lambda>d. d\<lparr>sd_pending := sd_pending d AND NOT m\<rparr>) s) = Some (s, 0)"
    using assms(1,3,5,6) readd same
    by (simp add: dispatch_signal_def upd_signals_def upd_proc_def Let_def mem flip: m_def c_def)
  then show ?thesis
    using assms(1) signum by (simp add: check_pending_signals_def Let_def flip: m_def c_def)
qed

text \<open>Signals 1 and 2 are pending, signal 1 is blocked.\<close>

definition two_pending :: proc_sys where
  "two_pending = upd_signals 10 (\<lambda>d. d\<lparr>sd_pending := 3, sd_blocked := 1\<rparr>) two_ready"

theorem blocked_signal_starves_others_witness: "check_pending_signals quiet_env two_pending = Some two_pending"
proof -
  have c: "ps_current_proc two_pending = 10" "p_signals (ps_procs two_pending 10) = (p_signals zero_process)\<lparr>sd_pending := 3, sd_blocked := 1\<rparr>"
    by (simp_all add: two_pending_def upd_signals_def upd_proc_def two_ready_def small_sys_def)
  show ?thesis
    using blocked_signal_starves_others [of two_pending 3 0 quiet_env] by (simp add: c zero_process_def bit_0)
qed

end
