(* ===== verification/Libc_Builtins.thy ===== *)
theory Libc_Builtins
  imports Kernel_Prelude "HOL-Library.Monad_Syntax"
begin

text \<open>
  The arithmetic support routines the compiler calls on a 68000: multiplication, division and remainder
  of \<^verbatim>\<open>src/libc/arch/m68k/builtins\<close>, bit counting of \<^verbatim>\<open>src/libc/common/builtins\<close>, and byte swapping of
  \<^verbatim>\<open>src/libc/arch/m68k/include/bits/byteswap.h\<close> and \<^verbatim>\<open>include/endian.h\<close>.

  The assembly is translated instruction by instruction on 32 bit registers. \<open>None\<close> is the trap
  of a division by zero. \<^verbatim>\<open>divu\<close> whose quotient does not fit leaves its operand unchanged, as the
  processor does. The routines are shown equal to the word operations where they are, and the inputs
  where they are not are stated as well.
\<close>

section \<open>The instructions\<close>

definition low_word :: "u32 \<Rightarrow> u16" where
  "low_word r = ucast r"

definition high_word :: "u32 \<Rightarrow> u16" where
  "high_word r = ucast (drop_bit 16 r)"

definition reg :: "u16 \<Rightarrow> u16 \<Rightarrow> u32" where
  "reg hi lo = push_bit 16 (ucast hi) OR ucast lo"

text \<open>\<^verbatim>\<open>move.w\<close> into a register keeps the upper half.\<close>

definition move_w :: "u16 \<Rightarrow> u32 \<Rightarrow> u32" where
  "move_w w r = reg (high_word r) w"

definition clr_w :: "u32 \<Rightarrow> u32" where
  "clr_w r = move_w 0 r"

definition swap_reg :: "u32 \<Rightarrow> u32" where
  "swap_reg r = reg (low_word r) (high_word r)"

definition mulu_w :: "u32 \<Rightarrow> u32 \<Rightarrow> u32" where
  "mulu_w src dst = ucast (low_word src) * ucast (low_word dst)"

definition divu_w :: "u32 \<Rightarrow> u32 \<Rightarrow> u32 option" where
  "divu_w src dst =
     (let d = ucast (low_word src)
      in if d = 0 then None
         else if dst div d > 65535 then Some dst
         else Some (reg (ucast (dst mod d)) (ucast (dst div d))))"

section \<open>Multiplication\<close>

definition mulsi3 :: "u32 \<Rightarrow> u32 \<Rightarrow> u32" where
  "mulsi3 a b =
     (let d0 = a; d1 = d0; d1 = swap_reg d1;
          d2 = b; d3 = d2; d3 = swap_reg d3;
          d0 = mulu_w d2 d0;
          d2 = mulu_w d1 d2;
          d1 = move_w (low_word a) d1;
          d1 = mulu_w d3 d1;
          d1 = swap_reg d1; d1 = clr_w d1;
          d2 = swap_reg d2; d2 = clr_w d2;
          d0 = d0 + d2;
          d0 = d0 + d1
      in d0)"

definition umulsi3 :: "u32 \<Rightarrow> u32 \<Rightarrow> u32" where
  "umulsi3 a b =
     (let d0 = a; d1 = d0; d1 = swap_reg d1;
          d2 = b; d3 = d2; d3 = swap_reg d3;
          d0 = mulu_w d2 d0;
          d2 = mulu_w d1 d2;
          d1 = move_w (low_word a) d1;
          d1 = mulu_w d3 d1;
          d1 = swap_reg d1; d1 = clr_w d1;
          d2 = swap_reg d2; d2 = clr_w d2;
          d0 = d0 + d2;
          d0 = d0 + d1
      in d0)"

section \<open>Division and remainder\<close>

text \<open>The register \<open>d3\<close> holds an arbitrary value \<open>j\<close> on entry.\<close>

definition udivsi3 :: "u32 \<Rightarrow> u32 \<Rightarrow> u32 \<Rightarrow> u32 option" where
  "udivsi3 j a b =
     (let d0 = 0; d1 = 0;
          d0 = move_w (low_word a) d0;
          d1 = move_w (low_word b) d1;
          d2 = a; d2 = clr_w d2; d2 = swap_reg d2
      in do {
        d2 \<leftarrow> divu_w d1 d2;
        let d3 = move_w (low_word d2) j; let d3 = swap_reg d3; let d3 = clr_w d3;
        let d2 = clr_w d2;
        let d0 = d0 + d2;
        d0 \<leftarrow> divu_w d1 d0;
        let d0 = swap_reg d0; let d0 = clr_w d0; let d0 = swap_reg d0;
        Some (d0 + d3)
      })"

definition divsi3 :: "u32 \<Rightarrow> u32 \<Rightarrow> u32 \<Rightarrow> u32 option" where
  "divsi3 j a b =
     (let d0 = 0; d1 = 0;
          d0 = move_w (low_word a) d0;
          d1 = move_w (low_word b) d1;
          d2 = a; d2 = clr_w d2; d2 = swap_reg d2
      in do {
        d2 \<leftarrow> divu_w d1 d2;
        let d3 = move_w (low_word d2) j; let d3 = swap_reg d3; let d3 = clr_w d3;
        let d2 = clr_w d2;
        let d0 = d0 + d2;
        d0 \<leftarrow> divu_w d1 d0;
        let d0 = swap_reg d0; let d0 = clr_w d0; let d0 = swap_reg d0;
        Some (d0 + d3)
      })"

text \<open>
  The remainder is moved into the result with \<^verbatim>\<open>move.w\<close>; \<open>j\<close> is what the register that the compiler
  chooses for the result held before.
\<close>

definition umodsi3 :: "u32 \<Rightarrow> u32 \<Rightarrow> u32 \<Rightarrow> u32 option" where
  "umodsi3 j a b =
     (let d0 = 0; d1 = 0;
          d0 = move_w (low_word a) d0;
          d1 = move_w (low_word b) d1;
          d2 = a; d2 = clr_w d2; d2 = swap_reg d2
      in do {
        d2 \<leftarrow> divu_w d1 d2;
        let d2 = clr_w d2;
        let d0 = d0 + d2;
        d0 \<leftarrow> divu_w d1 d0;
        let d0 = clr_w d0; let d0 = swap_reg d0;
        Some (move_w (low_word d0) j)
      })"

definition modsi3 :: "u32 \<Rightarrow> u32 \<Rightarrow> u32 \<Rightarrow> u32 option" where
  "modsi3 j a b =
     (let d0 = 0; d1 = 0;
          d0 = move_w (low_word a) d0;
          d1 = move_w (low_word b) d1;
          d2 = a; d2 = clr_w d2; d2 = swap_reg d2
      in do {
        d2 \<leftarrow> divu_w d1 d2;
        let d2 = clr_w d2;
        let d0 = d0 + d2;
        d0 \<leftarrow> divu_w d1 d0;
        let d0 = clr_w d0; let d0 = swap_reg d0;
        Some (move_w (low_word d0) j)
      })"

section \<open>Bit counting\<close>

definition clzsi2 :: "u32 \<Rightarrow> int" where
  "clzsi2 a =
     (let index = 32;
          (index, a) = (if a AND 0xFFFF0000 = 0 then (index - 16, push_bit 16 a) else (index, a));
          (index, a) = (if a AND 0xFF000000 = 0 then (index - 8, push_bit 8 a) else (index, a));
          (index, a) = (if a AND 0xF0000000 = 0 then (index - 4, push_bit 4 a) else (index, a));
          (index, a) = (if a AND 0xC0000000 = 0 then (index - 2, push_bit 2 a) else (index, a));
          index = (if a AND 0x80000000 = 0 then index - 1 else index)
      in 32 - index)"

definition ffsdi2 :: "u32 \<Rightarrow> int" where
  "ffsdi2 a =
     (let index = 0;
          (index, a) = (if a AND 0xffff = 0 then (index + 16, drop_bit 16 a) else (index, a));
          (index, a) = (if a AND 0xff = 0 then (index + 8, drop_bit 8 a) else (index, a));
          (index, a) = (if a AND 0xf = 0 then (index + 4, drop_bit 4 a) else (index, a));
          (index, a) = (if a AND 0x3 = 0 then (index + 2, drop_bit 2 a) else (index, a))
      in if a AND 0x1 = 0 then index + 1 else index)"

definition ctzsi2 :: "u32 \<Rightarrow> int" where
  "ctzsi2 a = ffsdi2 a"

section \<open>Byte order\<close>

definition rol_w8 :: "u32 \<Rightarrow> u32" where
  "rol_w8 r = move_w (push_bit 8 (low_word r) OR drop_bit 8 (low_word r)) r"

definition bswap_16 :: "u16 \<Rightarrow> u16" where
  "bswap_16 x = push_bit 8 x OR drop_bit 8 x"

definition bswap_32 :: "u32 \<Rightarrow> u32" where
  "bswap_32 x = rol_w8 (swap_reg (rol_w8 x))"

definition bswap_64 :: "u64 \<Rightarrow> u64" where
  "bswap_64 x = ucast (bswap_32 (ucast (drop_bit 32 x))) OR push_bit 32 (ucast (bswap_32 (ucast (x AND 0xFFFFFFFF))))"

definition htole16 :: "u16 \<Rightarrow> u16" where "htole16 x = bswap_16 x"
definition htole32 :: "u32 \<Rightarrow> u32" where "htole32 x = bswap_32 x"
definition htole64 :: "u64 \<Rightarrow> u64" where "htole64 x = bswap_64 x"
definition le16toh :: "u16 \<Rightarrow> u16" where "le16toh x = bswap_16 x"
definition le32toh :: "u32 \<Rightarrow> u32" where "le32toh x = bswap_32 x"
definition le64toh :: "u64 \<Rightarrow> u64" where "le64toh x = bswap_64 x"

section \<open>Registers as numbers\<close>

lemma low_word_reg [simp]: "low_word (reg hi lo) = lo"
  by (rule bit_word_eqI) (auto simp: low_word_def reg_def bit_simps)

lemma high_word_reg [simp]: "high_word (reg hi lo) = hi"
  by (rule bit_word_eqI) (auto simp: high_word_def reg_def bit_simps dest: bit_imp_le_length)

lemma reg_halves: "reg (high_word r) (low_word r) = r"
  by (rule bit_word_eqI) (auto simp: high_word_def low_word_def reg_def bit_simps)

lemma low_word_0 [simp]: "low_word 0 = 0" and high_word_0 [simp]: "high_word 0 = 0"
  by (simp_all add: low_word_def high_word_def)

lemma unat_low_word: "unat (low_word r) = unat r mod 65536"
  by (simp add: low_word_def unsigned_ucast_eq take_bit_eq_mod)

lemma unat_u16 [simp]: "unat (w :: u16) < 65536"
  using unsigned_less [of w, where ?'a = nat] by simp

lemma unat_u32 [simp]: "unat (w :: u32) < 4294967296"
  using unsigned_less [of w, where ?'a = nat] by simp

lemma unat_high_word: "unat (high_word r) = unat r div 65536"
proof -
  have e: "unat (drop_bit 16 r) = unat r div 65536" by (simp add: drop_bit_eq_div unat_div)
  then have "unat (drop_bit 16 r) < 65536" using unat_u32 [of r] by linarith
  then show ?thesis unfolding high_word_def unsigned_ucast_eq by (simp only: e take_bit_eq_mod) simp
qed

lemma reg_sum: "reg hi lo = ucast hi * 65536 + ucast lo"
proof -
  have "push_bit 16 (ucast hi :: u32) AND ucast lo = 0"
    by (rule bit_word_eqI) (auto simp: bit_simps dest: bit_imp_le_length)
  then have "reg hi lo = push_bit 16 (ucast hi) + ucast lo" by (simp add: reg_def disjunctive_add_eq_or)
  then show ?thesis by (simp add: push_bit_eq_mult)
qed

lemma unat_ucast_u16 [simp]: "unat (ucast (w :: u16) :: u32) = unat w"
proof -
  have "unat w < 4294967296" using unat_u16 [of w] by linarith
  then show ?thesis by (simp add: unsigned_ucast_eq take_bit_eq_mod)
qed

lemma unat_reg: "unat (reg hi lo) = unat hi * 65536 + unat lo"
proof -
  have "unat hi * 65536 + unat lo < 4294967296" using unat_u16 [of hi] unat_u16 [of lo] by linarith
  then show ?thesis by (simp add: reg_sum unat_word_ariths)
qed

lemma two32 [simp]: "(4294967296 :: u32) = 0"
  using word_exp_length_eq_0 [where ?'a = 32] by simp

lemma clr_swap: "clr_w (swap_reg x) = x * 65536"
proof -
  define hi lo :: u32 where "hi = ucast (high_word x)" and "lo = ucast (low_word x)"
  have "x = hi * 65536 + lo" unfolding hi_def lo_def by (metis reg_halves reg_sum)
  then have "x * 65536 = hi * (65536 * 65536) + lo * 65536" by (simp add: algebra_simps)
  then have "x * 65536 = lo * 65536" by simp
  moreover have "clr_w (swap_reg x) = reg (low_word x) 0" by (simp add: clr_w_def move_w_def swap_reg_def)
  ultimately show ?thesis by (simp add: reg_sum lo_def)
qed

section \<open>Multiplication and division are those of the words\<close>

lemma mulsi3_eq: "mulsi3 a b = a * b"
proof -
  define ah al bh bl :: u32 where "ah = ucast (high_word a)" and "al = ucast (low_word a)"
    and "bh = ucast (high_word b)" and "bl = ucast (low_word b)"
  have a: "a = ah * 65536 + al" and b: "b = bh * 65536 + bl"
    unfolding ah_def al_def bh_def bl_def by (metis reg_halves reg_sum)+
  have "mulsi3 a b = al * bl + (ah * bl) * 65536 + (al * bh) * 65536"
    by (simp add: mulsi3_def Let_def mulu_w_def swap_reg_def [of a] swap_reg_def [of b] move_w_def clr_swap
        ah_def al_def bh_def bl_def ac_simps)
  moreover have "a * b = al * bl + (ah * bl) * 65536 + (al * bh) * 65536 + (ah * bh) * (65536 * 65536)"
    unfolding a b by (simp only: distrib_left distrib_right ac_simps)
  ultimately show ?thesis by simp
qed

lemma umulsi3_eq: "umulsi3 a b = a * b"
  using mulsi3_eq by (simp add: umulsi3_def mulsi3_def)

lemma divu_w_nat:
  assumes "unat src < 65536" "src \<noteq> 0" "unat dst div unat src < 65536"
  shows "divu_w src dst = Some (reg (of_nat (unat dst mod unat src)) (of_nat (unat dst div unat src)))"
proof -
  have s: "ucast (low_word src) = src"
    using assms(1) by (intro word_unat_eq_iff [THEN iffD2]) (simp add: unat_low_word)
  have "\<not> dst div src > 65535" using assms(3) by (simp add: word_less_nat_alt unat_div)
  moreover have "ucast (dst mod src) = (of_nat (unat dst mod unat src) :: u16)"
    "ucast (dst div src) = (of_nat (unat dst div unat src) :: u16)"
    by (metis of_nat_unat unat_mod) (metis of_nat_unat unat_div)
  ultimately show ?thesis using assms(2) by (simp add: divu_w_def s Let_def)
qed

lemma swap_clr: "swap_reg (clr_w a) = reg 0 (high_word a)" "clr_w (swap_reg (move_w w r)) = reg w 0"
  "swap_reg (clr_w (swap_reg r)) = reg 0 (low_word r)" "clr_w r = reg (high_word r) 0"
  by (simp_all add: swap_reg_def clr_w_def move_w_def)

lemma reg_add: "reg 0 lo + reg hi 0 = reg hi lo" "reg 0 lo + reg hi 0 = reg hi 0 + reg 0 lo"
  by (simp_all add: reg_sum add.commute)

lemma unat_of_nat_u16: "n < 65536 \<Longrightarrow> unat (of_nat n :: u16) = n"
  by (simp add: unat_of_nat)

lemma long_div:
  assumes "0 < (D::nat)" "X = (H mod D) * 65536 + L"
  shows "(H * 65536 + L) div D = (H div D) * 65536 + X div D" "(H * 65536 + L) mod D = X mod D"
proof -
  define q r where "q = H div D" and "r = H mod D"
  have "H = q * D + r" by (simp add: q_def r_def)
  then have "H * 65536 + L = (r * 65536 + L) + D * (q * 65536)" by (simp add: algebra_simps)
  then have "H * 65536 + L = X + D * (q * 65536)" using assms(2) by (simp only: r_def)
  then have "H * 65536 + L = X + D * ((H div D) * 65536)" by (simp only: q_def)
  then show "(H * 65536 + L) div D = (H div D) * 65536 + X div D" "(H * 65536 + L) mod D = X mod D"
    using assms(1) by simp_all
qed

text \<open>The two steps of the long division, with the quotients and the last remainder.\<close>

lemma div_steps:
  fixes a b :: u32
  assumes b: "b \<noteq> 0" "unat b < 65536"
  defines "H \<equiv> unat a div 65536" and "L \<equiv> unat a mod 65536" and "D \<equiv> unat b"
  defines "X \<equiv> (H mod D) * 65536 + L"
  shows "divu_w (move_w (low_word b) 0) (swap_reg (clr_w a)) = Some (reg (of_nat (H mod D)) (of_nat (H div D)))"
    "divu_w (move_w (low_word b) 0) (move_w (low_word a) 0 + clr_w (reg (of_nat (H mod D)) q)) =
       Some (reg (of_nat (X mod D)) (of_nat (X div D)))"
    "X div D < 65536" "H div D < 65536"
proof -
  have D: "0 < D" "D < 65536" using b unat_gt_0 by (auto simp: D_def)
  have H: "H < 65536" unfolding H_def using unat_u32 [of a] by linarith
  have mv: "move_w (low_word b) 0 = b"
  proof (rule word_unat_eq_iff [THEN iffD2])
    show "unat (move_w (low_word b) 0) = unat b" using b(2) by (simp add: move_w_def unat_reg unat_low_word)
  qed
  have hb: "H div D \<le> H" by simp
  then show hd: "H div D < 65536" using H by linarith
  have u2: "unat (swap_reg (clr_w a)) = H" by (simp add: swap_clr(1) unat_reg unat_high_word H_def)
  show "divu_w (move_w (low_word b) 0) (swap_reg (clr_w a)) = Some (reg (of_nat (H mod D)) (of_nat (H div D)))"
    using divu_w_nat [OF b(2,1), of "swap_reg (clr_w a)"] hd by (simp add: mv u2 D_def)
  have hm: "H mod D < 65536" using D mod_less_divisor [of D H] by linarith
  have "move_w (low_word a) 0 + clr_w (reg (of_nat (H mod D)) q) = reg (of_nat (H mod D)) (low_word a)"
    by (simp add: swap_clr(4) move_w_def reg_add(1))
  then have uX: "unat (move_w (low_word a) 0 + clr_w (reg (of_nat (H mod D)) q)) = X"
    using hm by (simp add: unat_reg unat_of_nat_u16 unat_low_word X_def L_def)
  have "L < 65536" by (simp add: L_def)
  then have "X < (H mod D + 1) * 65536" by (simp add: X_def)
  also have "\<dots> \<le> D * 65536" using mod_less_divisor [OF D(1), of H] by (intro mult_le_mono1) simp
  finally have "X < 65536 * D" by simp
  then show xd: "X div D < 65536" using D(1) by (simp add: div_less_iff_less_mult)
  show "divu_w (move_w (low_word b) 0) (move_w (low_word a) 0 + clr_w (reg (of_nat (H mod D)) q)) =
       Some (reg (of_nat (X mod D)) (of_nat (X div D)))"
    using divu_w_nat [OF b(2,1), of "move_w (low_word a) 0 + clr_w (reg (of_nat (H mod D)) q)"] xd
    by (simp only: mv uX D_def [symmetric])
qed

lemma udivsi3_eq:
  assumes "b \<noteq> 0" "unat b < 65536"
  shows "udivsi3 j a b = Some (a div b)"
proof -
  let ?H = "unat a div 65536" and ?L = "unat a mod 65536" and ?D = "unat b"
  let ?X = "(?H mod ?D) * 65536 + ?L"
  note st = div_steps [OF assms, of a]
  have pos: "0 < ?D" using assms(1) by (simp add: unat_gt_0)
  have "udivsi3 j a b = Some (reg 0 (of_nat (?X div ?D)) + reg (of_nat (?H div ?D)) 0)"
    by (simp add: udivsi3_def Let_def st(1,2) swap_clr(2,3) del: swap_clr(4))
  also have "reg 0 (of_nat (?X div ?D)) + reg (of_nat (?H div ?D)) 0 = reg (of_nat (?H div ?D)) (of_nat (?X div ?D))"
    by (rule reg_add(1))
  also have "\<dots> = a div b"
  proof (rule word_unat_eq_iff [THEN iffD2])
    have "unat (reg (of_nat (?H div ?D)) (of_nat (?X div ?D))) = (?H div ?D) * 65536 + ?X div ?D"
      using st(3,4) by (simp only: unat_reg unat_of_nat_u16)
    also have "\<dots> = (?H * 65536 + ?L) div ?D" by (rule long_div(1) [OF pos refl, symmetric])
    also have "?H * 65536 + ?L = unat a" by (rule div_mult_mod_eq)
    finally show "unat (reg (of_nat (?H div ?D)) (of_nat (?X div ?D))) = unat (a div b)" by (simp only: unat_div)
  qed
  finally show ?thesis .
qed

lemma umodsi3_eq:
  assumes "b \<noteq> 0" "unat b < 65536"
  shows "umodsi3 j a b = Some (reg (high_word j) (low_word (a mod b)))"
proof -
  let ?H = "unat a div 65536" and ?L = "unat a mod 65536" and ?D = "unat b"
  let ?X = "(?H mod ?D) * 65536 + ?L"
  note st = div_steps [OF assms, of a]
  have pos: "0 < ?D" using assms(1) by (simp add: unat_gt_0)
  have "umodsi3 j a b = Some (reg (high_word j) (of_nat (?X mod ?D)))"
    by (simp add: umodsi3_def Let_def st(1,2) move_w_def [of _ j])
      (simp add: swap_reg_def clr_w_def move_w_def)
  moreover have "of_nat (?X mod ?D) = low_word (a mod b)"
  proof (rule word_unat_eq_iff [THEN iffD2])
    have lt: "?X mod ?D < 65536" using mod_less_divisor [OF pos, of ?X] assms(2) by linarith
    have "unat (of_nat (?X mod ?D) :: u16) = ?X mod ?D" by (rule unat_of_nat_u16 [OF lt])
    also have x: "\<dots> = (?H * 65536 + ?L) mod ?D" by (rule long_div(2) [OF pos refl, symmetric])
    also have "?H * 65536 + ?L = unat a" by (rule div_mult_mod_eq)
    finally have "unat (of_nat (?X mod ?D) :: u16) = unat (a mod b)" by (simp only: unat_mod)
    moreover have "unat (a mod b) < 65536"
      using mod_less_divisor [OF pos, of "unat a"] assms(2) by (simp add: unat_mod)
    ultimately show "unat (of_nat (?X mod ?D) :: u16) = unat (low_word (a mod b))" by (simp add: unat_low_word)
  qed
  ultimately show ?thesis by simp
qed



text \<open>With a larger divisor only its lower half is used.\<close>

lemma udivsi3_large: "udivsi3 0 131072 65537 = Some 131072"
proof -
  have "low_word 65537 = low_word 1" by (simp add: low_word_def)
  then have "udivsi3 0 131072 65537 = udivsi3 0 131072 1" by (simp add: udivsi3_def)
  then show ?thesis using udivsi3_eq [of 1 0 131072] by simp
qed

text \<open>The upper half of a remainder is what the register held before.\<close>

lemma umodsi3_junk: "umodsi3 0xABCD0000 5 3 = Some 0xABCD0002"
  using umodsi3_eq [of 3 "0xABCD0000" 5] by (simp add: high_word_def low_word_def reg_def drop_bit_eq_div push_bit_eq_mult)

section \<open>Counting zeros\<close>

lemma and_upper_mask: "a AND NOT (mask n) = 0 \<longleftrightarrow> unat a < 2 ^ n" for a :: u32
proof -
  have "a AND NOT (mask n) = 0 \<longleftrightarrow> take_bit n a = a"
    by (auto simp: bit_eq_iff bit_simps)
  also have "\<dots> \<longleftrightarrow> take_bit n (unat a) = unat a"
    by (simp add: word_unat_eq_iff unsigned_take_bit_eq)
  also have "\<dots> \<longleftrightarrow> unat a < 2 ^ n" by (rule take_bit_nat_eq_self_iff)
  finally show ?thesis .
qed

lemma upper_masks:
  "0xFFFF0000 = (NOT (mask 16) :: u32)" "0xFF000000 = (NOT (mask 24) :: u32)"
  "0xF0000000 = (NOT (mask 28) :: u32)" "0xC0000000 = (NOT (mask 30) :: u32)"
  "0x80000000 = (NOT (mask 31) :: u32)"
  by (simp_all add: mask_eq_exp_minus_1)

lemma unat_push_bit_small:
  fixes a :: u32
  assumes "unat a < 2 ^ n" "n + k = 32"
  shows "unat (push_bit k a) = unat a * 2 ^ k"
proof -
  have "unat a * 2 ^ k < 2 ^ n * 2 ^ k" using assms(1) by simp
  also have "\<dots> = 2 ^ 32" using assms(2) by (simp only: power_add [symmetric])
  finally have "take_bit 32 (push_bit k (unat a)) = unat a * 2 ^ k"
    by (simp add: take_bit_eq_mod push_bit_eq_mult)
  then show ?thesis by (simp add: unsigned_push_bit_eq)
qed

text \<open>One halving step: it keeps the number, shifted by what has been counted, and narrows its range.\<close>

definition clz_narrowed :: "u32 \<Rightarrow> nat \<Rightarrow> int \<times> u32 \<Rightarrow> bool" where
  "clz_narrowed a n s \<longleftrightarrow>
     fst s \<le> 32 \<and> fst s \<ge> int n \<and> unat (snd s) = unat a * 2 ^ nat (32 - fst s) \<and> unat (snd s) \<ge> 2 ^ (32 - n)"

lemma clz_step:
  assumes "clz_narrowed a n s" "n = 2 * k" "k \<le> 16" "m = 32 - k"
  shows "clz_narrowed a k (if snd s AND NOT (mask m) = 0 then (fst s - int k, push_bit k (snd s)) else s)"
proof -
  obtain i b where s: "s = (i, b)" by (cases s)
  have km: "m + k = 32" using assms by simp
  have inv: "i \<le> 32" "i \<ge> 2 * int k" "unat b = unat a * 2 ^ nat (32 - i)" "unat b \<ge> 2 ^ (32 - 2 * k)"
    using assms(1,2) by (simp_all add: s clz_narrowed_def)
  show ?thesis
  proof (cases "unat b < 2 ^ m")
    case True
    have "unat (push_bit k b) = unat b * 2 ^ k" by (rule unat_push_bit_small [OF True km])
    moreover have "nat (32 - (i - int k)) = nat (32 - i) + k" using inv(1) by simp
    moreover have "2 ^ (32 - k) \<le> unat b * 2 ^ k"
    proof -
      have "(2 :: nat) ^ (32 - k) = 2 ^ (32 - 2 * k) * 2 ^ k" using assms(3) by (simp flip: power_add)
      then show ?thesis using inv(4) by simp
    qed
    ultimately show ?thesis using True inv
      by (simp add: s clz_narrowed_def and_upper_mask power_add)
  next
    case False
    then show ?thesis using inv assms(4) by (simp add: s clz_narrowed_def and_upper_mask)
  qed
qed

lemma fst_if: "(if c then x else fst s) = fst (if c then (x, y) else s)"
  by simp

lemma diff_nat_masks: "32 - 16 = (16 :: nat)" "32 - 8 = (24 :: nat)" "32 - 4 = (28 :: nat)" "32 - 2 = (30 :: nat)" "32 - 1 = (31 :: nat)"
  by simp_all

lemma clzsi2_steps:
  "clzsi2 a = 32 -
     fst (let s = (32, a); f = (\<lambda>k s. if snd s AND NOT (mask (32 - k)) = 0 then (fst s - int k, push_bit k (snd s)) else s)
          in f 1 (f 2 (f 4 (f 8 (f 16 s)))))"
  by (simp only: clzsi2_def upper_masks Let_def case_prod_beta fst_conv snd_conv prod.collapse of_nat_numeral
        of_nat_1 diff_nat_masks)
    (rule arg_cong [OF fst_if])

lemma clzsi2_spec:
  assumes "a \<noteq> 0"
  shows "0 \<le> clzsi2 a" "clzsi2 a \<le> 31" "2 ^ 31 \<le> unat a * 2 ^ nat (clzsi2 a)" "unat a * 2 ^ nat (clzsi2 a) < 2 ^ 32"
proof -
  define f where "f = (\<lambda>k s. if snd s AND NOT (mask (32 - k)) = 0 then (fst s - int k, push_bit k (snd s)) else s :: int \<times> u32)"
  define s where "s = f 1 (f 2 (f 4 (f 8 (f 16 (32, a)))))"
  have st: "clz_narrowed a k (f k t)" if "clz_narrowed a (2 * k) t" "k \<le> 16" for k t
    unfolding f_def by (rule clz_step [OF that(1) refl that(2) refl])
  have "clz_narrowed a 32 (32, a)" using assms by (simp add: clz_narrowed_def Suc_le_eq unat_gt_0)
  then have "clz_narrowed a 16 (f 16 (32, a))" by (intro st) simp_all
  then have "clz_narrowed a 8 (f 8 (f 16 (32, a)))" by (intro st) simp_all
  then have "clz_narrowed a 4 (f 4 (f 8 (f 16 (32, a))))" by (intro st) simp_all
  then have "clz_narrowed a 2 (f 2 (f 4 (f 8 (f 16 (32, a)))))" by (intro st) simp_all
  then have "clz_narrowed a 1 s" unfolding s_def by (intro st) simp_all
  moreover have "clzsi2 a = 32 - fst s" unfolding clzsi2_steps s_def f_def Let_def by simp
  moreover have "unat (snd s) < 2 ^ 32" using unsigned_less [of "snd s", where ?'a = nat] by simp
  ultimately show "0 \<le> clzsi2 a" "clzsi2 a \<le> 31" "2 ^ 31 \<le> unat a * 2 ^ nat (clzsi2 a)" "unat a * 2 ^ nat (clzsi2 a) < 2 ^ 32"
    by (simp_all add: clz_narrowed_def)
qed

text \<open>Counting from the other end.\<close>

lemma and_lower_mask: "a AND mask k = 0 \<longleftrightarrow> 2 ^ k dvd unat a" for a :: u32
proof -
  have "a AND mask k = 0 \<longleftrightarrow> take_bit k (unat a) = 0"
    by (simp add: word_unat_eq_iff unsigned_take_bit_eq flip: take_bit_eq_mask)
  then show ?thesis by (simp add: take_bit_eq_0_iff)
qed

lemma lower_masks:
  "0xffff = (mask 16 :: u32)" "0xff = (mask 8 :: u32)" "0xf = (mask 4 :: u32)" "0x3 = (mask 2 :: u32)" "0x1 = (mask 1 :: u32)"
  by (simp_all add: mask_eq_exp_minus_1)

definition ctz_narrowed :: "u32 \<Rightarrow> nat \<Rightarrow> int \<times> u32 \<Rightarrow> bool" where
  "ctz_narrowed a n s \<longleftrightarrow>
     0 \<le> fst s \<and> fst s \<le> 32 - int n \<and> unat a = unat (snd s) * 2 ^ nat (fst s) \<and> \<not> 2 ^ n dvd unat (snd s)"

lemma ctz_step:
  assumes "ctz_narrowed a (2 * k) s"
  shows "ctz_narrowed a k (if snd s AND mask k = 0 then (fst s + int k, drop_bit k (snd s)) else s)"
proof -
  obtain i b where s: "s = (i, b)" by (cases s)
  have inv: "0 \<le> i" "i \<le> 32 - 2 * int k" "unat a = unat b * 2 ^ nat i" "\<not> 2 ^ (2 * k) dvd unat b"
    using assms by (simp_all add: s ctz_narrowed_def)
  show ?thesis
  proof (cases "2 ^ k dvd unat b")
    case True
    then obtain c where c: "unat b = 2 ^ k * c" ..
    have "drop_bit k (unat b) = c" using c by (simp add: drop_bit_eq_div)
    moreover have "take_bit 32 (unat b) = unat b"
      using unsigned_less [of b, where ?'a = nat] by (simp add: take_bit_nat_eq_self)
    ultimately have "unat (drop_bit k b) = c" by (simp add: unsigned_drop_bit_eq)
    moreover have "nat (i + int k) = nat i + k" using inv(1) by (simp add: nat_add_distrib)
    moreover have "\<not> 2 ^ k dvd c" using inv(4) c by (auto simp: mult_2 power_add)
    ultimately show ?thesis using True inv c by (simp add: s ctz_narrowed_def and_lower_mask power_add)
  next
    case False
    then show ?thesis using inv by (simp add: s ctz_narrowed_def and_lower_mask)
  qed
qed

lemma ffsdi2_steps:
  "ffsdi2 a =
     fst (let s = (0, a); f = (\<lambda>k s. if snd s AND mask k = 0 then (fst s + int k, drop_bit k (snd s)) else s)
          in f 1 (f 2 (f 4 (f 8 (f 16 s)))))"
  by (simp only: ffsdi2_def lower_masks Let_def case_prod_beta fst_conv snd_conv prod.collapse of_nat_numeral of_nat_1)
    (rule fst_if)

lemma ctzsi2_spec:
  assumes "a \<noteq> 0"
  shows "0 \<le> ctzsi2 a" "ctzsi2 a \<le> 31" "2 ^ nat (ctzsi2 a) dvd unat a" "odd (unat a div 2 ^ nat (ctzsi2 a))"
proof -
  define f where "f = (\<lambda>k s. if snd s AND mask k = 0 then (fst s + int k, drop_bit k (snd s)) else s :: int \<times> u32)"
  define s where "s = f 1 (f 2 (f 4 (f 8 (f 16 (0, a)))))"
  have st: "ctz_narrowed a k (f k t)" if "ctz_narrowed a (2 * k) t" for k t
    unfolding f_def by (rule ctz_step [OF that])
  have "unat a < 2 ^ 32" using unsigned_less [of a, where ?'a = nat] by simp
  moreover have "0 < unat a" using assms by (simp add: unat_gt_0)
  ultimately have "\<not> 2 ^ 32 dvd unat a" by (intro nat_dvd_not_less)
  then have "ctz_narrowed a 32 (0, a)" by (simp add: ctz_narrowed_def)
  then have "ctz_narrowed a 16 (f 16 (0, a))" by (intro st) simp
  then have "ctz_narrowed a 8 (f 8 (f 16 (0, a)))" by (intro st) simp
  then have "ctz_narrowed a 4 (f 4 (f 8 (f 16 (0, a))))" by (intro st) simp
  then have "ctz_narrowed a 2 (f 2 (f 4 (f 8 (f 16 (0, a)))))" by (intro st) simp
  then have "ctz_narrowed a 1 s" unfolding s_def by (intro st) simp
  moreover have "ctzsi2 a = fst s" unfolding ctzsi2_def ffsdi2_steps s_def f_def Let_def by simp
  ultimately show "0 \<le> ctzsi2 a" "ctzsi2 a \<le> 31" "2 ^ nat (ctzsi2 a) dvd unat a" "odd (unat a div 2 ^ nat (ctzsi2 a))"
    by (simp_all add: ctz_narrowed_def)
qed

text \<open>
  C20. For every nonzero word the two bit counting routines return a number from 0 to 31: shifting the
  word left by the first brings its highest bit to the top without losing it, and the second is the
  exponent of the greatest power of two that divides the word.
\<close>

theorem zero_counts_bounds:
  assumes "a \<noteq> 0"
  shows "clzsi2 a \<in> {0..31} \<and> unat a * 2 ^ nat (clzsi2 a) \<in> {2 ^ 31..<2 ^ 32} \<and>
    ctzsi2 a \<in> {0..31} \<and> 2 ^ nat (ctzsi2 a) dvd unat a \<and> odd (unat a div 2 ^ nat (ctzsi2 a))"
  using clzsi2_spec [OF assms] ctzsi2_spec [OF assms] by simp_all

theorem zero_counts_bounds_witness:
  "clzsi2 40 = 26 \<and> ctzsi2 40 = 3 \<and> unat (40 :: u32) * 2 ^ nat (clzsi2 40) \<in> {2 ^ 31..<2 ^ 32} \<and>
   odd (unat (40 :: u32) div 2 ^ nat (ctzsi2 40))"
  using zero_counts_bounds [of 40] by (simp add: clzsi2_def ctzsi2_def ffsdi2_def)

text \<open>Of zero they make 31, and the routine named after \<^verbatim>\<open>ffs\<close> does not count from one.\<close>

lemma zero_counts_zero: "clzsi2 0 = 31" "ctzsi2 0 = 31" "ffsdi2 1 = 0"
  by (simp_all add: clzsi2_def ctzsi2_def ffsdi2_def)

section \<open>Byte swapping\<close>

lemma bswap_16_twice [simp]: "bswap_16 (bswap_16 x) = x"
  by (rule bit_word_eqI) (auto simp: bswap_16_def bit_simps dest: bit_imp_le_length)

lemma bswap_32_reg: "bswap_32 (reg hi lo) = reg (bswap_16 lo) (bswap_16 hi)"
  by (simp add: bswap_32_def rol_w8_def swap_reg_def move_w_def bswap_16_def)

lemma bswap_32_twice [simp]: "bswap_32 (bswap_32 x) = x"
  by (subst (1 2) reg_halves [of x, symmetric]) (simp only: bswap_32_reg bswap_16_twice)

lemma u64_halves:
  fixes h l :: u32 and x :: u64
  shows "ucast (drop_bit 32 (ucast h OR push_bit 32 (ucast l) :: u64)) = l"
    and "ucast ((ucast h OR push_bit 32 (ucast l) :: u64) AND mask 32) = h"
    and "ucast (ucast (x AND mask 32) :: u32) OR push_bit 32 (ucast (ucast (drop_bit 32 x) :: u32)) = x"
  by (auto simp: bit_eq_iff bit_simps dest: bit_imp_le_length)

lemma bswap_64_twice [simp]: "bswap_64 (bswap_64 x) = x"
proof -
  have "(0xFFFFFFFF :: u64) = mask 32" by (simp add: mask_eq_exp_minus_1)
  then show ?thesis unfolding bswap_64_def by (simp only: u64_halves bswap_32_twice)
qed

text \<open>
  Converting a 16, 32 or 64 bit value to little endian and back gives the value again.
\<close>

theorem endian_roundtrip:
  "le16toh (htole16 a) = a \<and> le32toh (htole32 b) = b \<and> le64toh (htole64 c) = c"
  by (simp add: le16toh_def htole16_def le32toh_def htole32_def le64toh_def htole64_def)

end
