(* ===== verification/Devices.thy ===== *)
theory Devices
  imports Files Iovec Libc_Builtins
begin

text \<open>
  Devices: the table of drivers (\<^verbatim>\<open>src/kernel/drivers.c\<close>), the memory disk (\<^verbatim>\<open>src/kernel/drivers/block/mem.c\<close>), device
  files (\<^verbatim>\<open>src/kernel/fs/device.c\<close>), the partition table (\<^verbatim>\<open>src/kernel/fs/partition/msdos.c\<close>) and the check of access
  rights (\<^verbatim>\<open>src/kernel/fs/access.c\<close>).
  A driver is a number, 0 being \<^verbatim>\<open>NULL\<close>, and an argument gives the functions of each number; a missing function is
  \<open>None\<close>. Drivers act on a state that extends that of the open files by the driver table, the geometry of the memory
  disks and the physical memory. The call of a missing function and accesses outside of tables are \<open>None\<close>.
  The locale \<open>block_device\<close> is what the block cache relies on; the memory disk, reached through the driver table, is
  shown to satisfy it.
\<close>

section \<open>Device numbers and drivers\<close>

definition DEVMAJOR :: "int \<Rightarrow> u8" where "DEVMAJOR dev = word_of_int (drop_bit 8 dev)"
definition DEVMINOR :: "int \<Rightarrow> u8" where "DEVMINOR dev = word_of_int (dev AND 0xFF)"
definition DEVMAJOR_MEM :: u8 where "DEVMAJOR_MEM = 3"
definition MAX_DRIVERS :: nat where "MAX_DRIVERS = 6"
definition MAX_DEVICES :: nat where "MAX_DEVICES = 1"

record 's driver =
  dr_init :: "('s \<Rightarrow> 's \<times> int) option"
  dr_open :: "(u8 \<Rightarrow> int \<Rightarrow> 's \<Rightarrow> 's \<times> int) option"
  dr_close :: "(u8 \<Rightarrow> 's \<Rightarrow> 's \<times> int) option"
  dr_read :: "(u8 \<Rightarrow> nat \<Rightarrow> iovec_iter \<Rightarrow> 's \<Rightarrow> ('s \<times> iovec_iter \<times> int) option) option"
  dr_write :: "(u8 \<Rightarrow> nat \<Rightarrow> iovec_iter \<Rightarrow> 's \<Rightarrow> ('s \<times> iovec_iter \<times> int) option) option"
  dr_ioctl :: "(u8 \<Rightarrow> u32 \<Rightarrow> iovec_iter \<Rightarrow> u16 \<Rightarrow> 's \<Rightarrow> 's \<times> iovec_iter \<times> int) option"
  dr_poll :: "(u8 \<Rightarrow> u32 \<Rightarrow> 's \<Rightarrow> 's \<times> int) option"
  dr_seek :: "(u8 \<Rightarrow> nat \<Rightarrow> whence \<Rightarrow> nat \<Rightarrow> 's \<Rightarrow> ('s \<times> nat) option) option"

record mem_geometry =
  geo_base :: nat
  geo_size :: nat

record dev_state = fs_state +
  drv_table :: "nat list"
  mem_num_devices :: int
  mem_devices :: "mem_geometry list"
  phys_mem :: "nat \<Rightarrow> u8"

definition init_drivers :: "'a dev_state_scheme \<Rightarrow> 'a dev_state_scheme" where
  "init_drivers s = s\<lparr>drv_table := replicate MAX_DRIVERS 0\<rparr>"

definition register_driver :: "(nat \<Rightarrow> 'a dev_state_scheme driver) \<Rightarrow> u8 \<Rightarrow> nat \<Rightarrow> 'a dev_state_scheme \<Rightarrow> 'a dev_state_scheme \<times> int" where
  "register_driver drv major driver s =
     (if unat major \<ge> MAX_DRIVERS then (s, -1)
      else if drv_table s ! unat major \<noteq> 0 then (s, -1)
      else let d = drv driver
           in if dr_init d = None \<or> dr_open d = None \<or> dr_close d = None \<or> dr_read d = None \<or> dr_write d = None \<or>
                 dr_ioctl d = None \<or> dr_poll d = None \<or> dr_seek d = None
              then (s, -1)
              else (s\<lparr>drv_table := (drv_table s)[unat major := driver]\<rparr>, 0))"

definition get_driver :: "u8 \<Rightarrow> 'a dev_state_scheme \<Rightarrow> nat" where
  "get_driver major s = (if unat major \<ge> MAX_DRIVERS then 0 else drv_table s ! unat major)"

text \<open>The test that opens every function on devices; \<open>None\<close> is the answer \<^verbatim>\<open>ENXIO\<close>.\<close>

definition dev_driver :: "(nat \<Rightarrow> 'a dev_state_scheme driver) \<Rightarrow> int \<Rightarrow> 'a dev_state_scheme \<Rightarrow> 'a dev_state_scheme driver option" where
  "dev_driver drv dev s =
     (if unat (DEVMAJOR dev) \<ge> MAX_DRIVERS \<or> drv_table s ! unat (DEVMAJOR dev) = 0 then None
      else Some (drv (drv_table s ! unat (DEVMAJOR dev))))"

definition dev_open :: "(nat \<Rightarrow> 'a dev_state_scheme driver) \<Rightarrow> int \<Rightarrow> int \<Rightarrow> 'a dev_state_scheme \<Rightarrow> ('a dev_state_scheme \<times> int) option" where
  "dev_open drv dev access s =
     (case dev_driver drv dev s of None \<Rightarrow> Some (s, ENXIO)
      | Some d \<Rightarrow> map_option (\<lambda>f. f (DEVMINOR dev) access s) (dr_open d))"

definition dev_close :: "(nat \<Rightarrow> 'a dev_state_scheme driver) \<Rightarrow> int \<Rightarrow> 'a dev_state_scheme \<Rightarrow> ('a dev_state_scheme \<times> int) option" where
  "dev_close drv dev s =
     (case dev_driver drv dev s of None \<Rightarrow> Some (s, ENXIO)
      | Some d \<Rightarrow> map_option (\<lambda>f. f (DEVMINOR dev) s) (dr_close d))"

definition dev_read ::
    "(nat \<Rightarrow> 'a dev_state_scheme driver) \<Rightarrow> int \<Rightarrow> nat \<Rightarrow> iovec_iter \<Rightarrow> 'a dev_state_scheme \<Rightarrow> ('a dev_state_scheme \<times> iovec_iter \<times> int) option" where
  "dev_read drv dev offset iter s =
     (case dev_driver drv dev s of None \<Rightarrow> Some (s, iter, ENXIO)
      | Some d \<Rightarrow> dr_read d \<bind> (\<lambda>f. f (DEVMINOR dev) offset iter s))"

definition dev_write ::
    "(nat \<Rightarrow> 'a dev_state_scheme driver) \<Rightarrow> int \<Rightarrow> nat \<Rightarrow> iovec_iter \<Rightarrow> 'a dev_state_scheme \<Rightarrow> ('a dev_state_scheme \<times> iovec_iter \<times> int) option" where
  "dev_write drv dev offset iter s =
     (case dev_driver drv dev s of None \<Rightarrow> Some (s, iter, ENXIO)
      | Some d \<Rightarrow> dr_write d \<bind> (\<lambda>f. f (DEVMINOR dev) offset iter s))"

definition dev_ioctl ::
    "(nat \<Rightarrow> 'a dev_state_scheme driver) \<Rightarrow> int \<Rightarrow> u32 \<Rightarrow> iovec_iter \<Rightarrow> u16 \<Rightarrow> 'a dev_state_scheme \<Rightarrow> ('a dev_state_scheme \<times> iovec_iter \<times> int) option" where
  "dev_ioctl drv dev request iter uid s =
     (case dev_driver drv dev s of None \<Rightarrow> Some (s, iter, ENXIO)
      | Some d \<Rightarrow> map_option (\<lambda>f. f (DEVMINOR dev) request iter uid s) (dr_ioctl d))"

definition dev_poll :: "(nat \<Rightarrow> 'a dev_state_scheme driver) \<Rightarrow> int \<Rightarrow> u32 \<Rightarrow> 'a dev_state_scheme \<Rightarrow> ('a dev_state_scheme \<times> int) option" where
  "dev_poll drv dev events s =
     (case dev_driver drv dev s of None \<Rightarrow> Some (s, ENXIO)
      | Some d \<Rightarrow> map_option (\<lambda>f. f (DEVMINOR dev) events s) (dr_poll d))"

text \<open>The error number is returned as an unsigned \<^verbatim>\<open>offset_t\<close>.\<close>

definition dev_seek ::
    "(nat \<Rightarrow> 'a dev_state_scheme driver) \<Rightarrow> int \<Rightarrow> nat \<Rightarrow> whence \<Rightarrow> nat \<Rightarrow> 'a dev_state_scheme \<Rightarrow> ('a dev_state_scheme \<times> nat) option" where
  "dev_seek drv dev position whence offset s =
     (case dev_driver drv dev s of None \<Rightarrow> Some (s, to_size ENXIO)
      | Some d \<Rightarrow> dr_seek d \<bind> (\<lambda>f. f (DEVMINOR dev) position whence offset s))"

section \<open>Device files\<close>

definition device_ops_open :: "(nat \<Rightarrow> 'a dev_state_scheme driver) \<Rightarrow> nat \<Rightarrow> int \<Rightarrow> 'a dev_state_scheme \<Rightarrow> ('a dev_state_scheme \<times> int) option" where
  "device_ops_open drv file flags s = dev_open drv (vn_rdev (fs_vnodes s (vf_vnode (fs_file_table s file)))) flags s"

definition device_ops_close :: "(nat \<Rightarrow> 'a dev_state_scheme driver) \<Rightarrow> nat \<Rightarrow> 'a dev_state_scheme \<Rightarrow> ('a dev_state_scheme \<times> int) option" where
  "device_ops_close drv file s = dev_close drv (vn_rdev (fs_vnodes s (vf_vnode (fs_file_table s file)))) s"

definition device_ops_read ::
    "(nat \<Rightarrow> 'a dev_state_scheme driver) \<Rightarrow> nat \<Rightarrow> iovec_iter \<Rightarrow> 'a dev_state_scheme \<Rightarrow> ('a dev_state_scheme \<times> iovec_iter \<times> int) option" where
  "device_ops_read drv file iter s = do {
     (s, iter, nbytes) \<leftarrow> dev_read drv (vn_rdev (fs_vnodes s (vf_vnode (fs_file_table s file)))) (vf_position (fs_file_table s file)) iter s;
     Some (if nbytes < 0 then (s, iter, nbytes)
           else (upd_file file (\<lambda>x. x\<lparr>vf_position := add32 (vf_position x) (to_size nbytes)\<rparr>) s, iter, nbytes)) }"

definition device_ops_write ::
    "(nat \<Rightarrow> 'a dev_state_scheme driver) \<Rightarrow> nat \<Rightarrow> iovec_iter \<Rightarrow> 'a dev_state_scheme \<Rightarrow> ('a dev_state_scheme \<times> iovec_iter \<times> int) option" where
  "device_ops_write drv file iter s = do {
     (s, iter, nbytes) \<leftarrow> dev_write drv (vn_rdev (fs_vnodes s (vf_vnode (fs_file_table s file)))) (vf_position (fs_file_table s file)) iter s;
     Some (if nbytes < 0 then (s, iter, nbytes)
           else (upd_file file (\<lambda>x. x\<lparr>vf_position := add32 (vf_position x) (to_size nbytes)\<rparr>) s, iter, nbytes)) }"

definition device_ops_ioctl ::
    "(nat \<Rightarrow> 'a dev_state_scheme driver) \<Rightarrow> nat \<Rightarrow> u32 \<Rightarrow> iovec_iter \<Rightarrow> u16 \<Rightarrow> 'a dev_state_scheme \<Rightarrow> ('a dev_state_scheme \<times> iovec_iter \<times> int) option" where
  "device_ops_ioctl drv file request iter uid s =
     dev_ioctl drv (vn_rdev (fs_vnodes s (vf_vnode (fs_file_table s file)))) request iter uid s"

definition device_ops_poll :: "(nat \<Rightarrow> 'a dev_state_scheme driver) \<Rightarrow> nat \<Rightarrow> u32 \<Rightarrow> 'a dev_state_scheme \<Rightarrow> ('a dev_state_scheme \<times> int) option" where
  "device_ops_poll drv file events s = dev_poll drv (vn_rdev (fs_vnodes s (vf_vnode (fs_file_table s file)))) events s"

definition device_ops_seek ::
    "(nat \<Rightarrow> 'a dev_state_scheme driver) \<Rightarrow> nat \<Rightarrow> nat \<Rightarrow> whence \<Rightarrow> 'a dev_state_scheme \<Rightarrow> ('a dev_state_scheme \<times> nat) option" where
  "device_ops_seek drv file position whence s = do {
     (s, r) \<leftarrow> dev_seek drv (vn_rdev (fs_vnodes s (vf_vnode (fs_file_table s file)))) position whence (vf_position (fs_file_table s file)) s;
     let pos = to_int (int r);
     Some (if pos < 0 then (s, to_size pos) else (upd_file file (\<lambda>x. x\<lparr>vf_position := to_size pos\<rparr>) s, to_size pos)) }"

section \<open>The memory disk\<close>

definition mem_add_geometry :: "nat \<Rightarrow> nat \<Rightarrow> 'a dev_state_scheme \<Rightarrow> 'a dev_state_scheme \<times> int" where
  "mem_add_geometry base size' s =
     (if mem_num_devices s \<ge> int MAX_DEVICES then (s, EINVAL)
      else (s\<lparr>mem_devices := (mem_devices s)[nat (mem_num_devices s) := \<lparr>geo_base = base, geo_size = size'\<rparr>],
              mem_num_devices := mem_num_devices s + 1\<rparr>, 0))"

text \<open>\<open>driver\<close> is the number of \<^verbatim>\<open>mem_driver\<close>, \<open>base\<close> and \<open>size'\<close> are \<^verbatim>\<open>MEMDISK0_START\<close> and \<^verbatim>\<open>CONFIG_MEMDISK0_SIZE\<close>.\<close>

definition mem_init :: "(nat \<Rightarrow> 'a dev_state_scheme driver) \<Rightarrow> nat \<Rightarrow> nat \<Rightarrow> nat \<Rightarrow> 'a dev_state_scheme \<Rightarrow> 'a dev_state_scheme \<times> int" where
  "mem_init drv driver base size' s =
     (let (s, error) = mem_add_geometry base size' (s\<lparr>mem_num_devices := 0\<rparr>)
      in if error < 0 then (s, error)
         else let (s, error) = register_driver drv DEVMAJOR_MEM driver s
              in if error < 0 then (s, error) else (s, 0))"

definition mem_open :: "u8 \<Rightarrow> int \<Rightarrow> 'a dev_state_scheme \<Rightarrow> 'a dev_state_scheme \<times> int" where
  "mem_open minor access s = (if uint minor \<ge> mem_num_devices s then (s, ENXIO) else (s, 0))"

definition mem_close :: "u8 \<Rightarrow> 'a dev_state_scheme \<Rightarrow> 'a dev_state_scheme \<times> int" where
  "mem_close minor s = (if uint minor \<ge> mem_num_devices s then (s, ENXIO) else (s, 0))"

definition mem_bytes :: "nat \<Rightarrow> nat \<Rightarrow> 'a dev_state_scheme \<Rightarrow> u8 list" where
  "mem_bytes a n s = map (phys_mem s) [a..<a + n]"

definition mem_store :: "nat \<Rightarrow> u8 list \<Rightarrow> 'a dev_state_scheme \<Rightarrow> 'a dev_state_scheme" where
  "mem_store a bs s = s\<lparr>phys_mem := (\<lambda>x. if a \<le> x \<and> x < a + length bs then bs ! (x - a) else phys_mem s x)\<rparr>"

definition mem_read :: "u8 \<Rightarrow> nat \<Rightarrow> iovec_iter \<Rightarrow> 'a dev_state_scheme \<Rightarrow> ('a dev_state_scheme \<times> iovec_iter \<times> int) option" where
  "mem_read minor offset iter s =
     (if uint minor \<ge> mem_num_devices s then Some (s, iter, ENXIO)
      else if unat minor \<ge> length (mem_devices s) then None
      else let size' = iovec_iter_remaining iter; geo = mem_devices s ! unat minor
           in if offset > geo_size geo then Some (s, iter, EINVAL)
              else let size' = (if add32 offset size' > geo_size geo then sub32 (geo_size geo) offset else size');
                       (iter, _) = memcpy_into_iter iter (mem_bytes (geo_base geo + offset) size' s) size'
                   in Some (s, iter, to_int (int size')))"

definition mem_write :: "u8 \<Rightarrow> nat \<Rightarrow> iovec_iter \<Rightarrow> 'a dev_state_scheme \<Rightarrow> ('a dev_state_scheme \<times> iovec_iter \<times> int) option" where
  "mem_write minor offset iter s =
     (if uint minor \<ge> mem_num_devices s then Some (s, iter, ENXIO)
      else if unat minor \<ge> length (mem_devices s) then None
      else let size' = iovec_iter_remaining iter; geo = mem_devices s ! unat minor
           in if offset > geo_size geo then Some (s, iter, EINVAL)
              else let size' = (if add32 offset size' > geo_size geo then sub32 (geo_size geo) offset else size');
                       (iter, dest, _) = memcpy_out_of_iter iter (mem_bytes (geo_base geo + offset) size' s) size'
                   in Some (mem_store (geo_base geo + offset) dest s, iter, to_int (int size')))"

definition mem_ioctl :: "u8 \<Rightarrow> u32 \<Rightarrow> iovec_iter \<Rightarrow> u16 \<Rightarrow> 'a dev_state_scheme \<Rightarrow> 'a dev_state_scheme \<times> iovec_iter \<times> int" where
  "mem_ioctl minor request iter uid s = (if uint minor \<ge> mem_num_devices s then (s, iter, ENXIO) else (s, iter, EINVAL))"

definition mem_poll :: "u8 \<Rightarrow> u32 \<Rightarrow> 'a dev_state_scheme \<Rightarrow> 'a dev_state_scheme \<times> int" where
  "mem_poll minor events s = (s, uint (events AND (0x01 OR 0x02)))"

definition mem_seek :: "u8 \<Rightarrow> nat \<Rightarrow> whence \<Rightarrow> nat \<Rightarrow> 'a dev_state_scheme \<Rightarrow> ('a dev_state_scheme \<times> nat) option" where
  "mem_seek minor position whence offset s =
     (if uint minor \<ge> mem_num_devices s then Some (s, to_size ENXIO)
      else if unat minor \<ge> length (mem_devices s) then None
      else let geo = mem_devices s ! unat minor;
               position = (case whence of SEEK_SET \<Rightarrow> Some position | SEEK_CUR \<Rightarrow> Some (add32 offset position)
                           | SEEK_END \<Rightarrow> Some (add32 (geo_size geo) position) | SEEK_OTHER \<Rightarrow> None)
           in Some (case position of None \<Rightarrow> (s, to_size EINVAL)
                    | Some p \<Rightarrow> (s, if p > geo_size geo then geo_size geo else p)))"

text \<open>The argument is the function \<^verbatim>\<open>mem_init\<close> of the configured disk.\<close>

definition mem_driver :: "('a dev_state_scheme \<Rightarrow> 'a dev_state_scheme \<times> int) \<Rightarrow> 'a dev_state_scheme driver" where
  "mem_driver init =
     \<lparr>dr_init = Some init, dr_open = Some mem_open, dr_close = Some mem_close, dr_read = Some mem_read,
      dr_write = Some mem_write, dr_ioctl = Some mem_ioctl, dr_poll = Some mem_poll, dr_seek = Some mem_seek\<rparr>"

section \<open>Partitions and access rights\<close>

record partition =
  part_base :: u32
  part_size :: u32
  part_fstype :: u8
  part_flags :: u8

text \<open>A 32 bit field of the buffer, in the byte order of the processor.\<close>

definition buffer_u32 :: "u8 list \<Rightarrow> nat \<Rightarrow> u32" where
  "buffer_u32 buffer i = word_rcat [buffer ! i, buffer ! (i + 1), buffer ! (i + 2), buffer ! (i + 3)]"

definition read_partition_entry :: "u8 list \<Rightarrow> nat \<Rightarrow> partition" where
  "read_partition_entry buffer i =
     (let t = 0x1BE + 16 * i
      in \<lparr>part_base = le32toh (buffer_u32 buffer (t + 8)), part_size = le32toh (buffer_u32 buffer (t + 12)),
          part_fstype = buffer ! (t + 4), part_flags = buffer ! t\<rparr>)"

definition read_partition_table :: "u8 list \<Rightarrow> (partition list \<times> int) option" where
  "read_partition_table buffer =
     (if length buffer < 0x1BE + 64 then None else Some (map (read_partition_entry buffer) [0..<4], 0))"

definition SU_UID :: u16 where "SU_UID = 0"

definition verify_mode_access :: "u16 \<Rightarrow> u16 \<Rightarrow> u16 \<Rightarrow> u16 \<Rightarrow> u16 \<Rightarrow> bool" where
  "verify_mode_access current_uid require_mode file_uid file_gid file_mode =
     (if current_uid = SU_UID \<or> current_uid = file_uid
      then require_mode = require_mode AND (drop_bit 6 file_mode AND 0x07)
      else require_mode = require_mode AND (file_mode AND 0x07))"

section \<open>The interface of block devices\<close>

definition iter_rest :: "iovec_iter \<Rightarrow> u8 list" where
  "iter_rest it = drop (iter_pos it) (iter_content it)"

lemma iter_rest_facts:
  assumes "iter_wf it"
  shows "iovec_iter_remaining it = length (iter_rest it)" "length (iter_rest it) = length (iter_content it) - iter_pos it"
    "length (iter_rest it) < 2147483648"
  using iter_remaining_sub32 [OF assms] iter_wf_bound [OF assms] by (simp_all add: iovec_iter_remaining_def iter_rest_def)

text \<open>
  A transfer that stays on the disk is done completely: a read fills the rest of the iterator with the bytes of
  the disk and changes nothing else, a write stores the rest of the iterator on the disk.
\<close>

locale block_device =
  fixes rd wr :: "nat \<Rightarrow> iovec_iter \<Rightarrow> 's \<Rightarrow> ('s \<times> iovec_iter \<times> int) option"
    and disk :: "'s \<Rightarrow> u8 list" and ok :: "'s \<Rightarrow> bool"
  assumes rd_law: "\<lbrakk>ok s; iter_wf it; off + length (iter_rest it) \<le> length (disk s)\<rbrakk> \<Longrightarrow>
      \<exists>it'. rd off it s = Some (s, it', int (length (iter_rest it))) \<and> iter_wf it' \<and> iter_shape it' = iter_shape it \<and>
        iter_content it' = overwrite (iter_pos it) (take (length (iter_rest it)) (drop off (disk s))) (iter_content it)"
    and wr_law: "\<lbrakk>ok s; iter_wf it; off + length (iter_rest it) \<le> length (disk s)\<rbrakk> \<Longrightarrow>
      \<exists>s' it'. wr off it s = Some (s', it', int (length (iter_rest it))) \<and> ok s' \<and> disk s' = overwrite off (iter_rest it) (disk s)"
begin

lemma write_read:
  assumes "ok s" "iter_wf src" "iter_wf dst" "length (iter_rest dst) = length (iter_rest src)"
    and "off + length (iter_rest src) \<le> length (disk s)"
  shows "\<exists>s' src' dst'. wr off src s = Some (s', src', int (length (iter_rest src))) \<and>
    rd off dst s' = Some (s', dst', int (length (iter_rest src))) \<and> iter_rest src = drop (iter_pos dst) (iter_content dst')"
proof -
  obtain s' src' where w: "wr off src s = Some (s', src', int (length (iter_rest src)))" "ok s'"
      "disk s' = overwrite off (iter_rest src) (disk s)"
    using wr_law [OF assms(1,2,5)] by blast
  have "off + length (iter_rest dst) \<le> length (disk s')" using assms(4,5) w(3) by simp
  from rd_law [OF w(2) assms(3) this] obtain dst' where r: "rd off dst s' = Some (s', dst', int (length (iter_rest dst)))"
      "iter_content dst' = overwrite (iter_pos dst) (take (length (iter_rest dst)) (drop off (disk s'))) (iter_content dst)"
    by blast
  have "take (length (iter_rest dst)) (drop off (disk s')) = iter_rest src"
    using assms(4,5) by (simp add: w(3) overwrite_get)
  then have "drop (iter_pos dst) (iter_content dst') = iter_rest src"
    using r(2) assms(4) iter_wf_pos [OF assms(3)] iter_rest_facts(2) [OF assms(3)] by (simp add: overwrite_def)
  then show ?thesis using w(1) r(1) assms(4) by simp
qed

lemma write_keeps_others:
  assumes "ok s" "iter_wf it" "off + length (iter_rest it) \<le> length (disk s)" "wr off it s = Some (s', it', n)"
    and "a + n' \<le> off \<or> off + length (iter_rest it) \<le> a"
  shows "take n' (drop a (disk s')) = take n' (drop a (disk s))"
proof -
  have d: "disk s' = overwrite off (iter_rest it) (disk s)" using wr_law [OF assms(1-3)] assms(4) by auto
  show ?thesis
    using assms(3,5) unfolding d
    by (intro nth_equalityI) (auto simp: nth_overwrite)
qed

end

section \<open>The memory disk is a block device\<close>

definition MEM_DEV :: int where "MEM_DEV = 768"

definition mem_drivers :: "nat \<Rightarrow> 'a dev_state_scheme driver" where
  "mem_drivers d = mem_driver (\<lambda>s. (s, 0))"

definition mem_disk :: "'a dev_state_scheme \<Rightarrow> u8 list" where
  "mem_disk s = mem_bytes (geo_base (mem_devices s ! 0)) (geo_size (mem_devices s ! 0)) s"

definition mem_disk_ok :: "'a dev_state_scheme \<Rightarrow> bool" where
  "mem_disk_ok s \<longleftrightarrow> drv_table s ! 3 \<noteq> 0 \<and> mem_num_devices s = 1 \<and> length (mem_devices s) = 1 \<and> geo_size (mem_devices s ! 0) < 2147483648"

lemma DEV_MEM: "DEVMAJOR MEM_DEV = 3" "DEVMINOR MEM_DEV = 0"
  by (simp_all add: DEVMAJOR_def DEVMINOR_def MEM_DEV_def drop_bit_eq_div)

lemma length_mem_bytes [simp]: "length (mem_bytes a n s) = n"
  by (simp add: mem_bytes_def)

lemma mem_bytes_part:
  "off + n \<le> m \<Longrightarrow> mem_bytes (a + off) n s = take n (drop off (mem_bytes a m s))"
  by (intro nth_equalityI) (auto simp: mem_bytes_def ac_simps)

lemma mem_bytes_store:
  "off + length bs \<le> n \<Longrightarrow> mem_bytes a n (mem_store (a + off) bs s) = overwrite off bs (mem_bytes a n s)"
  by (intro nth_equalityI) (auto simp: mem_bytes_def mem_store_def nth_overwrite)

interpretation memdisk: block_device "dev_read mem_drivers MEM_DEV" "dev_write mem_drivers MEM_DEV" mem_disk mem_disk_ok
proof
  fix s :: "'a dev_state_scheme" and it off
  assume ok: "mem_disk_ok s" and it: "iter_wf it" and le: "off + length (iter_rest it) \<le> length (mem_disk s)"
  define g where "g = mem_devices s ! 0"
  define n where "n = length (iter_rest it)"
  note facts = iter_rest_facts [OF it]
  have g: "length (mem_disk s) = geo_size g" "off + n \<le> geo_size g" "geo_size g < 2147483648"
    using ok le by (simp_all add: mem_disk_def g_def mem_disk_ok_def n_def)
  have drv: "dev_driver mem_drivers MEM_DEV s = Some (mem_driver (\<lambda>s. (s, 0)))"
    using ok by (simp add: dev_driver_def DEV_MEM MAX_DRIVERS_def mem_disk_ok_def mem_drivers_def)
  have add: "add32 off n = off + n" using g by (simp add: add32_id)
  show "\<exists>it'. dev_read mem_drivers MEM_DEV off it s = Some (s, it', int (length (iter_rest it))) \<and> iter_wf it' \<and>
      iter_shape it' = iter_shape it \<and> iter_content it' = overwrite (iter_pos it) (take (length (iter_rest it)) (drop off (mem_disk s))) (iter_content it)"
  proof -
    obtain it' k where m: "memcpy_into_iter it (mem_bytes (geo_base g + off) n s) n = (it', k)" by fastforce
    have "dev_read mem_drivers MEM_DEV off it s = Some (s, it', int n)"
      using ok g add m facts by (simp add: dev_read_def drv DEV_MEM mem_driver_def mem_read_def mem_disk_ok_def Let_def
          to_int_of_nat flip: g_def n_def)
    moreover have "iter_wf it' \<and> iter_content it' = overwrite (iter_pos it) (mem_bytes (geo_base g + off) n s) (iter_content it)"
      using it.put_law [OF it _ m refl] facts(2) by (simp flip: n_def)
    moreover have "iter_shape it' = iter_shape it" using memcpy_into_iter_spec [OF it _ m] by simp
    ultimately show ?thesis
      using g mem_bytes_part [of off n "geo_size g" "geo_base g" s] by (simp add: mem_disk_def flip: g_def n_def)
  qed
  show "\<exists>s' it'. dev_write mem_drivers MEM_DEV off it s = Some (s', it', int (length (iter_rest it))) \<and> mem_disk_ok s' \<and>
      mem_disk s' = overwrite off (iter_rest it) (mem_disk s)"
  proof -
    obtain it' dest k where m: "memcpy_out_of_iter it (mem_bytes (geo_base g + off) n s) n = (it', dest, k)"
      using prod_cases3 by blast
    have dest: "dest = iter_rest it"
      using it.get_law [OF it _ m refl] facts(2) by (simp add: overwrite_def iter_rest_def n_def)
    have "dev_write mem_drivers MEM_DEV off it s = Some (mem_store (geo_base g + off) dest s, it', int n)"
      using ok g add m facts by (simp add: dev_write_def drv DEV_MEM mem_driver_def mem_write_def mem_disk_ok_def Let_def
          to_int_of_nat flip: g_def n_def)
    moreover have "mem_disk (mem_store (geo_base g + off) dest s) = overwrite off (iter_rest it) (mem_disk s)"
      using mem_bytes_store [of off dest "geo_size g" "geo_base g" s] g dest
      by (simp add: mem_disk_def mem_store_def n_def flip: g_def)
    moreover have "mem_disk_ok (mem_store (geo_base g + off) dest s)" using ok by (simp add: mem_disk_ok_def mem_store_def)
    ultimately show ?thesis by (auto simp: n_def)
  qed
qed

end
