(* ===== verification/Pipes.thy ===== *)
theory Pipes
  imports Sched_Run Devices
begin

text \<open>
  Pipes (\<^verbatim>\<open>src/kernel/fs/pipe.c\<close>): a vnode with a buffer of 512 bytes that two files refer to, each with a position of
  its own. The state extends that of the processes by the buffers, named by the addresses of their vnodes. Copies
  that leave the buffer are \<open>None\<close>. The test of the buffer for \<^verbatim>\<open>NULL\<close> is always false, since the buffer is part of
  the vnode.
  The lemmas show that bytes come out of a pipe in the order in which they went in as long as it has not been
  drained, and what happens after that.
\<close>

section \<open>The operations\<close>

definition PIPE_BUFFER_MAX :: nat where "PIPE_BUFFER_MAX = 512"

record pipe_sys = proc_sys +
  pp_buffer :: "nat \<Rightarrow> u8 list"

text \<open>
  \<open>v\<close> is the address \<^verbatim>\<open>kmalloc\<close> returns and \<open>ops\<close> the address of \<^verbatim>\<open>pipe_vnode_ops\<close>. The results are what is stored in
  \<^verbatim>\<open>*rfile\<close> and \<^verbatim>\<open>*wfile\<close>, \<open>None\<close> being \<^verbatim>\<open>NULL\<close>.
\<close>

definition vfs_create_pipe ::
    "'a pipe_sys_scheme proc_env \<Rightarrow> nat \<Rightarrow> nat \<Rightarrow> nat option \<Rightarrow> nat option \<Rightarrow> 'a pipe_sys_scheme \<Rightarrow>
     'a pipe_sys_scheme \<times> nat option \<times> nat option \<times> int" where
  "vfs_create_pipe pe ops v rfile wfile s =
     (if v = 0 then (s, rfile, wfile, ENOMEM)
      else let s = vfs_init_vnode v ops 0 384 1 0 0 0 0 0 0 0 0 s;
               s = vfs_clone_vnode v s;
               (s, rfile) = new_fileptr (vfs_env.truncate pe) v 0 s
           in case rfile of
                None \<Rightarrow> (kmfree_log v s, None, wfile, ENFILE)
              | Some r \<Rightarrow>
                  (let (s, wfile) = new_fileptr (vfs_env.truncate pe) v 0 s
                   in case wfile of
                        None \<Rightarrow> (free_fileptr (vfs_env.truncate pe) r (kmfree_log v s), rfile, None, ENFILE)
                      | Some w \<Rightarrow> (s, rfile, wfile, 0)))"

definition pipe_release :: "nat \<Rightarrow> 'a pipe_sys_scheme \<Rightarrow> 'a pipe_sys_scheme \<times> int" where
  "pipe_release v s = (kmfree_log v s, 0)"

definition pipe_close :: "nat \<Rightarrow> 'a pipe_sys_scheme \<Rightarrow> 'a pipe_sys_scheme \<times> int" where
  "pipe_close f s = (s, 0)"

definition pipe_read ::
    "'a pipe_sys_scheme proc_env \<Rightarrow> nat \<Rightarrow> iovec_iter \<Rightarrow> 'a pipe_sys_scheme \<Rightarrow> ('a pipe_sys_scheme \<times> iovec_iter \<times> int) option" where
  "pipe_read pe f iter s =
     (let v = vf_vnode (fs_file_table s f); buffer = pp_buffer s v;
          position = vf_position (fs_file_table s f); size' = vn_size (fs_vnodes s v)
      in if position = size' then Some (suspend_current_syscall VFS_POLL_READ s, iter, 0)
         else let nbytes = iovec_iter_remaining iter;
                  nbytes = (if nbytes > sub32 size' position then sub32 size' position else nbytes)
              in if position + nbytes > length buffer then None
                 else let (iter, _) = memcpy_into_iter iter (drop position buffer) nbytes;
                          s = upd_file f (\<lambda>x. x\<lparr>vf_position := add32 (vf_position x) nbytes\<rparr>) s;
                          s = (if vf_position (fs_file_table s f) = vn_size (fs_vnodes s v)
                               then upd_vnode v (\<lambda>x. x\<lparr>vn_size := 0\<rparr>) (upd_file f (\<lambda>x. x\<lparr>vf_position := 0\<rparr>) s)
                               else s)
                      in map_option (\<lambda>s. (s, iter, to_int (int nbytes))) (resume_blocked_procs pe VFS_POLL_WRITE v 0 s))"

definition pipe_write ::
    "'a pipe_sys_scheme proc_env \<Rightarrow> nat \<Rightarrow> iovec_iter \<Rightarrow> 'a pipe_sys_scheme \<Rightarrow> ('a pipe_sys_scheme \<times> iovec_iter \<times> int) option" where
  "pipe_write pe f iter s =
     (let v = vf_vnode (fs_file_table s f); buffer = pp_buffer s v;
          position = vf_position (fs_file_table s f); nbytes = iovec_iter_remaining iter
      in if nbytes > sub32 PIPE_BUFFER_MAX position then Some (suspend_current_syscall VFS_POLL_WRITE s, iter, 0)
         else if position + nbytes > length buffer then None
         else let (iter, dest, _) = memcpy_out_of_iter iter (drop position buffer) nbytes;
                  s = s\<lparr>pp_buffer := (pp_buffer s)(v := take position buffer @ dest)\<rparr>;
                  s = upd_file f (\<lambda>x. x\<lparr>vf_position := add32 (vf_position x) nbytes\<rparr>) s;
                  s = (if vf_position (fs_file_table s f) > vn_size (fs_vnodes s v)
                       then upd_vnode v (\<lambda>x. x\<lparr>vn_size := vf_position (fs_file_table s f)\<rparr>) s else s)
              in map_option (\<lambda>s. (s, iter, to_int (int nbytes))) (resume_blocked_procs pe VFS_POLL_READ v 0 s))"

definition pipe_poll :: "nat \<Rightarrow> u32 \<Rightarrow> 'a pipe_sys_scheme \<Rightarrow> u32" where
  "pipe_poll f events s =
     (let v = vf_vnode (fs_file_table s f);
          revents = (if events AND VFS_POLL_READ \<noteq> 0 \<and> sub32 (vn_size (fs_vnodes s v)) (vf_position (fs_file_table s f)) > 0
                     then VFS_POLL_READ else 0)
      in if events AND VFS_POLL_WRITE \<noteq> 0 \<and> vn_size (fs_vnodes s v) \<ge> PIPE_BUFFER_MAX
         then revents OR VFS_POLL_WRITE else revents)"

section \<open>Waking up processes leaves the pipes alone\<close>

lemma resume_proc_pipes:
  "fs_file_table (resume_proc p s) = fs_file_table s" "fs_vnodes (resume_proc p s) = fs_vnodes s"
  "pp_buffer (resume_proc p s) = pp_buffer s"
  by (simp_all add: resume_proc_def Let_def blocked_queue_remove_def run_queue_insert_def case_prod_beta upd_proc_def)

definition same_pipes :: "'a pipe_sys_scheme \<Rightarrow> 'a pipe_sys_scheme \<Rightarrow> bool" where
  "same_pipes s s' \<longleftrightarrow> fs_file_table s' = fs_file_table s \<and> fs_vnodes s' = fs_vnodes s \<and> pp_buffer s' = pp_buffer s"

lemma resume_blocked_procs_pipes:
  assumes "resume_blocked_procs pe ev v r s = Some s'"
  shows "same_pipes s s'"
proof -
  have "resume_blocked_loop pe ev v r cur s = Some s' \<Longrightarrow> same_pipes s s'" for cur
    by (erule resume_blocked_loop.raw_induct [where P = "\<lambda>pe ev v r cur s s'. same_pipes s s'", rotated])
      (auto simp: same_pipes_def resume_proc_pipes split: option.splits bind_splits if_splits)
  then show ?thesis using assms by (simp add: resume_blocked_procs_def)
qed

section \<open>One read and one write\<close>

text \<open>Both ends refer to the vnode, and the positions and the size are inside the buffer.\<close>

definition pipe_wf :: "'a pipe_sys_scheme \<Rightarrow> nat \<Rightarrow> nat \<Rightarrow> nat \<Rightarrow> bool" where
  "pipe_wf s r w v \<longleftrightarrow> vf_vnode (fs_file_table s r) = v \<and> vf_vnode (fs_file_table s w) = v \<and> r \<noteq> w \<and>
     length (pp_buffer s v) = PIPE_BUFFER_MAX \<and> vn_size (fs_vnodes s v) \<le> PIPE_BUFFER_MAX \<and>
     vf_position (fs_file_table s r) \<le> vn_size (fs_vnodes s v) \<and> vf_position (fs_file_table s w) \<le> PIPE_BUFFER_MAX"

text \<open>What a reader has still to get.\<close>

definition pipe_contents :: "'a pipe_sys_scheme \<Rightarrow> nat \<Rightarrow> u8 list" where
  "pipe_contents s r =
     (let v = vf_vnode (fs_file_table s r)
      in drop (vf_position (fs_file_table s r)) (take (vn_size (fs_vnodes s v)) (pp_buffer s v)))"

lemma pipe_write_spec:
  assumes wf: "pipe_wf s r w v" and it: "iter_wf it"
    and room: "length (iter_rest it) \<le> PIPE_BUFFER_MAX - vf_position (fs_file_table s w)"
    and wr: "pipe_write pe w it s = Some (s', it', n)"
  defines "wpos \<equiv> vf_position (fs_file_table s w)"
  shows "n = int (length (iter_rest it)) \<and> pipe_wf s' r w v \<and>
    pp_buffer s' v = overwrite wpos (iter_rest it) (pp_buffer s v) \<and>
    vf_position (fs_file_table s' w) = wpos + length (iter_rest it) \<and>
    vf_position (fs_file_table s' r) = vf_position (fs_file_table s r) \<and>
    vn_size (fs_vnodes s' v) = max (vn_size (fs_vnodes s v)) (wpos + length (iter_rest it))"
proof -
  note facts = iter_rest_facts [OF it]
  obtain it1 dest k where mem: "memcpy_out_of_iter it (drop wpos (pp_buffer s v)) (length (iter_rest it)) = (it1, dest, k)"
    using prod_cases3 by blast
  have len: "length (iter_rest it) \<le> length (drop wpos (pp_buffer s v))"
    using wf room by (simp add: pipe_wf_def wpos_def)
  have dest: "dest = overwrite 0 (iter_rest it) (drop wpos (pp_buffer s v))"
    using it.get_law [OF it len mem refl] facts(2) by (simp add: iter_rest_def)
  have buf: "take wpos (pp_buffer s v) @ dest = overwrite wpos (iter_rest it) (pp_buffer s v)"
    using len by (simp add: dest overwrite_def add.commute)
  have le: "wpos \<le> 512" "wpos + length (iter_rest it) \<le> 512"
    using wf room by (auto simp: pipe_wf_def wpos_def PIPE_BUFFER_MAX_def)
  have sub: "sub32 PIPE_BUFFER_MAX wpos = 512 - wpos" using le by (simp add: PIPE_BUFFER_MAX_def sub32_id)
  define s1 where "s1 = upd_file w (\<lambda>x. x\<lparr>vf_position := add32 (vf_position x) (length (iter_rest it))\<rparr>)
    (s\<lparr>pp_buffer := (pp_buffer s)(v := take wpos (pp_buffer s v) @ dest)\<rparr>)"
  define s2 where "s2 = (if vf_position (fs_file_table s1 w) > vn_size (fs_vnodes s1 v)
    then upd_vnode v (\<lambda>x. x\<lparr>vn_size := vf_position (fs_file_table s1 w)\<rparr>) s1 else s1)"
  have v: "vf_vnode (fs_file_table s w) = v" "length (pp_buffer s v) = 512" using wf by (simp_all add: pipe_wf_def PIPE_BUFFER_MAX_def)
  have "map_option (\<lambda>s. (s, it1, to_int (int (length (iter_rest it))))) (resume_blocked_procs pe VFS_POLL_READ v 0 s2) = Some (s', it', n)"
  proof -
    have "\<not> length (iter_rest it) > sub32 PIPE_BUFFER_MAX wpos" "\<not> wpos + length (iter_rest it) > length (pp_buffer s v)"
      using le v(2) by (auto simp: sub)
    then show ?thesis
      using wr unfolding pipe_write_def Let_def facts(1) v(1) wpos_def [symmetric] s2_def s1_def
      by (simp only: mem prod.case if_False)
  qed
  then have s': "same_pipes s2 s'" and n: "n = int (length (iter_rest it))"
    using resume_blocked_procs_pipes facts(3) by (auto simp: to_int_of_nat)
  have pos: "vf_position (fs_file_table s1 w) = wpos + length (iter_rest it)" using le by (simp add: s1_def upd_file_def wpos_def add32_id)
  show ?thesis
    using s' n wf le pos buf
    by (auto simp: same_pipes_def s2_def s1_def upd_file_def upd_vnode_def pipe_wf_def PIPE_BUFFER_MAX_def)
qed

lemma pipe_read_spec:
  assumes wf: "pipe_wf s r w v" and it: "iter_wf it" and ne: "pipe_contents s r \<noteq> []"
    and rd: "pipe_read pe r it s = Some (s', it', n)"
  defines "k \<equiv> min (length (iter_rest it)) (length (pipe_contents s r))"
  shows "n = int k \<and> pipe_wf s' r w v \<and> iter_content it' = overwrite (iter_pos it) (take k (pipe_contents s r)) (iter_content it) \<and>
    pipe_contents s' r = drop k (pipe_contents s r) \<and> pp_buffer s' v = pp_buffer s v \<and>
    vf_position (fs_file_table s' w) = vf_position (fs_file_table s w) \<and>
    vn_size (fs_vnodes s' v) = (if k < length (pipe_contents s r) then vn_size (fs_vnodes s v) else 0)"
proof -
  note facts = iter_rest_facts [OF it]
  define rpos where "rpos = vf_position (fs_file_table s r)"
  define sz where "sz = vn_size (fs_vnodes s v)"
  have v: "vf_vnode (fs_file_table s r) = v" "length (pp_buffer s v) = 512" "rpos \<le> sz" "sz \<le> 512"
    using wf by (simp_all add: pipe_wf_def PIPE_BUFFER_MAX_def rpos_def sz_def)
  have c: "pipe_contents s r = drop rpos (take sz (pp_buffer s v))" by (simp add: pipe_contents_def v(1) rpos_def sz_def Let_def)
  have lt: "rpos < sz" using ne v by (auto simp: c)
  have k: "k = (if length (iter_rest it) > sub32 sz rpos then sub32 sz rpos else length (iter_rest it))"
    using v by (simp add: k_def c sub32_id)
  obtain it1 j where mem: "memcpy_into_iter it (drop rpos (pp_buffer s v)) k = (it1, j)" by fastforce
  have kle: "k \<le> sz - rpos" "k \<le> length (iter_content it) - iter_pos it" using v facts(2) by (simp_all add: k_def c)
  have "k \<le> length (drop rpos (pp_buffer s v))" using kle v by simp
  from it.put_law [OF it this mem refl]
  have it1: "iter_content it1 = overwrite (iter_pos it) (take k (pipe_contents s r)) (iter_content it)"
    using kle v(3) by (simp add: c take_drop min_def)
  define s1 where "s1 = upd_file r (\<lambda>x. x\<lparr>vf_position := add32 (vf_position x) k\<rparr>) s"
  define s2 where "s2 = (if vf_position (fs_file_table s1 r) = vn_size (fs_vnodes s1 v)
    then upd_vnode v (\<lambda>x. x\<lparr>vn_size := 0\<rparr>) (upd_file r (\<lambda>x. x\<lparr>vf_position := 0\<rparr>) s1) else s1)"
  have "map_option (\<lambda>s. (s, it1, to_int (int k))) (resume_blocked_procs pe VFS_POLL_WRITE v 0 s2) = Some (s', it', n)"
  proof -
    have "rpos \<noteq> sz" "\<not> rpos + k > length (pp_buffer s v)" using lt v kle(1) by auto
    then show ?thesis
      using rd unfolding pipe_read_def Let_def facts(1) v(1) rpos_def [symmetric] sz_def [symmetric] k [symmetric] s2_def s1_def
      by (simp only: mem prod.case if_False)
  qed
  then have s': "same_pipes s2 s'" and n: "n = int k" and it': "it' = it1"
    using resume_blocked_procs_pipes v kle by (auto simp: to_int_of_nat)
  have pos: "vf_position (fs_file_table s1 r) = rpos + k" using v kle by (simp add: s1_def upd_file_def rpos_def add32_id)
  show ?thesis
    using s' n it' it1 wf v kle pos
    by (auto simp: same_pipes_def s2_def s1_def upd_file_def upd_vnode_def pipe_wf_def PIPE_BUFFER_MAX_def c sz_def rpos_def
        pipe_contents_def Let_def ac_simps)
qed

section \<open>Order of the bytes\<close>


text \<open>
  C40. A pipe repeats old bytes: a reader that has got everything resets its own position and the size of the
  pipe, but not the position of the writer. What is written next is stored behind the old data, and the reader
  gets all the old bytes again before the new ones.
\<close>

theorem pipe_repeats_after_drain:
  assumes "pipe_wf s r w v" "pipe_contents s r = []" "vf_position (fs_file_table s r) = 0" "vn_size (fs_vnodes s v) = 0"
    and "iter_wf src" "length (iter_rest src) \<le> PIPE_BUFFER_MAX - vf_position (fs_file_table s w)"
    and "pipe_write pe w src s = Some (s1, src1, n)"
  shows "pipe_contents s1 r = take (vf_position (fs_file_table s w)) (pp_buffer s v) @ iter_rest src"
proof -
  have "vf_vnode (fs_file_table s1 r) = v" "length (pp_buffer s v) = PIPE_BUFFER_MAX" "vf_position (fs_file_table s w) \<le> PIPE_BUFFER_MAX"
    using pipe_write_spec [OF assms(1,5,6,7)] assms(1) by (simp_all add: pipe_wf_def)
  then show ?thesis
    using pipe_write_spec [OF assms(1,5,6,7)] assms(3,4) by (simp add: pipe_contents_def Let_def overwrite_def)
qed

section \<open>A pipe\<close>

definition empty_pipe :: pipe_sys where
  "empty_pipe = proc_sys.extend two_ready (pipe_sys.fields (\<lambda>_. replicate PIPE_BUFFER_MAX 0))"

definition three_bytes :: iovec_iter where
  "three_bytes = iovec_iter_init_user_buf [1, 2, 3] 3"

definition four_cells :: iovec_iter where
  "four_cells = iovec_iter_init_user_buf [0, 0, 0, 0] 4"

lemma small_iters:
  "iter_wf three_bytes" "iter_rest three_bytes = [1, 2, 3]" "iter_wf four_cells" "iter_rest four_cells = [0, 0, 0, 0]"
  "iter_content four_cells = [0, 0, 0, 0]" "iter_pos four_cells = 0"
  by (simp_all add: three_bytes_def four_cells_def iovec_iter_init_user_buf_def iter_wf_def iter_rest_def iter_pos_def iter_content_def)

lemma empty_pipe_facts:
  "pipe_wf empty_pipe 0 1 5" "vf_position (fs_file_table empty_pipe f) = 0" "vn_size (fs_vnodes empty_pipe 5) = 0"
  "pipe_contents empty_pipe 0 = []" "q_head (ps_blocked_queue empty_pipe) = None"
  by (simp_all add: empty_pipe_def proc_sys.defs pipe_sys.defs two_ready_def small_sys_def pipe_wf_def pipe_contents_def queue_init_def)

lemma resume_blocked_procs_none:
  "q_head (ps_blocked_queue s) = None \<Longrightarrow> resume_blocked_procs pe ev v r s = Some s"
  unfolding resume_blocked_procs_def by (subst resume_blocked_loop.simps) simp

lemma blocked_queue_upd [simp]:
  "ps_blocked_queue (upd_file f g s) = ps_blocked_queue s" "ps_blocked_queue (upd_vnode v h s) = ps_blocked_queue s"
  by (simp_all add: upd_file_def upd_vnode_def)

lemma pipe_write_returns:
  assumes "pipe_wf s r w v" "iter_wf it" "length (iter_rest it) \<le> PIPE_BUFFER_MAX - vf_position (fs_file_table s w)"
    and "q_head (ps_blocked_queue s) = None"
  shows "\<exists>s' it'. pipe_write pe w it s = Some (s', it', int (length (iter_rest it))) \<and> q_head (ps_blocked_queue s') = None"
proof -
  have "\<not> vf_position (fs_file_table s w) + length (iter_rest it) > length (pp_buffer s v)"
      "\<not> length (iter_rest it) > sub32 PIPE_BUFFER_MAX (vf_position (fs_file_table s w))" "vf_vnode (fs_file_table s w) = v"
    using assms(1,3) by (auto simp: pipe_wf_def PIPE_BUFFER_MAX_def sub32_id)
  then show ?thesis
    using assms(4) iter_rest_facts [OF assms(2)]
    by (auto simp: pipe_write_def Let_def resume_blocked_procs_none to_int_of_nat split: prod.splits)
qed

lemma pipe_read_returns:
  assumes "pipe_wf s r w v" "iter_wf it" "q_head (ps_blocked_queue s) = None" "pipe_contents s r \<noteq> []"
  shows "\<exists>s' it' n. pipe_read pe r it s = Some (s', it', n)"
proof -
  have "vf_position (fs_file_table s r) \<noteq> vn_size (fs_vnodes s v)" "vf_vnode (fs_file_table s r) = v"
    using assms(1,4) by (auto simp: pipe_wf_def pipe_contents_def Let_def)
  moreover have "vf_position (fs_file_table s r) + k \<le> length (pp_buffer s v)"
    if "k \<le> sub32 (vn_size (fs_vnodes s v)) (vf_position (fs_file_table s r))" for k
    using that assms(1) by (auto simp: pipe_wf_def PIPE_BUFFER_MAX_def sub32_id)
  ultimately show ?thesis
    using assms(3) by (auto simp: pipe_read_def Let_def resume_blocked_procs_none not_less split: prod.splits)
qed


theorem pipe_repeats_after_drain_witness:
  "\<exists>s1 i1. pipe_write quiet_env 1 three_bytes (upd_file 1 (\<lambda>x. x\<lparr>vf_position := 2\<rparr>) empty_pipe) = Some (s1, i1, 3) \<and>
     pipe_contents s1 0 = [0, 0, 1, 2, 3]"
proof -
  let ?s = "upd_file 1 (\<lambda>x. x\<lparr>vf_position := 2\<rparr>) empty_pipe"
  have f: "pipe_wf ?s 0 1 5" "pipe_contents ?s 0 = []" "vf_position (fs_file_table ?s 0) = 0" "vn_size (fs_vnodes ?s 5) = 0"
      "vf_position (fs_file_table ?s 1) = 2"
    using empty_pipe_facts(1-4) by (auto simp: pipe_wf_def upd_file_def pipe_contents_def PIPE_BUFFER_MAX_def)
  have "q_head (ps_blocked_queue ?s) = None" using empty_pipe_facts(5) by simp
  then obtain s1 i1 where run: "pipe_write quiet_env 1 three_bytes ?s = Some (s1, i1, 3)"
    using pipe_write_returns [OF f(1) small_iters(1), of quiet_env] f(5) by (auto simp: small_iters PIPE_BUFFER_MAX_def)
  have "pp_buffer ?s 5 = replicate PIPE_BUFFER_MAX 0" by (simp add: upd_file_def empty_pipe_def proc_sys.defs pipe_sys.defs)
  moreover have "min PIPE_BUFFER_MAX 2 = 2" by (simp add: PIPE_BUFFER_MAX_def)
  ultimately have "take 2 (pp_buffer ?s 5) = [0, 0]" by (simp add: min.commute numeral_2_eq_2)
  moreover have "pipe_contents s1 0 = take 2 (pp_buffer ?s 5) @ [1, 2, 3]"
    using pipe_repeats_after_drain [OF f(1-4) small_iters(1) _ run] f(5) by (simp add: small_iters PIPE_BUFFER_MAX_def)
  ultimately show ?thesis using run by simp
qed

end
