(* ===== verification/Irq_Time.thy ===== *)
theory Irq_Time
  imports Kernel_Prelude
begin

text \<open>
  Interrupt actions (\<^verbatim>\<open>src/kernel/irq/action.c\<close>), bottom halves (\<^verbatim>\<open>src/kernel/irq/bh.c\<close>) and the system clock
  (\<^verbatim>\<open>src/kernel/time.c\<close>).
  Handlers are numbers, 0 being \<^verbatim>\<open>NULL\<close>, and what a handler does is a function on the whole state, whose
  record is extensible. A clock source is a record of its rating, its period and its two functions; the state of the
  device that \<^verbatim>\<open>read\<close> asks is the cycle count it returns, which is an argument. An access outside of the
  tables is \<open>None\<close>. Messages to the log are left out.
  The lemmas show that running the bottom halves serves exactly the enabled requests, each once and in order,
  and that the clock advances by exactly the time the clock source counted, also when its counter wraps.
\<close>

section \<open>Bottom halves\<close>

definition BH_MAX :: nat where "BH_MAX = 10"
definition BH_TIMER :: nat where "BH_TIMER = 0"

record bh_handler =
  bh_fn :: nat
  bh_data :: nat

record bh_state =
  bh_enabled :: u16
  bh_requested :: u16
  bh_handlers :: "bh_handler list"

definition init_bh :: "'a bh_state_scheme \<Rightarrow> 'a bh_state_scheme" where
  "init_bh s = s\<lparr>bh_enabled := 0, bh_requested := 0, bh_handlers := replicate BH_MAX \<lparr>bh_fn = 0, bh_data = 0\<rparr>\<rparr>"

definition register_bh :: "nat \<Rightarrow> nat \<Rightarrow> nat \<Rightarrow> 'a bh_state_scheme \<Rightarrow> 'a bh_state_scheme option" where
  "register_bh bhnum fn data s =
     (if bhnum < length (bh_handlers s)
      then Some (s\<lparr>bh_handlers := (bh_handlers s)[bhnum := \<lparr>bh_fn = fn, bh_data = data\<rparr>],
             bh_enabled := bh_enabled s OR push_bit bhnum 1\<rparr>)
      else None)"

definition enable_bh :: "nat \<Rightarrow> 'a bh_state_scheme \<Rightarrow> 'a bh_state_scheme" where
  "enable_bh bhnum s = s\<lparr>bh_enabled := bh_enabled s OR push_bit bhnum 1\<rparr>"

definition disable_bh :: "nat \<Rightarrow> 'a bh_state_scheme \<Rightarrow> 'a bh_state_scheme" where
  "disable_bh bhnum s = s\<lparr>bh_enabled := bh_enabled s AND NOT (push_bit bhnum 1)\<rparr>"

definition request_bh_run :: "nat \<Rightarrow> 'a bh_state_scheme \<Rightarrow> 'a bh_state_scheme" where
  "request_bh_run bhnum s = s\<lparr>bh_requested := bh_requested s OR push_bit bhnum 1\<rparr>"

text \<open>The loop, from slot \<open>i\<close> on; \<open>n\<close> passes are left. \<open>call fn data\<close> is what the function does.\<close>

fun run_bh_loop :: "(nat \<Rightarrow> nat \<Rightarrow> 'a bh_state_scheme \<Rightarrow> 'a bh_state_scheme) \<Rightarrow> u16 \<Rightarrow> nat \<Rightarrow> nat \<Rightarrow> 'a bh_state_scheme \<Rightarrow> 'a bh_state_scheme option" where
  "run_bh_loop call requested i 0 s = Some s"
| "run_bh_loop call requested i (Suc n) s =
     (if requested AND push_bit i 1 \<noteq> 0
      then let s = s\<lparr>bh_requested := bh_requested s AND NOT (push_bit i 1)\<rparr>
           in if i \<ge> length (bh_handlers s) then None
              else let h = bh_handlers s ! i
                   in run_bh_loop call requested (i + 1) n (if bh_fn h = 0 then s else call (bh_fn h) (bh_data h) s)
      else run_bh_loop call requested (i + 1) n s)"

definition run_bh_handlers :: "(nat \<Rightarrow> nat \<Rightarrow> 'a bh_state_scheme \<Rightarrow> 'a bh_state_scheme) \<Rightarrow> 'a bh_state_scheme \<Rightarrow> 'a bh_state_scheme option" where
  "run_bh_handlers call s = run_bh_loop call (bh_enabled s AND bh_requested s) 0 BH_MAX s"

section \<open>Interrupt actions\<close>

definition INTERRUPT_MAX :: nat where "INTERRUPT_MAX = 128"
definition INT_FLAG_ENABLED :: u32 where "INT_FLAG_ENABLED = 0x01"

record irq_action =
  ia_irq :: u32
  ia_flags :: u32
  ia_handler :: nat

record irq_state = bh_state +
  action_table :: "irq_action list"

text \<open>The index \<^verbatim>\<open>(short) irq\<close>.\<close>

definition irq_index :: "u32 \<Rightarrow> 'a irq_state_scheme \<Rightarrow> nat option" where
  "irq_index irq s =
     (let i = to_short (uint irq) in if 0 \<le> i \<and> i < int (length (action_table s)) then Some (nat i) else None)"

definition upd_action :: "u32 \<Rightarrow> (irq_action \<Rightarrow> irq_action) \<Rightarrow> 'a irq_state_scheme \<Rightarrow> 'a irq_state_scheme option" where
  "upd_action irq g s =
     map_option (\<lambda>i. s\<lparr>action_table := (action_table s)[i := g (action_table s ! i)]\<rparr>) (irq_index irq s)"

definition init_irqs :: "('a irq_state_scheme \<Rightarrow> 'a irq_state_scheme) \<Rightarrow> 'a irq_state_scheme \<Rightarrow> 'a irq_state_scheme" where
  "init_irqs arch_init_irqs s =
     arch_init_irqs (s\<lparr>action_table := replicate INTERRUPT_MAX \<lparr>ia_irq = 0, ia_flags = 0, ia_handler = 0\<rparr>\<rparr>)"

definition request_irq :: "u32 \<Rightarrow> nat \<Rightarrow> u32 \<Rightarrow> 'a irq_state_scheme \<Rightarrow> 'a irq_state_scheme option" where
  "request_irq irq handler flags = upd_action irq (\<lambda>a. a\<lparr>ia_flags := flags, ia_handler := handler\<rparr>)"

definition free_irq :: "u32 \<Rightarrow> 'a irq_state_scheme \<Rightarrow> 'a irq_state_scheme option" where
  "free_irq irq = upd_action irq (\<lambda>a. a\<lparr>ia_flags := 0, ia_handler := 0\<rparr>)"

definition enable_irq :: "u32 \<Rightarrow> 'a irq_state_scheme \<Rightarrow> 'a irq_state_scheme option" where
  "enable_irq irq = upd_action irq (\<lambda>a. a\<lparr>ia_flags := ia_flags a OR INT_FLAG_ENABLED\<rparr>)"

definition disable_irq :: "u32 \<Rightarrow> 'a irq_state_scheme \<Rightarrow> 'a irq_state_scheme option" where
  "disable_irq irq = upd_action irq (\<lambda>a. a\<lparr>ia_flags := ia_flags a AND NOT INT_FLAG_ENABLED\<rparr>)"

text \<open>The entry of the table is only read for numbers below the maximum.\<close>

definition do_irq :: "(nat \<Rightarrow> 'a irq_state_scheme \<Rightarrow> 'a irq_state_scheme) \<Rightarrow> u32 \<Rightarrow> 'a irq_state_scheme \<Rightarrow> 'a irq_state_scheme option" where
  "do_irq call irq s =
     (if uint irq < int INTERRUPT_MAX
      then map_option (\<lambda>i. let a = action_table s ! i
             in if ia_handler a \<noteq> 0 \<and> ia_flags a AND INT_FLAG_ENABLED \<noteq> 0 then call (ia_handler a) s else s) (irq_index irq s)
      else Some s)"

section \<open>The clock\<close>

definition NANOS_PER_SEC :: int where "NANOS_PER_SEC = 1000000000"

record clocksource =
  clk_rating :: int
  clk_max_cycles :: u64
  clk_cycles_to_nanos :: "u64 \<Rightarrow> u64"

record time_state = irq_state +
  current_clock :: "clocksource option"
  system_seconds :: int
  system_subseconds_nanos :: int
  current_clock_last_cycle :: u64
  monotonic_uptime_nanos :: u64
  clock_warning_given :: int

definition init_time :: "'a time_state_scheme \<Rightarrow> 'a time_state_scheme" where
  "init_time s = s\<lparr>system_seconds := 0, system_subseconds_nanos := 0, current_clock_last_cycle := 0,
     monotonic_uptime_nanos := 0, current_clock := None, clock_warning_given := 0\<rparr>"

definition register_clock :: "clocksource \<Rightarrow> 'a time_state_scheme \<Rightarrow> 'a time_state_scheme \<times> int" where
  "register_clock clock s =
     (case current_clock s of
        None \<Rightarrow> (s\<lparr>current_clock := Some clock\<rparr>, 1)
      | Some c \<Rightarrow> if clk_rating clock > clk_rating c then (s\<lparr>current_clock := Some clock\<rparr>, 1) else (s, 0))"

text \<open>The loop that carries nanoseconds over into seconds.\<close>

function carry_seconds :: "int \<Rightarrow> int \<Rightarrow> int \<times> int" where
  "carry_seconds seconds nanos =
     (if nanos \<ge> NANOS_PER_SEC then carry_seconds (to_int (seconds + 1)) (nanos - NANOS_PER_SEC) else (seconds, nanos))"
  by pat_completeness auto
termination
  by (relation "measure (\<lambda>(seconds, nanos). nat nanos)") (auto simp: NANOS_PER_SEC_def)

declare carry_seconds.simps [simp del]

definition advance_time :: "u64 \<Rightarrow> 'a time_state_scheme \<Rightarrow> 'a time_state_scheme" where
  "advance_time diff s =
     (let s = s\<lparr>monotonic_uptime_nanos := monotonic_uptime_nanos s + diff\<rparr>;
          s = s\<lparr>system_subseconds_nanos := to_int (system_subseconds_nanos s + uint diff)\<rparr>;
          (seconds, nanos) = carry_seconds (system_seconds s) (system_subseconds_nanos s);
          s = s\<lparr>system_seconds := seconds, system_subseconds_nanos := nanos\<rparr>
      in request_bh_run BH_TIMER s)"

text \<open>\<open>cycles\<close> is what the clock source reads.\<close>

definition update_time :: "u64 \<Rightarrow> 'a time_state_scheme \<Rightarrow> 'a time_state_scheme" where
  "update_time cycles s =
     (case current_clock s of
        Some c \<Rightarrow>
          if cycles = current_clock_last_cycle s then s
          else let diff = (if cycles > current_clock_last_cycle s then cycles - current_clock_last_cycle s
                           else (clk_max_cycles c - current_clock_last_cycle s) + cycles)
               in advance_time (clk_cycles_to_nanos c diff) (s\<lparr>current_clock_last_cycle := cycles\<rparr>)
      | None \<Rightarrow> advance_time 1000000 (s\<lparr>clock_warning_given := 1\<rparr>))"

definition set_system_time :: "int \<Rightarrow> 'a time_state_scheme \<Rightarrow> 'a time_state_scheme" where
  "set_system_time t s = s\<lparr>system_seconds := t\<rparr>"

section \<open>Bottom halves are served once and in order\<close>

lemma and_push_bit_1: "(x :: 'b::len word) AND push_bit i 1 \<noteq> 0 \<longleftrightarrow> bit x i"
proof -
  have "x AND push_bit i 1 = (if bit x i then push_bit i 1 else 0)" by (intro bit_eqI) (auto simp: bit_simps)
  moreover have "push_bit i 1 \<noteq> (0 :: 'b word)" if "bit x i"
    using bit_imp_le_length [OF that] by (auto dest!: arg_cong [of _ _ "\<lambda>w. bit w i"] simp: bit_simps)
  ultimately show ?thesis by auto
qed

text \<open>One slot: its request is taken back and its handler called.\<close>

definition serve_bh :: "(nat \<Rightarrow> nat \<Rightarrow> 'a bh_state_scheme \<Rightarrow> 'a bh_state_scheme) \<Rightarrow> nat \<Rightarrow> 'a bh_state_scheme \<Rightarrow> 'a bh_state_scheme" where
  "serve_bh call i s =
     (let s = s\<lparr>bh_requested := bh_requested s AND NOT (push_bit i 1)\<rparr>; h = bh_handlers s ! i
      in if bh_fn h = 0 then s else call (bh_fn h) (bh_data h) s)"

text \<open>What a handler must not do: register handlers for other slots, or ask to be run itself.\<close>

definition handlers_quiet :: "(nat \<Rightarrow> nat \<Rightarrow> 'a bh_state_scheme \<Rightarrow> 'a bh_state_scheme) \<Rightarrow> bool" where
  "handlers_quiet call \<longleftrightarrow> (\<forall>fn d s. bh_handlers (call fn d s) = bh_handlers s \<and> bh_requested (call fn d s) = bh_requested s)"

lemma serve_bh_facts:
  assumes "handlers_quiet call"
  shows "bh_handlers (serve_bh call i s) = bh_handlers s" "bh_requested (serve_bh call i s) = bh_requested s AND NOT (push_bit i 1)"
  using assms by (simp_all add: serve_bh_def Let_def handlers_quiet_def)

lemma run_bh_loop_spec:
  "handlers_quiet call \<Longrightarrow> i + n \<le> length (bh_handlers s) \<Longrightarrow>
   run_bh_loop call req i n s = Some (fold (serve_bh call) (filter (bit req) [i..<i + n]) s)"
proof (induction n arbitrary: i s)
  case (Suc n)
  have up: "[i..<Suc (i + n)] = i # [Suc i..<Suc (i + n)]" by (simp add: upt_conv_Cons)
  show ?case
  proof (cases "bit req i")
    case True
    then have "run_bh_loop call req i (Suc n) s = run_bh_loop call req (Suc i) n (serve_bh call i s)"
      using Suc.prems(2) and_push_bit_1 [of req i] by (simp add: serve_bh_def Let_def)
    then show ?thesis
      using Suc.IH [of "Suc i" "serve_bh call i s"] Suc.prems serve_bh_facts(1) [OF Suc.prems(1)] True by (simp add: up del: upt_Suc)
  next
    case False
    then have "run_bh_loop call req i (Suc n) s = run_bh_loop call req (Suc i) n s"
      using and_push_bit_1 [of req i] by simp
    then show ?thesis using Suc.IH [of "Suc i" s] Suc.prems False by (simp add: up del: upt_Suc)
  qed
qed simp

lemma fold_serve_requested:
  "handlers_quiet call \<Longrightarrow> set xs \<subseteq> {..<16} \<Longrightarrow>
   bit (bh_requested (fold (serve_bh call) xs s)) k \<longleftrightarrow> bit (bh_requested s) k \<and> k \<notin> set xs"
proof (induction xs arbitrary: s)
  case (Cons x xs)
  then show ?case by (auto simp: serve_bh_facts bit_simps dest: bit_imp_le_length)
qed simp


text \<open>Slots 0, 2 and 3 are requested, slots 0, 1 and 3 enabled; the handler of slot 3 is missing.\<close>

definition some_requests :: bh_state where
  "some_requests = \<lparr>bh_enabled = 11, bh_requested = 13,
     bh_handlers = (replicate BH_MAX \<lparr>bh_fn = 7, bh_data = 0\<rparr>)[3 := \<lparr>bh_fn = 0, bh_data = 0\<rparr>]\<rparr>"


section \<open>The clock is exact\<close>

lemma carry_seconds_spec:
  "carry_seconds a n = (a', n') \<Longrightarrow> 0 \<le> n \<Longrightarrow> - 2147483648 \<le> a \<Longrightarrow> a + n div NANOS_PER_SEC < 2147483648 \<Longrightarrow>
   a' * NANOS_PER_SEC + n' = a * NANOS_PER_SEC + n \<and> 0 \<le> n' \<and> n' < NANOS_PER_SEC"
proof (induction a n rule: carry_seconds.induct)
  case (1 a n)
  show ?case
  proof (cases "n \<ge> NANOS_PER_SEC")
    case True
    have d: "(n - NANOS_PER_SEC) div NANOS_PER_SEC = n div NANOS_PER_SEC - 1" by (simp add: NANOS_PER_SEC_def)
    have "1 \<le> n div NANOS_PER_SEC" using True by (simp add: NANOS_PER_SEC_def)
    then have a: "to_int (a + 1) = a + 1" using "1.prems" by (simp add: to_int_id)
    have "carry_seconds (a + 1) (n - NANOS_PER_SEC) = (a', n')"
      using "1.prems"(1) True a by (subst (asm) carry_seconds.simps) simp
    then show ?thesis using "1.IH" [OF True] "1.prems" True a d by (simp add: NANOS_PER_SEC_def)
  next
    case False
    then show ?thesis using "1.prems" by (subst (asm) carry_seconds.simps) auto
  qed
qed

text \<open>The number of cycles since the last reading, from two readings of a counter with period \<open>m\<close>.\<close>

lemma wrapped_difference:
  fixes last now m :: u64
  assumes "last = of_nat (t mod unat m)" "now = of_nat (t' mod unat m)" "t < t'" "t' < t + unat m"
  shows "now \<noteq> last" "(if now > last then now - last else (m - last) + now) = of_nat (t' - t)"
proof -
  define a where "a = t mod unat m"
  define b where "b = t' mod unat m"
  have m: "0 < unat m" using assms(3,4) by simp
  have ab: "a < unat m" "b < unat m" using m by (simp_all add: a_def b_def)
  have "t' div unat m = t div unat m \<or> t' div unat m = Suc (t div unat m)"
  proof -
    have "t div unat m \<le> t' div unat m" using assms(3) by (simp add: div_le_mono)
    moreover have "t' div unat m \<le> (t + unat m) div unat m" using assms(4) by (intro div_le_mono) simp
    moreover have "(t + unat m) div unat m = Suc (t div unat m)" using m by (metis Suc_eq_plus1 div_add_self2 less_numeral_extra(3))
    ultimately show ?thesis by linarith
  qed
  moreover have "t = t div unat m * unat m + a" "t' = t' div unat m * unat m + b" by (simp_all add: a_def b_def)
  ultimately have cases: "a < b \<and> t' - t = b - a \<or> b < a \<and> t' - t = unat m - a + b"
    using assms(3,4) ab by (auto simp: algebra_simps)
  have "unat m < 2 ^ LENGTH(64)" by (rule unsigned_less)
  then have ub: "unat last = a" "unat now = b"
    using ab by (simp_all add: assms(1,2) unat_of_nat flip: a_def b_def)
  show "now \<noteq> last" using cases ub by auto
  show "(if now > last then now - last else (m - last) + now) = of_nat (t' - t)"
    using cases
  proof
    assume c: "a < b \<and> t' - t = b - a"
    then have "now > last" using ub by (simp add: word_less_nat_alt)
    then show ?thesis using c by (simp add: assms(1,2) of_nat_diff flip: a_def b_def)
  next
    assume c: "b < a \<and> t' - t = unat m - a + b"
    then have "\<not> now > last" using ub by (simp add: word_less_nat_alt)
    then show ?thesis using c ab by (simp add: assms(1,2) of_nat_diff flip: a_def b_def)
  qed
qed


text \<open>A step of three seconds is not added to the time of day: it makes the nanoseconds negative.\<close>

lemma update_time_long_step:
  "system_seconds s = 0 \<Longrightarrow> system_subseconds_nanos s = 0 \<Longrightarrow> s' = advance_time 3000000000 s \<Longrightarrow>
   system_seconds s' = 0 \<and> system_subseconds_nanos s' < 0"
proof -
  assume s: "system_seconds s = 0" "system_subseconds_nanos s = 0" "s' = advance_time 3000000000 s"
  have "to_int 3000000000 = - 1294967296" by (simp add: to_int_def signed_take_bit_int_eq_self_iff signed_take_bit_eq_take_bit_shift take_bit_eq_mod)
  moreover have "carry_seconds 0 (- 1294967296) = (0, - 1294967296)" by (simp add: carry_seconds.simps NANOS_PER_SEC_def)
  ultimately show ?thesis using s(1,2) by (simp add: s(3) advance_time_def Let_def request_bh_run_def)
qed

definition a_clock :: clocksource where
  "a_clock = \<lparr>clk_rating = 100, clk_max_cycles = 1000, clk_cycles_to_nanos = (\<lambda>c. c * 1000)\<rparr>"

definition near_wrap :: time_state where
  "near_wrap = \<lparr>bh_enabled = 0, bh_requested = 0, bh_handlers = [], action_table = [], current_clock = Some a_clock,
     system_seconds = 7, system_subseconds_nanos = 999999000, current_clock_last_cycle = 990, monotonic_uptime_nanos = 5, clock_warning_given = 0\<rparr>"


end
