(* ===== verification/Bufcache.thy ===== *)
theory Bufcache
  imports Queues Devices
begin

text \<open>
  The cache of disk blocks (\<^verbatim>\<open>src/kernel/fs/bufcache.c\<close>): entries in a queue, the most recently used one first.
  An entry is named by the address of its \<^verbatim>\<open>struct buf\<close> and its block by the address of its memory. \<open>rd\<close> and \<open>wr\<close>
  are \<^verbatim>\<open>dev_read\<close> and \<^verbatim>\<open>dev_write\<close> and \<open>d\<close> is the state they act on. \<open>kb\<close> and \<open>kz\<close> are the addresses \<^verbatim>\<open>kmalloc\<close> and
  \<^verbatim>\<open>kzalloc\<close> return when an entry is made. A pointer loop that does not end, a failing access and \<^verbatim>\<open>panic\<close> are \<open>None\<close>.
  The lemmas show that the cache cannot be noticed: a block is read as it was last written, whether it is in the
  cache, on the disk, or was written back in between; and that a synchronisation makes the disk up to date.
\<close>

section \<open>The operations\<close>

definition BUFCACHE_MAX :: nat where "BUFCACHE_MAX = 100"
definition BC_GF_DBG_NOWRITE :: u16 where "BC_GF_DBG_NOWRITE = 0x1000"
definition BF_DIRTY :: u16 where "BF_DIRTY = 0x0001"

record buf =
  bf_refcount :: int
  bf_flags :: u16
  bf_num :: nat
  bf_block :: nat

record bufcache =
  bc_dev :: int
  bc_flags :: u16
  bc_block_size :: int
  bc_num_entries :: int
  bc_blocks :: "nat queue"
  bc_nodes :: "nat nodes"
  bc_bufs :: "nat \<Rightarrow> buf"
  bc_mem :: "nat \<Rightarrow> u8 list"
  bc_freed :: "nat list"

type_synonym 'd transfer = "int \<Rightarrow> nat \<Rightarrow> iovec_iter \<Rightarrow> 'd \<Rightarrow> ('d \<times> iovec_iter \<times> int) option"

definition upd_buf :: "nat \<Rightarrow> (buf \<Rightarrow> buf) \<Rightarrow> bufcache \<Rightarrow> bufcache" where
  "upd_buf e g c = c\<lparr>bc_bufs := (bc_bufs c)(e := g (bc_bufs c e))\<rparr>"

definition init_bufcache :: "int \<Rightarrow> int \<Rightarrow> bufcache \<Rightarrow> bufcache" where
  "init_bufcache dev block_size c =
     c\<lparr>bc_dev := dev, bc_flags := 0, bc_block_size := block_size, bc_num_entries := 0, bc_blocks := queue_init\<rparr>"

partial_function (option) free_bufcache_loop :: "nat option \<Rightarrow> bufcache \<Rightarrow> bufcache option" where
  "free_bufcache_loop cur c =
     (case cur of
        None \<Rightarrow> Some c
      | Some e \<Rightarrow>
          let nxt = node_next (bc_nodes c e)
          in free_bufcache_loop nxt (c\<lparr>bc_freed := e # bf_block (bc_bufs c e) # bc_freed c\<rparr>))"

definition free_bufcache :: "bufcache \<Rightarrow> bufcache option" where
  "free_bufcache c = map_option (\<lambda>c. c\<lparr>bc_blocks := queue_init\<rparr>) (free_bufcache_loop (q_head (bc_blocks c)) c)"

definition mark_block_dirty :: "nat \<Rightarrow> bufcache \<Rightarrow> bufcache" where
  "mark_block_dirty e = upd_buf e (\<lambda>b. b\<lparr>bf_flags := bf_flags b OR BF_DIRTY\<rparr>)"

definition release_block :: "nat \<Rightarrow> int \<Rightarrow> bufcache \<Rightarrow> bufcache \<times> int" where
  "release_block e dirty c =
     (let c = (if dirty \<noteq> 0 then mark_block_dirty e c else c);
          c = upd_buf e (\<lambda>b. b\<lparr>bf_refcount := to_int (bf_refcount b - 1)\<rparr>) c
      in if bf_refcount (bc_bufs c e) = 0 then (c, 0)
         else if bf_refcount (bc_bufs c e) < 0 then (upd_buf e (\<lambda>b. b\<lparr>bf_refcount := 0\<rparr>) c, 0)
         else (c, 0))"

definition buf_offset :: "nat \<Rightarrow> bufcache \<Rightarrow> nat" where
  "buf_offset e c = to_size (int (bf_num (bc_bufs c e)) * bc_block_size c)"

definition read_entry :: "'d transfer \<Rightarrow> nat \<Rightarrow> bufcache \<Rightarrow> 'd \<Rightarrow> (int \<times> bufcache \<times> 'd) option" where
  "read_entry rd e c d = do {
     let b = bf_block (bc_bufs c e);
     let iter = iovec_iter_init_simple_kvec (bc_mem c b) (to_size (bc_block_size c));
     (d, iter, size') \<leftarrow> rd (bc_dev c) (buf_offset e c) iter d;
     let c = c\<lparr>bc_mem := (bc_mem c)(b := kv_buf (it_segs iter ! 0))\<rparr>;
     Some (if size' \<noteq> bc_block_size c then -1 else 0, c, d) }"

definition write_entry :: "'d transfer \<Rightarrow> nat \<Rightarrow> bufcache \<Rightarrow> 'd \<Rightarrow> (int \<times> bufcache \<times> 'd) option" where
  "write_entry wr e c d =
     (if bf_flags (bc_bufs c e) AND BF_DIRTY = 0 then Some (0, c, d)
      else if bc_flags c AND BC_GF_DBG_NOWRITE \<noteq> 0 then Some (0, c, d)
      else do {
        let iter = iovec_iter_init_simple_kvec (bc_mem c (bf_block (bc_bufs c e))) (to_size (bc_block_size c));
        (d, iter, size') \<leftarrow> wr (bc_dev c) (buf_offset e c) iter d;
        Some (if size' \<noteq> bc_block_size c then (-1, c, d)
              else (1, upd_buf e (\<lambda>b. b\<lparr>bf_flags := bf_flags b AND NOT BF_DIRTY\<rparr>) c, d)) })"

partial_function (option) sync_bufcache_loop :: "'d transfer \<Rightarrow> nat option \<Rightarrow> bufcache \<Rightarrow> 'd \<Rightarrow> (bufcache \<times> 'd) option" where
  "sync_bufcache_loop wr cur c d =
     (case cur of
        None \<Rightarrow> Some (c, d)
      | Some e \<Rightarrow> do { (_, c, d) \<leftarrow> write_entry wr e c d; sync_bufcache_loop wr (node_next (bc_nodes c e)) c d })"

definition sync_bufcache :: "'d transfer \<Rightarrow> bufcache \<Rightarrow> 'd \<Rightarrow> (bufcache \<times> 'd) option" where
  "sync_bufcache wr c d = sync_bufcache_loop wr (q_head (bc_blocks c)) c d"

text \<open>Moving an entry to the front.\<close>

definition buf_to_front :: "nat \<Rightarrow> bufcache \<Rightarrow> bufcache" where
  "buf_to_front e c =
     (let (q, m) = queue_remove (bc_blocks c) e (bc_nodes c); (q, m) = queue_insert q e m
      in c\<lparr>bc_blocks := q, bc_nodes := m\<rparr>)"

text \<open>The result 0 is \<^verbatim>\<open>NULL\<close>.\<close>

definition create_entry :: "nat \<Rightarrow> nat \<Rightarrow> bufcache \<Rightarrow> nat \<times> bufcache" where
  "create_entry kb kz c =
     (if kb = 0 \<or> kz = 0 then (0, c)
      else let c = c\<lparr>bc_mem := (bc_mem c)(kz := replicate (to_size (bc_block_size c)) 0)\<rparr>;
               m = queue_node_init kb (bc_nodes c);
               c = upd_buf kb (\<lambda>_. \<lparr>bf_refcount = 0, bf_flags = 0, bf_num = 0, bf_block = kz\<rparr>) c;
               (q, m) = queue_insert (bc_blocks c) kb m
           in (kb, c\<lparr>bc_blocks := q, bc_nodes := m, bc_num_entries := to_int (bc_num_entries c + 1)\<rparr>))"

partial_function (option) find_unused_loop :: "nat option \<Rightarrow> bufcache \<Rightarrow> nat option option" where
  "find_unused_loop lru c =
     (case lru of
        None \<Rightarrow> Some None
      | Some e \<Rightarrow> if bf_refcount (bc_bufs c e) > 0 then find_unused_loop (queue_prev e (bc_nodes c)) c else Some (Some e))"

definition find_free_entry :: "'d transfer \<Rightarrow> nat \<Rightarrow> nat \<Rightarrow> bufcache \<Rightarrow> 'd \<Rightarrow> (nat \<times> bufcache \<times> 'd) option" where
  "find_free_entry wr kb kz c d = do {
     lru \<leftarrow> find_unused_loop (q_tail (bc_blocks c)) c;
     let create = bc_num_entries c < int BUFCACHE_MAX;
     let (lru, c) = (if create then create_entry kb kz c else (case lru of None \<Rightarrow> 0 | Some e \<Rightarrow> e, c));
     if lru = 0 then (if create then Some (0, c, d) else None)
     else do {
       (_, c, d) \<leftarrow> (if bf_num (bc_bufs c lru) \<noteq> 0 \<and> bf_block (bc_bufs c lru) \<noteq> 0 then write_entry wr lru c d else Some (0, c, d));
       Some (lru, buf_to_front lru c, d) } }"

definition load_block :: "'d transfer \<Rightarrow> 'd transfer \<Rightarrow> nat \<Rightarrow> nat \<Rightarrow> nat \<Rightarrow> bufcache \<Rightarrow> 'd \<Rightarrow> (nat \<times> bufcache \<times> 'd) option" where
  "load_block rd wr kb kz num c d =
     (if bc_dev c = 0 then Some (0, c, d)
      else do {
        (e, c, d) \<leftarrow> find_free_entry wr kb kz c d;
        if e = 0 then Some (0, c, d)
        else do {
          let c = upd_buf e (\<lambda>b. b\<lparr>bf_refcount := 1, bf_num := num, bf_flags := 0\<rparr>) c;
          (r, c, d) \<leftarrow> read_entry rd e c d;
          Some (if r < 0 then (0, upd_buf e (\<lambda>b. b\<lparr>bf_refcount := 0\<rparr>) c, d) else (e, c, d)) } })"

partial_function (option) find_block_loop :: "nat \<Rightarrow> nat option \<Rightarrow> bufcache \<Rightarrow> nat option option" where
  "find_block_loop num cur c =
     (case cur of
        None \<Rightarrow> Some None
      | Some e \<Rightarrow> if bf_num (bc_bufs c e) = num then Some (Some e) else find_block_loop num (queue_next e (bc_nodes c)) c)"

definition get_block :: "'d transfer \<Rightarrow> 'd transfer \<Rightarrow> nat \<Rightarrow> nat \<Rightarrow> nat \<Rightarrow> bufcache \<Rightarrow> 'd \<Rightarrow> (nat \<times> bufcache \<times> 'd) option" where
  "get_block rd wr kb kz num c d = do {
     cur \<leftarrow> find_block_loop num (q_head (bc_blocks c)) c;
     case cur of
       Some e \<Rightarrow> Some (e, buf_to_front e (upd_buf e (\<lambda>b. b\<lparr>bf_refcount := to_int (bf_refcount b + 1)\<rparr>) c), d)
     | None \<Rightarrow> load_block rd wr kb kz num c d }"

section \<open>The loops\<close>

lemma find_block_loop_spec:
  "queue_rep q (bc_nodes c) (ys @ xs) \<Longrightarrow>
   find_block_loop num (case xs of [] \<Rightarrow> None | x # _ \<Rightarrow> Some x) c = Some (find (\<lambda>e. bf_num (bc_bufs c e) = num) xs)"
proof (induction xs arbitrary: ys)
  case Nil
  then show ?case by (subst find_block_loop.simps) simp
next
  case (Cons x xs)
  have "node_next (bc_nodes c x) = (case xs of [] \<Rightarrow> None | x # _ \<Rightarrow> Some x)" using queue_rep_next [OF Cons.prems] by simp
  moreover have "find_block_loop num (case xs of [] \<Rightarrow> None | x # _ \<Rightarrow> Some x) c = Some (find (\<lambda>e. bf_num (bc_bufs c e) = num) xs)"
    using Cons.prems by (intro Cons.IH [of "ys @ [x]"]) simp
  ultimately show ?case by (subst find_block_loop.simps) (simp add: queue_next_def)
qed

lemma find_unused_loop_spec:
  "queue_rep q (bc_nodes c) (xs @ ys) \<Longrightarrow>
   find_unused_loop (if xs = [] then None else Some (last xs)) c = Some (find (\<lambda>e. bf_refcount (bc_bufs c e) \<le> 0) (rev xs))"
proof (induction xs arbitrary: ys rule: rev_induct)
  case Nil
  then show ?case by (subst find_unused_loop.simps) simp
next
  case (snoc x xs)
  have "node_prev (bc_nodes c x) = (if xs = [] then None else Some (last xs))"
    using queue_rep_prev [of q "bc_nodes c" xs x ys] snoc.prems by simp
  moreover have "find_unused_loop (if xs = [] then None else Some (last xs)) c = Some (find (\<lambda>e. bf_refcount (bc_bufs c e) \<le> 0) (rev xs))"
    using snoc.prems by (intro snoc.IH [of "x # ys"]) simp
  ultimately show ?case by (subst find_unused_loop.simps) (simp add: queue_prev_def)
qed

section \<open>What the cache stands for\<close>

definition bc_bs :: "bufcache \<Rightarrow> nat" where
  "bc_bs c = nat (bc_block_size c)"

definition disk_block :: "nat \<Rightarrow> u8 list \<Rightarrow> nat \<Rightarrow> u8 list" where
  "disk_block bs D n = take bs (drop (n * bs) D)"

definition buf_num :: "bufcache \<Rightarrow> nat \<Rightarrow> nat" where
  "buf_num c e = bf_num (bc_bufs c e)"

definition buf_data :: "bufcache \<Rightarrow> nat \<Rightarrow> u8 list" where
  "buf_data c e = bc_mem c (bf_block (bc_bufs c e))"

definition buf_dirty :: "bufcache \<Rightarrow> nat \<Rightarrow> bool" where
  "buf_dirty c e \<longleftrightarrow> bf_flags (bc_bufs c e) AND BF_DIRTY \<noteq> 0"

text \<open>The contents of block \<open>n\<close> as the users of the cache see them; \<open>xs\<close> are the entries.\<close>

definition block_view :: "bufcache \<Rightarrow> nat list \<Rightarrow> u8 list \<Rightarrow> nat \<Rightarrow> u8 list" where
  "block_view c xs D n =
     (case find (\<lambda>e. buf_num c e = n) xs of Some e \<Rightarrow> buf_data c e | None \<Rightarrow> disk_block (bc_bs c) D n)"

text \<open>
  An entry that is not dirty agrees with the disk. Block 0 is never dirty: a dirty block 0 would not be written
  back when its entry is used for another block.
\<close>

definition entry_ok :: "bufcache \<Rightarrow> u8 list \<Rightarrow> nat \<Rightarrow> bool" where
  "entry_ok c D e \<longleftrightarrow> 0 < e \<and> 0 \<le> bf_refcount (bc_bufs c e) \<and> 0 < bf_block (bc_bufs c e) \<and> length (buf_data c e) = bc_bs c \<and>
     (buf_num c e + 1) * bc_bs c \<le> length D \<and>
     (if buf_dirty c e then buf_num c e \<noteq> 0 else buf_data c e = disk_block (bc_bs c) D (buf_num c e))"

definition entries_ok :: "bufcache \<Rightarrow> nat list \<Rightarrow> u8 list \<Rightarrow> bool" where
  "entries_ok c xs D \<longleftrightarrow> distinct (map (buf_num c) xs) \<and> distinct (map (\<lambda>e. bf_block (bc_bufs c e)) xs) \<and> (\<forall>e \<in> set xs. entry_ok c D e)"

definition bc_base :: "int \<Rightarrow> bufcache \<Rightarrow> u8 list \<Rightarrow> bool" where
  "bc_base dev c D \<longleftrightarrow> bc_dev c = dev \<and> dev \<noteq> 0 \<and> bc_flags c AND BC_GF_DBG_NOWRITE = 0 \<and> 0 < bc_block_size c \<and>
     bc_block_size c < 2147483648 \<and> length D < 2147483648"

definition bc_inv :: "int \<Rightarrow> bufcache \<Rightarrow> nat list \<Rightarrow> u8 list \<Rightarrow> bool" where
  "bc_inv dev c xs D \<longleftrightarrow> bc_base dev c D \<and> queue_rep (bc_blocks c) (bc_nodes c) xs \<and>
     bc_num_entries c = int (length xs) \<and> length xs \<le> BUFCACHE_MAX \<and> entries_ok c xs D"

lemma block_view_entry: "entries_ok c xs D \<Longrightarrow> e \<in> set xs \<Longrightarrow> block_view c xs D (buf_num c e) = buf_data c e"
proof -
  assume ok: "entries_ok c xs D" and e: "e \<in> set xs"
  have "find (\<lambda>x. buf_num c x = buf_num c e) xs \<noteq> None" using e unfolding find_None_iff by blast
  then obtain e' where f: "find (\<lambda>x. buf_num c x = buf_num c e) xs = Some e'" by blast
  then have "e' \<in> set xs" "buf_num c e' = buf_num c e" unfolding find_Some_iff by auto
  then have "e' = e" using ok e by (auto simp: entries_ok_def distinct_map inj_on_def)
  then show ?thesis using f by (simp add: block_view_def)
qed

lemma block_view_disk: "n \<notin> buf_num c ` set xs \<Longrightarrow> block_view c xs D n = disk_block (bc_bs c) D n"
proof -
  assume "n \<notin> buf_num c ` set xs"
  then have "find (\<lambda>e. buf_num c e = n) xs = None" unfolding find_None_iff by blast
  then show ?thesis by (simp add: block_view_def)
qed

lemma disk_block_other:
  assumes "n \<noteq> m" "(m + 1) * bs \<le> length D" "length xs = bs"
  shows "disk_block bs (overwrite (m * bs) xs D) n = disk_block bs D n"
proof -
  have le: "m * bs + length xs \<le> length D" using assms by simp
  from assms(1) consider "n < m" | "m < n" by linarith
  then have off: "(n + 1) * bs \<le> m * bs \<or> (m + 1) * bs \<le> n * bs" by cases (auto intro: mult_le_mono1 simp del: mult_Suc)
  show ?thesis
    unfolding disk_block_def using le off assms(3)
    by (intro nth_equalityI) (auto simp: nth_overwrite)
qed

lemma disk_block_same:
  assumes "(m + 1) * bs \<le> length D" "length xs = bs"
  shows "disk_block bs (overwrite (m * bs) xs D) m = xs"
  using assms overwrite_get [of "m * bs" xs D] by (simp add: disk_block_def add.commute)

lemma simple_kvec_facts:
  assumes "length b = n" "n < 2147483648"
  shows "iter_wf (iovec_iter_init_simple_kvec b n)" "iter_rest (iovec_iter_init_simple_kvec b n) = b"
    "iter_pos (iovec_iter_init_simple_kvec b n) = 0" "iter_content (iovec_iter_init_simple_kvec b n) = b"
  using assms by (simp_all add: iovec_iter_init_simple_kvec_def iter_wf_def iter_rest_def iter_pos_def iter_content_def kvecs_start_def)

lemma view_cong:
  assumes "\<forall>z \<in> set xs. bc_bufs c' z = bc_bufs c z \<and> buf_data c' z = buf_data c z" "bc_bs c' = bc_bs c"
  shows "entries_ok c' xs D = entries_ok c xs D" "block_view c' xs D n = block_view c xs D n"
proof -
  have num: "\<forall>z \<in> set xs. buf_num c' z = buf_num c z" using assms(1) by (simp add: buf_num_def)
  have m: "map (buf_num c') xs = map (buf_num c) xs" "map (\<lambda>e. bf_block (bc_bufs c' e)) xs = map (\<lambda>e. bf_block (bc_bufs c e)) xs"
    using assms(1) num by simp_all
  show "entries_ok c' xs D = entries_ok c xs D"
    using assms num by (simp add: m entries_ok_def entry_ok_def buf_dirty_def cong: ball_cong)
  have "find (\<lambda>e. buf_num c' e = n) xs = find (\<lambda>e. buf_num c e = n) xs" using num by (auto cong: find_cong)
  moreover have "find (\<lambda>e. buf_num c e = n) xs = Some e \<Longrightarrow> e \<in> set xs" for e unfolding find_Some_iff by auto
  ultimately show "block_view c' xs D n = block_view c xs D n"
    using assms by (auto simp: block_view_def split: option.splits)
qed

lemma entries_ok_remove:
  assumes "entries_ok c xs D" "e \<in> set xs" "length D' = length D" "disk_block (bc_bs c) D' (buf_num c e) = buf_data c e"
    and "\<And>n. n \<noteq> buf_num c e \<Longrightarrow> disk_block (bc_bs c) D' n = disk_block (bc_bs c) D n" "distinct xs"
  shows "entries_ok c (remove1 e xs) D'" "block_view c (remove1 e xs) D' n = block_view c xs D n"
proof -
  have inj: "z \<in> set xs \<Longrightarrow> buf_num c z = buf_num c e \<Longrightarrow> z = e" for z
    using assms(1,2) by (auto simp: entries_ok_def distinct_map inj_on_def)
  have rem: "set (remove1 e xs) = set xs - {e}" using assms(6) by simp
  have "inj_on (buf_num c) (set xs)" "inj_on (\<lambda>e. bf_block (bc_bufs c e)) (set xs)"
    using assms(1) by (simp_all add: entries_ok_def distinct_map)
  then have dist: "distinct (map (buf_num c) (remove1 e xs))" "distinct (map (\<lambda>e. bf_block (bc_bufs c e)) (remove1 e xs))"
    using assms(6) rem by (auto simp: distinct_map intro: inj_on_subset)
  have "entry_ok c D' z" if "z \<in> set xs" "z \<noteq> e" for z
  proof -
    have "disk_block (bc_bs c) D' (buf_num c z) = disk_block (bc_bs c) D (buf_num c z)" using that inj by (intro assms(5)) blast
    moreover have "entry_ok c D z" using that(1) assms(1) by (simp add: entries_ok_def)
    ultimately show ?thesis using assms(3) by (simp add: entry_ok_def)
  qed
  then show ok: "entries_ok c (remove1 e xs) D'" using dist by (simp add: entries_ok_def rem)
  show "block_view c (remove1 e xs) D' n = block_view c xs D n"
  proof (cases "\<exists>z \<in> set xs. buf_num c z = n")
    case True
    then obtain z where z: "z \<in> set xs" "buf_num c z = n" by blast
    show ?thesis
    proof (cases "z = e")
      case True
      have "buf_num c w \<noteq> n" if "w \<in> set (remove1 e xs)" for w
        using inj [of w] that unfolding rem z(2) [symmetric] True by blast
      then have "n \<notin> buf_num c ` set (remove1 e xs)" by blast
      then have "block_view c (remove1 e xs) D' n = disk_block (bc_bs c) D' n" by (rule block_view_disk)
      then show ?thesis using block_view_entry [OF assms(1) z(1)] assms(4) z(2) True by simp
    next
      case False
      then have "z \<in> set (remove1 e xs)" using z(1) rem by simp
      from block_view_entry [OF ok this] block_view_entry [OF assms(1) z(1)] show ?thesis by (simp add: z(2))
    qed
  next
    case False
    then have "n \<notin> buf_num c ` set xs" "n \<notin> buf_num c ` set (remove1 e xs)" "n \<noteq> buf_num c e" using assms(2) rem by auto
    then show ?thesis using assms(5) by (simp add: block_view_disk)
  qed
qed

lemma block_view_Cons:
  "block_view c (e # xs) D n = (if buf_num c e = n then buf_data c e else block_view c xs D n)"
  by (simp add: block_view_def)

lemma entries_ok_perm:
  assumes "entries_ok c xs D" "set ys = set xs" "distinct ys"
  shows "entries_ok c ys D" "block_view c ys D n = block_view c xs D n"
proof -
  show ok: "entries_ok c ys D" using assms by (simp add: entries_ok_def distinct_map)
  show "block_view c ys D n = block_view c xs D n"
  proof (cases "n \<in> buf_num c ` set xs")
    case True
    then obtain e where "e \<in> set xs" "n = buf_num c e" by blast
    then show ?thesis using block_view_entry [OF assms(1)] block_view_entry [OF ok] assms(2) by simp
  next
    case False
    then show ?thesis using assms(2) by (simp add: block_view_disk)
  qed
qed

section \<open>Transfers\<close>

lemma bc_base_size:
  assumes "bc_base dev c D"
  shows "to_size (bc_block_size c) = bc_bs c" "int (bc_bs c) = bc_block_size c" "bc_bs c < 2147483648"
  using assms by (auto simp: bc_base_def bc_bs_def to_size_def nat_less_iff)

lemma buf_offset_id:
  assumes "bc_base dev c D" "(buf_num c e + 1) * bc_bs c \<le> length D"
  shows "buf_offset e c = buf_num c e * bc_bs c"
proof -
  have "int (bf_num (bc_bufs c e)) * bc_block_size c = int (buf_num c e * bc_bs c)"
    using assms(1) by (simp add: buf_num_def bc_bs_def bc_base_def)
  moreover have "buf_num c e * bc_bs c < 4294967296" using assms by (simp add: bc_base_def)
  ultimately show ?thesis by (simp add: buf_offset_def to_size_def del: of_nat_mult)
qed

text \<open>Entry \<open>e\<close> has one reference more than before, and every other entry that is in use is still there.\<close>

definition took_reference :: "bufcache \<Rightarrow> nat list \<Rightarrow> bufcache \<Rightarrow> nat list \<Rightarrow> nat \<Rightarrow> bool" where
  "took_reference c xs c' ys e \<longleftrightarrow> 0 < e \<and> bc_bs c' = bc_bs c \<and>
     bf_refcount (bc_bufs c' e) = (if e \<in> set xs then bf_refcount (bc_bufs c e) else 0) + 1 \<and>
     (\<forall>z \<in> set ys. z \<noteq> e \<longrightarrow> z \<in> set xs \<and> buf_num c' z = buf_num c z \<and> bf_refcount (bc_bufs c' z) = bf_refcount (bc_bufs c z)) \<and>
     (\<forall>z \<in> set xs. 0 < bf_refcount (bc_bufs c z) \<longrightarrow> z \<in> set ys \<and> buf_num c' z = buf_num c z)"

definition freed_entry :: "int \<Rightarrow> bufcache \<Rightarrow> bufcache \<Rightarrow> u8 list \<Rightarrow> nat \<Rightarrow> nat list \<Rightarrow> bool" where
  "freed_entry dev c c' D e zs \<longleftrightarrow> bc_base dev c' D \<and> bc_bs c' = bc_bs c \<and> 0 < e \<and> e \<notin> set zs \<and>
     queue_rep (bc_blocks c') (bc_nodes c') (e # zs) \<and> bc_num_entries c' = int (length (e # zs)) \<and> length (e # zs) \<le> BUFCACHE_MAX \<and>
     entries_ok c' zs D \<and> bf_block (bc_bufs c' e) \<notin> (\<lambda>z. bf_block (bc_bufs c' z)) ` set zs \<and> 0 < bf_block (bc_bufs c' e) \<and>
     length (buf_data c' e) = bc_bs c'"

lemma buf_to_front_spec:
  assumes "queue_rep (bc_blocks c) (bc_nodes c) xs" "e \<in> set xs"
  shows "queue_rep (bc_blocks (buf_to_front e c)) (bc_nodes (buf_to_front e c)) (e # remove1 e xs)"
    "bc_bufs (buf_to_front e c) = bc_bufs c" "bc_mem (buf_to_front e c) = bc_mem c" "bc_num_entries (buf_to_front e c) = bc_num_entries c"
    "bc_base dev (buf_to_front e c) D = bc_base dev c D" "bc_block_size (buf_to_front e c) = bc_block_size c"
proof -
  obtain q1 m1 where r: "queue_remove (bc_blocks c) e (bc_nodes c) = (q1, m1)" by fastforce
  obtain q2 m2 where i: "queue_insert q1 e m1 = (q2, m2)" by fastforce
  have f: "buf_to_front e c = c\<lparr>bc_blocks := q2, bc_nodes := m2\<rparr>" by (simp add: buf_to_front_def r i)
  show "queue_rep (bc_blocks (buf_to_front e c)) (bc_nodes (buf_to_front e c)) (e # remove1 e xs)"
    using nq.move_front [OF assms r i] by (simp add: f)
  show "bc_bufs (buf_to_front e c) = bc_bufs c" "bc_mem (buf_to_front e c) = bc_mem c" "bc_num_entries (buf_to_front e c) = bc_num_entries c"
    "bc_base dev (buf_to_front e c) D = bc_base dev c D" "bc_block_size (buf_to_front e c) = bc_block_size c"
    by (simp_all add: f bc_base_def)
qed

lemma create_entry_spec:
  assumes inv: "bc_inv dev c xs D" and fresh: "kb \<notin> set xs" "0 < kb" "0 < kz" "kz \<notin> (\<lambda>e. bf_block (bc_bufs c e)) ` set xs"
    and room: "length xs < BUFCACHE_MAX"
  obtains c' where "create_entry kb kz c = (kb, c')" "freed_entry dev c c' D kb xs" "bf_num (bc_bufs c' kb) = 0"
    "\<forall>z \<in> set xs. bc_bufs c' z = bc_bufs c z \<and> buf_data c' z = buf_data c z"
proof -
  define m where "m = queue_node_init kb (bc_nodes c)"
  obtain q1 m1 where ins: "queue_insert (bc_blocks c) kb m = (q1, m1)" by fastforce
  define c' where "c' = (upd_buf kb (\<lambda>_. \<lparr>bf_refcount = 0, bf_flags = 0, bf_num = 0, bf_block = kz\<rparr>)
    (c\<lparr>bc_mem := (bc_mem c)(kz := replicate (to_size (bc_block_size c)) 0)\<rparr>))\<lparr>bc_blocks := q1, bc_nodes := m1, bc_num_entries := to_int (bc_num_entries c + 1)\<rparr>"
  have cr: "create_entry kb kz c = (kb, c')" using fresh ins by (simp add: create_entry_def Let_def c'_def m_def upd_buf_def)
  have b: "bc_base dev c D" and q: "queue_rep (bc_blocks c) (bc_nodes c) xs" using inv by (simp_all add: bc_inv_def)
  have "queue_rep (bc_blocks c) m xs"
  proof (rule queue_frame_rep [OF q])
    fix x assume "x \<in> set xs"
    then have "x \<noteq> kb" using fresh(1) by blast
    then show "m x = bc_nodes c x" by (simp add: m_def queue_node_init_def)
  qed
  then have q1: "queue_rep q1 m1 (kb # xs)" using queue_insert_refines [OF _ fresh(1) ins] by simp
  have same: "\<forall>z \<in> set xs. bc_bufs c' z = bc_bufs c z \<and> buf_data c' z = buf_data c z"
    using fresh(1,4) by (auto simp: c'_def upd_buf_def buf_data_def)
  have bs: "bc_bs c' = bc_bs c" by (simp add: c'_def bc_bs_def upd_buf_def)
  have "freed_entry dev c c' D kb xs"
    using b q1 inv fresh room view_cong(1) [OF same bs] bc_base_size(1) [OF b] same
    by (auto simp: freed_entry_def bc_inv_def bs bc_base_def c'_def upd_buf_def buf_data_def to_int_id BUFCACHE_MAX_def bc_bs_def)
  moreover have "bf_num (bc_bufs c' kb) = 0" by (simp add: c'_def upd_buf_def)
  ultimately show thesis using that [OF cr] same by blast
qed

locale cached_device = block_device "rd dev" "wr dev" disk ok
  for rd wr :: "'d transfer" and dev :: int and disk :: "'d \<Rightarrow> u8 list" and ok :: "'d \<Rightarrow> bool"
begin

lemma write_entry_spec:
  assumes b: "bc_base dev c (disk d)" and ok: "ok d" and e: "entry_ok c (disk d) e"
  shows "\<exists>r d'. write_entry wr e c d =
      Some (r, if buf_dirty c e then upd_buf e (\<lambda>b. b\<lparr>bf_flags := bf_flags b AND NOT BF_DIRTY\<rparr>) c else c, d') \<and> ok d' \<and>
      disk d' = (if buf_dirty c e then overwrite (buf_num c e * bc_bs c) (buf_data c e) (disk d) else disk d)"
proof (cases "buf_dirty c e")
  case True
  define it where "it = iovec_iter_init_simple_kvec (buf_data c e) (bc_bs c)"
  note size = bc_base_size [OF b]
  have len: "length (buf_data c e) = bc_bs c" "(buf_num c e + 1) * bc_bs c \<le> length (disk d)" using e by (simp_all add: entry_ok_def)
  note it = simple_kvec_facts [OF len(1) size(3), folded it_def]
  have off: "buf_offset e c = buf_num c e * bc_bs c" using buf_offset_id [OF b] len(2) .
  obtain d' it' where w: "wr dev (buf_offset e c) it d = Some (d', it', bc_block_size c)" "ok d'"
      "disk d' = overwrite (buf_num c e * bc_bs c) (buf_data c e) (disk d)"
    using wr_law [OF ok it(1), of "buf_offset e c"] len it(2) size(2) off by auto
  then have "write_entry wr e c d = Some (1, upd_buf e (\<lambda>b. b\<lparr>bf_flags := bf_flags b AND NOT BF_DIRTY\<rparr>) c, d')"
    using True b by (simp add: write_entry_def buf_dirty_def size bc_base_def it_def buf_data_def)
  then show ?thesis using w True by auto
next
  case False
  then show ?thesis using ok by (simp add: write_entry_def buf_dirty_def)
qed

lemma read_entry_spec:
  assumes b: "bc_base dev c (disk d)" and ok: "ok d" and len: "length (buf_data c e) = bc_bs c" "(buf_num c e + 1) * bc_bs c \<le> length (disk d)"
  shows "read_entry rd e c d = Some (0, c\<lparr>bc_mem := (bc_mem c)(bf_block (bc_bufs c e) := disk_block (bc_bs c) (disk d) (buf_num c e))\<rparr>, d)"
proof -
  define it where "it = iovec_iter_init_simple_kvec (buf_data c e) (bc_bs c)"
  note size = bc_base_size [OF b]
  note it = simple_kvec_facts [OF len(1) size(3), folded it_def]
  have off: "buf_offset e c = buf_num c e * bc_bs c" using buf_offset_id [OF b] len(2) .
  obtain it' where r: "rd dev (buf_offset e c) it d = Some (d, it', bc_block_size c)" "iter_shape it' = iter_shape it"
      "iter_content it' = disk_block (bc_bs c) (disk d) (buf_num c e)"
    using rd_law [OF ok it(1), of "buf_offset e c"] len it(2-4) size(2) off by (auto simp: disk_block_def overwrite_def)
  have "length (it_segs it') = 1" "it_type it' = ITER_KVEC"
    using arg_cong [OF r(2), of "\<lambda>x. length (snd (snd (snd x)))"] r(2) by (simp_all add: iter_shape_def it_def iovec_iter_init_simple_kvec_def)
  then have "kv_buf (it_segs it' ! 0) = iter_content it'"
    by (cases "it_segs it'") (auto simp: iter_content_def)
  then show ?thesis using r(1,3) b by (simp add: read_entry_def size it_def bc_base_def buf_data_def)
qed

text \<open>
  What is known when an entry has been made free for another block: \<open>zs\<close> are the other entries, and with them the
  view is as before.
\<close>

lemma recycle_entry_spec:
  assumes inv: "bc_inv dev c xs (disk d)" and ok: "ok d" and full: "\<not> length xs < BUFCACHE_MAX"
    and unused: "\<exists>e \<in> set xs. bf_refcount (bc_bufs c e) = 0"
  obtains e c' d' zs where "find_free_entry wr kb kz c d = Some (e, c', d')" "freed_entry dev c c' (disk d') e zs" "ok d'"
    "length (disk d') = length (disk d)" "\<And>n. block_view c' zs (disk d') n = block_view c xs (disk d) n"
    "\<forall>z \<in> set zs. bc_bufs c' z = bc_bufs c z" "set zs = set xs - {e}" "e \<in> set xs \<Longrightarrow> bf_refcount (bc_bufs c e) = 0"
proof -
  have qr: "queue_rep (bc_blocks c) (bc_nodes c) xs" and b: "bc_base dev c (disk d)" and es: "entries_ok c xs (disk d)"
    and n: "bc_num_entries c = int (length xs)" "length xs = BUFCACHE_MAX" and dist: "distinct xs"
    using inv full queue_rep_distinct by (auto simp: bc_inv_def)
  obtain e where e: "find_unused_loop (q_tail (bc_blocks c)) c = Some (Some e)" "e \<in> set xs" "bf_refcount (bc_bufs c e) \<le> 0"
  proof -
    have "find_unused_loop (q_tail (bc_blocks c)) c = Some (find (\<lambda>e. bf_refcount (bc_bufs c e) \<le> 0) (rev xs))"
      using find_unused_loop_spec [of "bc_blocks c" c xs "[]"] queue_rep_tail [OF qr] qr by simp
    moreover have "find (\<lambda>e. bf_refcount (bc_bufs c e) \<le> 0) (rev xs) \<noteq> None"
      using unused unfolding find_None_iff by force
    moreover have "find (\<lambda>e. bf_refcount (bc_bufs c e) \<le> 0) (rev xs) = Some e \<Longrightarrow> e \<in> set xs \<and> bf_refcount (bc_bufs c e) \<le> 0" for e
      unfolding find_Some_iff by (metis in_set_conv_nth length_rev set_rev)
    ultimately show thesis using that by fastforce
  qed
  have eok: "entry_ok c (disk d) e" using es e(2) by (simp add: entries_ok_def)
  obtain r d' where w: "write_entry wr e c d =
      Some (r, if buf_dirty c e then upd_buf e (\<lambda>b. b\<lparr>bf_flags := bf_flags b AND NOT BF_DIRTY\<rparr>) c else c, d')" "ok d'"
      "disk d' = (if buf_dirty c e then overwrite (buf_num c e * bc_bs c) (buf_data c e) (disk d) else disk d)"
    using write_entry_spec [OF b ok eok] by blast
  define c1 where "c1 = (if buf_dirty c e then upd_buf e (\<lambda>b. b\<lparr>bf_flags := bf_flags b AND NOT BF_DIRTY\<rparr>) c else c)"
  define d2 where "d2 = (if bf_num (bc_bufs c e) \<noteq> 0 then d' else d)"
  define c2 where "c2 = buf_to_front e c1"
  define zs where "zs = remove1 e xs"
  have clean0: "bf_num (bc_bufs c e) = 0 \<Longrightarrow> \<not> buf_dirty c e" using eok by (auto simp: entry_ok_def buf_num_def)
  have disk2: "disk d2 = (if buf_dirty c e then overwrite (buf_num c e * bc_bs c) (buf_data c e) (disk d) else disk d)" "ok d2"
    using w ok clean0 by (auto simp: d2_def)
  have c1: "bc_blocks c1 = bc_blocks c" "bc_nodes c1 = bc_nodes c" "bc_mem c1 = bc_mem c" "bc_base dev c1 D = bc_base dev c D"
      "bc_num_entries c1 = bc_num_entries c" "bc_block_size c1 = bc_block_size c" "bf_block (bc_bufs c1 z) = bf_block (bc_bufs c z)"
      "z \<noteq> e \<Longrightarrow> bc_bufs c1 z = bc_bufs c z" for z D
    by (simp_all add: c1_def upd_buf_def bc_base_def)
  have ff: "find_free_entry wr kb kz c d = Some (e, c2, d2)"
    using e(1) n w(1) eok clean0
    by (auto simp: find_free_entry_def c2_def c1_def d2_def entry_ok_def buf_num_def)
  note f = buf_to_front_spec [OF qr [folded c1(1,2)] e(2), folded c2_def]
  have bs: "bc_bs c2 = bc_bs c" using f(6) c1(6) by (simp add: bc_bs_def)
  have data: "buf_data c2 z = buf_data c z" for z by (simp add: buf_data_def f c1)
  have ev: "(buf_num c e + 1) * bc_bs c \<le> length (disk d)" "length (buf_data c e) = bc_bs c" using eok by (simp_all add: entry_ok_def)
  have len: "length (disk d2) = length (disk d)" using ev by (simp add: disk2)
  have "disk_block (bc_bs c) (disk d2) (buf_num c e) = buf_data c e"
    using disk_block_same [OF ev] eok by (simp add: disk2 entry_ok_def)
  moreover have "m \<noteq> buf_num c e \<Longrightarrow> disk_block (bc_bs c) (disk d2) m = disk_block (bc_bs c) (disk d) m" for m
    using disk_block_other [OF _ ev] by (simp add: disk2)
  ultimately have rem: "entries_ok c zs (disk d2)" "block_view c zs (disk d2) m = block_view c xs (disk d) m" for m
    using entries_ok_remove [OF es e(2) len] dist by (auto simp: zs_def)
  have zs: "set zs = set xs - {e}" "length (e # zs) = length xs" using dist e(2) by (simp_all add: zs_def length_remove1) (metis Suc_pred length_pos_if_in_set)
  have same: "\<forall>z \<in> set zs. bc_bufs c2 z = bc_bufs c z \<and> buf_data c2 z = buf_data c z" using f(2) c1(8) data zs(1) by auto
  have blk: "bf_block (bc_bufs c e) \<notin> (\<lambda>z. bf_block (bc_bufs c z)) ` set zs"
    using es e(2) zs(1) by (auto simp: entries_ok_def distinct_map inj_on_def)
  have "freed_entry dev c c2 (disk d2) e zs"
    unfolding freed_entry_def
  proof (intro conjI)
    show "bc_base dev c2 (disk d2)" using b len unfolding f(5) c1(4) by (simp add: bc_base_def)
    show "bc_bs c2 = bc_bs c" by (rule bs)
    show "0 < e" "0 < bf_block (bc_bufs c2 e)" using eok f(2) c1(7) by (simp_all add: entry_ok_def)
    show "e \<notin> set zs" using zs(1) by simp
    show "queue_rep (bc_blocks c2) (bc_nodes c2) (e # zs)" using f(1) by (simp add: zs_def)
    show "bc_num_entries c2 = int (length (e # zs))" "length (e # zs) \<le> BUFCACHE_MAX" using zs(2) n f(4) c1(5) by simp_all
    show "entries_ok c2 zs (disk d2)" using view_cong(1) [OF same bs] rem(1) by simp
    show "bf_block (bc_bufs c2 e) \<notin> (\<lambda>z. bf_block (bc_bufs c2 z)) ` set zs" using blk f(2) c1(7) by simp
    show "length (buf_data c2 e) = bc_bs c2" using ev(2) data bs by simp
  qed
  moreover have "bf_refcount (bc_bufs c e) = 0" using e(3) eok by (simp add: entry_ok_def)
  ultimately show thesis
    using that [OF ff _ disk2(2) len] rem(2) view_cong(2) [OF same bs] same zs(1) by simp
qed

lemma find_free_entry_spec:
  assumes inv: "bc_inv dev c xs (disk d)" and ok: "ok d"
    and fresh: "kb \<notin> set xs" "0 < kb" "0 < kz" "kz \<notin> (\<lambda>e. bf_block (bc_bufs c e)) ` set xs"
    and room: "length xs < BUFCACHE_MAX \<or> (\<exists>e \<in> set xs. bf_refcount (bc_bufs c e) = 0)"
  obtains e c' d' zs where "find_free_entry wr kb kz c d = Some (e, c', d')" "freed_entry dev c c' (disk d') e zs" "ok d'"
    "length (disk d') = length (disk d)" "\<And>n. block_view c' zs (disk d') n = block_view c xs (disk d) n"
    "\<forall>z \<in> set zs. bc_bufs c' z = bc_bufs c z" "set zs = set xs - {e}" "e \<in> set xs \<Longrightarrow> bf_refcount (bc_bufs c e) = 0"
proof (cases "length xs < BUFCACHE_MAX")
  case True
  obtain c1 where c1: "create_entry kb kz c = (kb, c1)" "freed_entry dev c c1 (disk d) kb xs" "bf_num (bc_bufs c1 kb) = 0"
      "\<forall>z \<in> set xs. bc_bufs c1 z = bc_bufs c z \<and> buf_data c1 z = buf_data c z"
    using create_entry_spec [OF inv fresh True] by blast
  obtain r where r: "find_unused_loop (q_tail (bc_blocks c)) c = Some r"
    using find_unused_loop_spec [of "bc_blocks c" c xs "[]"] queue_rep_tail [of "bc_blocks c" "bc_nodes c" xs] inv by (simp add: bc_inv_def)
  have q: "queue_rep (bc_blocks c1) (bc_nodes c1) (kb # xs)" using c1(2) by (simp add: freed_entry_def)
  note f = buf_to_front_spec [OF q, of kb, simplified]
  have "bc_num_entries c < int BUFCACHE_MAX" using inv True by (simp add: bc_inv_def)
  then have "find_free_entry wr kb kz c d = Some (kb, buf_to_front kb c1, d)"
    using fresh(2) by (simp add: find_free_entry_def r c1(1,3))
  moreover have bs: "bc_bs (buf_to_front kb c1) = bc_bs c1" "bc_bs c1 = bc_bs c" using f(6) c1(2) by (simp_all add: bc_bs_def freed_entry_def)
  moreover have data: "\<forall>z. buf_data (buf_to_front kb c1) z = buf_data c1 z" by (simp add: buf_data_def f)
  moreover have "freed_entry dev c (buf_to_front kb c1) (disk d) kb xs"
    using c1(2) f bs data view_cong(1) [of xs "buf_to_front kb c1" c1] by (simp add: freed_entry_def)
  moreover have "block_view (buf_to_front kb c1) xs (disk d) n = block_view c xs (disk d) n" for n
    using view_cong(2) [of xs "buf_to_front kb c1" c] f(2) bs data c1(4) by simp
  ultimately show thesis using that [of kb "buf_to_front kb c1" d xs] ok c1(4) f(2) fresh(1) by simp
next
  case False
  then have "\<exists>e \<in> set xs. bf_refcount (bc_bufs c e) = 0" using room by simp
  from recycle_entry_spec [OF inv ok False this] that show thesis by blast
qed

lemma load_block_spec:
  assumes inv: "bc_inv dev c xs (disk d)" and ok: "ok d"
    and fresh: "kb \<notin> set xs" "0 < kb" "0 < kz" "kz \<notin> (\<lambda>e. bf_block (bc_bufs c e)) ` set xs"
    and room: "length xs < BUFCACHE_MAX \<or> (\<exists>e \<in> set xs. bf_refcount (bc_bufs c e) = 0)"
    and n: "n \<notin> buf_num c ` set xs" "(n + 1) * bc_bs c \<le> length (disk d)"
  shows "\<exists>e c' d' ys. load_block rd wr kb kz n c d = Some (e, c', d') \<and> bc_inv dev c' ys (disk d') \<and> ok d' \<and> e \<in> set ys \<and>
    buf_num c' e = n \<and> (\<forall>m. block_view c' ys (disk d') m = block_view c xs (disk d) m) \<and> took_reference c xs c' ys e"
proof -
  obtain e c1 d' zs where ff: "find_free_entry wr kb kz c d = Some (e, c1, d')" "freed_entry dev c c1 (disk d') e zs" "ok d'"
      "length (disk d') = length (disk d)" "\<And>n. block_view c1 zs (disk d') n = block_view c xs (disk d) n"
      "\<forall>z \<in> set zs. bc_bufs c1 z = bc_bufs c z" "set zs = set xs - {e}" "e \<in> set xs \<Longrightarrow> bf_refcount (bc_bufs c e) = 0"
    using find_free_entry_spec [OF inv ok fresh room] by metis
  define c2 where "c2 = upd_buf e (\<lambda>b. b\<lparr>bf_refcount := 1, bf_num := n, bf_flags := 0\<rparr>) c1"
  define c3 where "c3 = c2\<lparr>bc_mem := (bc_mem c2)(bf_block (bc_bufs c2 e) := disk_block (bc_bs c2) (disk d') n)\<rparr>"
  have e: "0 < e" "e \<notin> set zs" "bc_base dev c1 (disk d')" "bc_bs c1 = bc_bs c" "entries_ok c1 zs (disk d')" "length (buf_data c1 e) = bc_bs c1"
      "bf_block (bc_bufs c1 e) \<notin> (\<lambda>z. bf_block (bc_bufs c1 z)) ` set zs" "0 < bf_block (bc_bufs c1 e)"
    using ff(2) by (simp_all add: freed_entry_def)
  have b2: "bc_base dev c2 (disk d')" "length (buf_data c2 e) = bc_bs c2" "buf_num c2 e = n" "bc_bs c2 = bc_bs c"
    using e by (simp_all add: c2_def upd_buf_def bc_base_def buf_data_def buf_num_def bc_bs_def)
  have "read_entry rd e c2 d' = Some (0, c3, d')"
    using read_entry_spec [OF b2(1) ff(3) b2(2)] n(2) ff(4) b2 by (simp add: c3_def)
  then have ld: "load_block rd wr kb kz n c d = Some (e, c3, d')"
    using ff(1) e(1) inv by (simp add: load_block_def bc_inv_def bc_base_def c2_def)
  have bs3: "bc_bs c3 = bc_bs c1" "bc_bs c3 = bc_bs c" using b2(4) e(4) by (simp_all add: c3_def bc_bs_def)
  have "bf_block (bc_bufs c1 z) \<noteq> bf_block (bc_bufs c1 e) \<and> z \<noteq> e" if "z \<in> set zs" for z
    using that e(2) e(7) [unfolded image_iff] by auto
  then have same: "\<forall>z \<in> set zs. bc_bufs c3 z = bc_bufs c1 z \<and> buf_data c3 z = buf_data c1 z"
    by (simp add: c3_def c2_def upd_buf_def buf_data_def)
  have e3: "buf_num c3 e = n" "buf_data c3 e = disk_block (bc_bs c3) (disk d') n" "bf_refcount (bc_bufs c3 e) = 1"
      "bf_block (bc_bufs c3 e) = bf_block (bc_bufs c1 e)" "\<not> buf_dirty c3 e"
    using b2(4) bs3 by (simp_all add: c3_def c2_def upd_buf_def buf_num_def buf_data_def buf_dirty_def bc_bs_def)
  have "buf_num c3 ` set zs \<subseteq> buf_num c ` set xs" using same ff(6,7) by (auto simp: buf_num_def)
  then have nz: "n \<notin> buf_num c3 ` set zs" using n(1) by blast
  have "entry_ok c3 (disk d') e"
    using e e3 n(2) ff(4) bs3 by (simp add: entry_ok_def disk_block_def)
  moreover have "entries_ok c3 zs (disk d')" using view_cong(1) [OF same bs3(1)] e(5) by simp
  moreover have "bf_block (bc_bufs c3 e) \<notin> (\<lambda>z. bf_block (bc_bufs c3 z)) ` set zs"
    using e(7) e3(4) same by (simp cong: image_cong)
  ultimately have es: "entries_ok c3 (e # zs) (disk d')" using nz e3(1) by (simp add: entries_ok_def)
  have "bc_inv dev c3 (e # zs) (disk d')"
    using es ff(2) b2(1) by (simp add: bc_inv_def freed_entry_def c3_def c2_def bc_base_def upd_buf_def)
  moreover have "block_view c3 (e # zs) (disk d') m = block_view c xs (disk d) m" for m
  proof -
    have "block_view c3 zs (disk d') m = block_view c xs (disk d) m" using view_cong(2) [OF same bs3(1)] ff(5) by simp
    moreover have "block_view c3 zs (disk d') n = buf_data c3 e" using block_view_disk [OF nz] e3(2) by simp
    ultimately show ?thesis using e3(1) by (auto simp: block_view_Cons)
  qed
  moreover have "took_reference c xs c3 (e # zs) e"
    using same ff(6-8) e3(3) e(1) bs3(2) unfolding took_reference_def buf_num_def by (cases "e \<in> set xs") force+
  ultimately show ?thesis using ld ff(3) e3(1) by (intro exI [of _ e] exI [of _ c3] exI [of _ d'] exI [of _ "e # zs"]) simp
qed

lemma get_block_spec:
  assumes inv: "bc_inv dev c xs (disk d)" and ok: "ok d"
    and fresh: "kb \<notin> set xs" "0 < kb" "0 < kz" "kz \<notin> (\<lambda>e. bf_block (bc_bufs c e)) ` set xs"
    and room: "length xs < BUFCACHE_MAX \<or> (\<exists>e \<in> set xs. bf_refcount (bc_bufs c e) = 0)"
    and refs: "\<forall>e \<in> set xs. bf_refcount (bc_bufs c e) < 2147483647" and n: "(n + 1) * bc_bs c \<le> length (disk d)"
  shows "\<exists>e c' d' ys. get_block rd wr kb kz n c d = Some (e, c', d') \<and> bc_inv dev c' ys (disk d') \<and> ok d' \<and> e \<in> set ys \<and>
    buf_num c' e = n \<and> buf_data c' e = block_view c xs (disk d) n \<and>
    (\<forall>m. block_view c' ys (disk d') m = block_view c xs (disk d) m) \<and> took_reference c xs c' ys e"
proof (cases "find (\<lambda>e. bf_num (bc_bufs c e) = n) xs")
  case None
  have "find_block_loop n (q_head (bc_blocks c)) c = Some None"
    using find_block_loop_spec [of "bc_blocks c" c "[]" xs n] queue_rep_head [of "bc_blocks c" "bc_nodes c" xs] inv None by (simp add: bc_inv_def)
  moreover have "n \<notin> buf_num c ` set xs" using None unfolding find_None_iff by (auto simp: buf_num_def)
  ultimately obtain e c' d' ys where r: "get_block rd wr kb kz n c d = Some (e, c', d')" "bc_inv dev c' ys (disk d')" "ok d'" "e \<in> set ys"
      "buf_num c' e = n" "took_reference c xs c' ys e" "\<forall>m. block_view c' ys (disk d') m = block_view c xs (disk d) m"
    using load_block_spec [OF inv ok fresh room _ n] by (auto simp: get_block_def)
  moreover have "buf_data c' e = block_view c xs (disk d) n"
    using block_view_entry [of c' ys "disk d'" e] r by (simp add: bc_inv_def)
  ultimately show ?thesis by auto
next
  case (Some e)
  then have e: "e \<in> set xs" "buf_num c e = n" unfolding find_Some_iff by (auto simp: buf_num_def)
  have es: "entries_ok c xs (disk d)" and q: "queue_rep (bc_blocks c) (bc_nodes c) xs" using inv by (simp_all add: bc_inv_def)
  have "find_block_loop n (q_head (bc_blocks c)) c = Some (Some e)"
    using find_block_loop_spec [of "bc_blocks c" c "[]" xs n] queue_rep_head [OF q] q Some by simp
  moreover define c1 where "c1 = upd_buf e (\<lambda>b. b\<lparr>bf_refcount := to_int (bf_refcount b + 1)\<rparr>) c"
  ultimately have gb: "get_block rd wr kb kz n c d = Some (e, buf_to_front e c1, d)" by (simp add: get_block_def)
  define c2 where "c2 = buf_to_front e c1"
  have c1: "bc_blocks c1 = bc_blocks c" "bc_nodes c1 = bc_nodes c" "bc_num_entries c1 = bc_num_entries c" "bc_base dev c1 D = bc_base dev c D"
      "bc_block_size c1 = bc_block_size c" "bc_mem c1 = bc_mem c" for D
    by (simp_all add: c1_def upd_buf_def bc_base_def)
  note f = buf_to_front_spec [OF q [folded c1(1,2)] e(1), folded c2_def]
  have r: "bf_refcount (bc_bufs c2 e) = bf_refcount (bc_bufs c e) + 1" "\<forall>z. z \<noteq> e \<longrightarrow> bc_bufs c2 z = bc_bufs c z" "\<forall>z. buf_num c2 z = buf_num c z"
      "\<forall>z. bf_block (bc_bufs c2 z) = bf_block (bc_bufs c z)" "\<forall>z. buf_data c2 z = buf_data c z" "\<forall>z. buf_dirty c2 z = buf_dirty c z"
    using refs e(1) es by (auto simp: f c1_def upd_buf_def to_int_id entries_ok_def entry_ok_def buf_num_def buf_data_def buf_dirty_def)
  have bs: "bc_bs c2 = bc_bs c" using f(6) c1(5) by (simp add: bc_bs_def)
  have "entry_ok c2 (disk d) z" if "z \<in> set xs" for z
  proof -
    have "entry_ok c (disk d) z" using that es by (simp add: entries_ok_def)
    moreover have "0 \<le> bf_refcount (bc_bufs c2 z)" using r(1,2) calculation by (cases "z = e") (auto simp: entry_ok_def)
    ultimately show ?thesis using r(3-6) bs by (simp add: entry_ok_def)
  qed
  moreover have "buf_num c2 = buf_num c" "(\<lambda>z. bf_block (bc_bufs c2 z)) = (\<lambda>z. bf_block (bc_bufs c z))" using r(3,4) by auto
  ultimately have es2: "entries_ok c2 xs (disk d)" using es by (simp add: entries_ok_def)
  have view: "block_view c2 xs (disk d) m = block_view c xs (disk d) m" for m
    using r(3,5) bs by (simp add: block_view_def split: option.split)
  have dist: "distinct xs" using q by (rule queue_rep_distinct)
  have perm: "set (e # remove1 e xs) = set xs" "distinct (e # remove1 e xs)" "length (e # remove1 e xs) = length xs"
    using dist e(1) by (auto simp: length_remove1) (metis Suc_pred length_pos_if_in_set)
  have "bc_inv dev c2 (e # remove1 e xs) (disk d)"
    using inv f(1,4) entries_ok_perm(1) [OF es2 perm(1,2)] perm(3) unfolding bc_inv_def f(5) c1(3,4) by simp
  moreover have "took_reference c xs c2 (e # remove1 e xs) e"
    using r(1-3) e(1) es perm(1) bs dist by (auto simp: took_reference_def entries_ok_def entry_ok_def)
  ultimately show ?thesis
    using gb ok e r block_view_entry [OF es e(1)] entries_ok_perm(2) [OF es2 perm(1,2)] view
    by (intro exI [of _ e] exI [of _ c2] exI [of _ d] exI [of _ "e # remove1 e xs"]) (simp add: c2_def)
qed

lemma write_entry_inv:
  assumes inv: "bc_inv dev c xs (disk d)" and ok: "ok d" and e: "e \<in> set xs"
  shows "\<exists>r c' d'. write_entry wr e c d = Some (r, c', d') \<and> bc_inv dev c' xs (disk d') \<and> ok d' \<and>
    (\<forall>n. block_view c' xs (disk d') n = block_view c xs (disk d) n) \<and> \<not> buf_dirty c' e \<and> (\<forall>z. z \<noteq> e \<longrightarrow> buf_dirty c' z = buf_dirty c z) \<and>
    bc_nodes c' = bc_nodes c \<and> bc_bs c' = bc_bs c"
proof (cases "buf_dirty c e")
  case False
  then show ?thesis using inv ok by (simp add: write_entry_def buf_dirty_def)
next
  case True
  have b: "bc_base dev c (disk d)" and es: "entries_ok c xs (disk d)" using inv by (simp_all add: bc_inv_def)
  have eok: "entry_ok c (disk d) e" using es e by (simp add: entries_ok_def)
  define c' where "c' = upd_buf e (\<lambda>b. b\<lparr>bf_flags := bf_flags b AND NOT BF_DIRTY\<rparr>) c"
  obtain r d' where w: "write_entry wr e c d = Some (r, c', d')" "ok d'"
      "disk d' = overwrite (buf_num c e * bc_bs c) (buf_data c e) (disk d)"
    using write_entry_spec [OF b ok eok] True by (auto simp: c'_def)
  have ev: "(buf_num c e + 1) * bc_bs c \<le> length (disk d)" "length (buf_data c e) = bc_bs c" using eok by (simp_all add: entry_ok_def)
  have c': "buf_num c' = buf_num c" "buf_data c' = buf_data c" "bc_bs c' = bc_bs c" "(\<lambda>z. bf_block (bc_bufs c' z)) = (\<lambda>z. bf_block (bc_bufs c z))"
      "(\<lambda>z. bf_refcount (bc_bufs c' z)) = (\<lambda>z. bf_refcount (bc_bufs c z))" "\<And>z. z \<noteq> e \<Longrightarrow> buf_dirty c' z = buf_dirty c z"
    by (auto simp: c'_def upd_buf_def buf_num_def buf_data_def bc_bs_def buf_dirty_def fun_eq_iff)
  have clean: "\<not> buf_dirty c' e" by (simp add: c'_def upd_buf_def buf_dirty_def and.assoc)
  have inj: "z \<in> set xs \<Longrightarrow> z \<noteq> e \<Longrightarrow> buf_num c z \<noteq> buf_num c e" for z using es e by (auto simp: entries_ok_def distinct_map inj_on_def)
  have same: "disk_block (bc_bs c) (disk d') (buf_num c e) = buf_data c e" using disk_block_same [OF ev] w(3) by simp
  have other: "n \<noteq> buf_num c e \<Longrightarrow> disk_block (bc_bs c) (disk d') n = disk_block (bc_bs c) (disk d) n" for n
    using disk_block_other [OF _ ev] w(3) by simp
  have len: "length (disk d') = length (disk d)" using ev w(3) by simp
  have "entry_ok c' (disk d') z" if z: "z \<in> set xs" for z
  proof -
    have zok: "entry_ok c (disk d) z" using es z by (simp add: entries_ok_def)
    have r: "bf_refcount (bc_bufs c' z) = bf_refcount (bc_bufs c z)" "bf_block (bc_bufs c' z) = bf_block (bc_bufs c z)"
      using c'(4,5) by (metis)+
    show ?thesis
    proof (cases "z = e")
      case True
      then show ?thesis using zok clean same len r c' by (simp add: entry_ok_def)
    next
      case False
      then show ?thesis using zok other [OF inj [OF z False]] len r c' by (simp add: entry_ok_def)
    qed
  qed
  then have es': "entries_ok c' xs (disk d')" using es c' by (simp add: entries_ok_def)
  have inv': "bc_inv dev c' xs (disk d')"
    using inv es' len by (simp add: bc_inv_def bc_base_def c'_def upd_buf_def)
  have "block_view c' xs (disk d') n = block_view c xs (disk d) n" for n
  proof (cases "n \<in> buf_num c ` set xs")
    case True
    then obtain z where "z \<in> set xs" "n = buf_num c z" by blast
    then show ?thesis using block_view_entry [OF es] block_view_entry [OF es'] c' by metis
  next
    case False
    then show ?thesis using other e c' by (auto simp: block_view_disk)
  qed
  then show ?thesis using w inv' clean c' by (auto simp: c'_def upd_buf_def)
qed

lemma sync_loop_spec:
  "bc_inv dev c (ys @ xs) (disk d) \<Longrightarrow> ok d \<Longrightarrow> \<forall>y \<in> set ys. \<not> buf_dirty c y \<Longrightarrow>
   \<exists>c' d'. sync_bufcache_loop wr (case xs of [] \<Rightarrow> None | x # _ \<Rightarrow> Some x) c d = Some (c', d') \<and> bc_inv dev c' (ys @ xs) (disk d') \<and> ok d' \<and>
     (\<forall>n. block_view c' (ys @ xs) (disk d') n = block_view c (ys @ xs) (disk d) n) \<and> (\<forall>e \<in> set (ys @ xs). \<not> buf_dirty c' e) \<and> bc_bs c' = bc_bs c"
proof (induction xs arbitrary: c d ys)
  case Nil
  then show ?case by (subst sync_bufcache_loop.simps) simp
next
  case (Cons x xs)
  obtain r c1 d1 where w: "write_entry wr x c d = Some (r, c1, d1)" "bc_inv dev c1 (ys @ x # xs) (disk d1)" "ok d1"
      "\<forall>n. block_view c1 (ys @ x # xs) (disk d1) n = block_view c (ys @ x # xs) (disk d) n" "\<not> buf_dirty c1 x"
      "\<forall>z. z \<noteq> x \<longrightarrow> buf_dirty c1 z = buf_dirty c z" "bc_nodes c1 = bc_nodes c" "bc_bs c1 = bc_bs c"
    using write_entry_inv [OF Cons.prems(1,2), of x] by auto
  have q: "queue_rep (bc_blocks c1) (bc_nodes c1) (ys @ x # xs)" using w(2) by (simp add: bc_inv_def)
  have nx: "node_next (bc_nodes c1 x) = (case xs of [] \<Rightarrow> None | x # _ \<Rightarrow> Some x)" using queue_rep_next [OF q] by simp
  have "bc_inv dev c1 ((ys @ [x]) @ xs) (disk d1)" "\<forall>y \<in> set (ys @ [x]). \<not> buf_dirty c1 y"
    using w(2,5,6) Cons.prems(3) by auto
  from Cons.IH [OF this(1) w(3) this(2)] show ?case
    using w nx by (subst sync_bufcache_loop.simps) (auto split: prod.splits)
qed

lemma sync_bufcache_spec:
  assumes "bc_inv dev c xs (disk d)" "ok d"
  shows "\<exists>c' d'. sync_bufcache wr c d = Some (c', d') \<and> bc_inv dev c' xs (disk d') \<and> ok d' \<and>
    (\<forall>n. block_view c' xs (disk d') n = block_view c xs (disk d) n \<and> disk_block (bc_bs c) (disk d') n = block_view c xs (disk d) n)"
proof -
  have "q_head (bc_blocks c) = (case xs of [] \<Rightarrow> None | x # _ \<Rightarrow> Some x)" using assms(1) queue_rep_head by (auto simp: bc_inv_def)
  then obtain c' d' where s: "sync_bufcache wr c d = Some (c', d')" "bc_inv dev c' xs (disk d')" "ok d'"
      "\<forall>n. block_view c' xs (disk d') n = block_view c xs (disk d) n" "\<forall>e \<in> set xs. \<not> buf_dirty c' e" "bc_bs c' = bc_bs c"
    using sync_loop_spec [of c "[]" xs d] assms by (auto simp: sync_bufcache_def)
  have es: "entries_ok c' xs (disk d')" using s(2) by (simp add: bc_inv_def)
  have "disk_block (bc_bs c) (disk d') n = block_view c' xs (disk d') n" for n
  proof (cases "n \<in> buf_num c' ` set xs")
    case True
    then obtain e where e: "e \<in> set xs" "n = buf_num c' e" by blast
    then have "entry_ok c' (disk d') e" using es by (simp add: entries_ok_def)
    then show ?thesis using block_view_entry [OF es e(1)] e s(5,6) by (simp add: entry_ok_def)
  next
    case False
    then show ?thesis using s(6) by (simp add: block_view_disk)
  qed
  then show ?thesis using s by auto
qed

end

interpretation memcache: cached_device "dev_read mem_drivers" "dev_write mem_drivers" MEM_DEV mem_disk mem_disk_ok
  by unfold_locales

section \<open>Properties\<close>

text \<open>What a user of a block does: change the bytes and mark the block.\<close>

definition store_block :: "nat \<Rightarrow> u8 list \<Rightarrow> bufcache \<Rightarrow> bufcache" where
  "store_block e bytes c = mark_block_dirty e (c\<lparr>bc_mem := (bc_mem c)(bf_block (bc_bufs c e) := bytes)\<rparr>)"

lemma store_block_spec:
  assumes inv: "bc_inv dev c xs D" and e: "e \<in> set xs" "buf_num c e \<noteq> 0" "length bytes = bc_bs c"
  shows "bc_inv dev (store_block e bytes c) xs D"
    "block_view (store_block e bytes c) xs D n = (if n = buf_num c e then bytes else block_view c xs D n)"
proof -
  define c' where "c' = store_block e bytes c"
  have es: "entries_ok c xs D" using inv by (simp add: bc_inv_def)
  have c': "buf_num c' = buf_num c" "bc_bs c' = bc_bs c" "bf_block (bc_bufs c' z) = bf_block (bc_bufs c z)"
      "bf_refcount (bc_bufs c' z) = bf_refcount (bc_bufs c z)" "z \<noteq> e \<Longrightarrow> buf_dirty c' z = buf_dirty c z" "buf_data c' e = bytes" for z
    by (simp_all add: c'_def store_block_def mark_block_dirty_def upd_buf_def buf_num_def buf_data_def bc_bs_def buf_dirty_def fun_eq_iff)
  have dirty: "buf_dirty c' e"
  proof -
    have "bit (bf_flags (bc_bufs c' e) AND BF_DIRTY) 0"
      by (simp add: c'_def store_block_def mark_block_dirty_def upd_buf_def BF_DIRTY_def bit_simps)
    then show ?thesis by (auto simp: buf_dirty_def)
  qed
  have blk: "z \<in> set xs \<Longrightarrow> z \<noteq> e \<Longrightarrow> bf_block (bc_bufs c z) \<noteq> bf_block (bc_bufs c e)" for z
    using es e(1) by (auto simp: entries_ok_def distinct_map inj_on_def)
  have data: "z \<in> set xs \<Longrightarrow> z \<noteq> e \<Longrightarrow> buf_data c' z = buf_data c z" for z
    using blk by (auto simp: c'_def store_block_def mark_block_dirty_def upd_buf_def buf_data_def)
  have "entry_ok c' D z" if z: "z \<in> set xs" for z
  proof -
    have "entry_ok c D z" using es z by (simp add: entries_ok_def)
    then show ?thesis using c' dirty data [OF z] e(2,3) by (cases "z = e") (simp_all add: entry_ok_def)
  qed
  moreover have "(\<lambda>z. bf_block (bc_bufs c' z)) = (\<lambda>z. bf_block (bc_bufs c z))" using c'(3) by blast
  ultimately have es': "entries_ok c' xs D" using es c' by (simp add: entries_ok_def)
  then show "bc_inv dev (store_block e bytes c) xs D"
    using inv by (simp add: bc_inv_def bc_base_def store_block_def mark_block_dirty_def upd_buf_def c'_def)
  show "block_view (store_block e bytes c) xs D n = (if n = buf_num c e then bytes else block_view c xs D n)"
  proof (cases "n \<in> buf_num c ` set xs")
    case True
    then obtain z where z: "z \<in> set xs" "n = buf_num c z" by blast
    then have "z \<noteq> e \<Longrightarrow> buf_num c z \<noteq> buf_num c e" using es e(1) by (auto simp: entries_ok_def distinct_map inj_on_def)
    then show ?thesis
      using block_view_entry [OF es z(1)] block_view_entry [OF es' z(1)] data [OF z(1)] c' z(2) by (cases "z = e") (simp_all add: c'_def)
  next
    case False
    then show ?thesis using e(1) c' by (auto simp: block_view_disk c'_def)
  qed
qed


text \<open>
  C32. Synchronising the cache with the memory disk writes every changed block: afterwards the disk holds exactly what
  the users of the cache see.
\<close>

theorem sync_bufcache_updates_disk:
  assumes "bc_inv MEM_DEV c xs (mem_disk d)" "mem_disk_ok d"
  shows "\<exists>c' d'. sync_bufcache (dev_write mem_drivers) c d = Some (c', d') \<and> bc_inv MEM_DEV c' xs (mem_disk d') \<and>
    (\<forall>n. disk_block (bc_bs c) (mem_disk d') n = block_view c xs (mem_disk d) n)"
  using memcache.sync_bufcache_spec [OF assms] by blast

text \<open>A memory disk of three blocks of two bytes; block 1 is in the cache.\<close>

definition small_disk :: dev_state where
  "small_disk =
     \<lparr>fs_file_table = (\<lambda>_. \<lparr>vf_ops = 0, vf_vnode = 0, vf_refcount = 0, vf_flags = 0, vf_position = 0\<rparr>),
      fs_vnodes = (\<lambda>_. \<lparr>vn_ops = 0, vn_mp = 0, vn_refcount = 0, vn_mode = 0, vn_nlinks = 0, vn_uid = 0, vn_gid = 0, vn_bits = 0,
        vn_rdev = 0, vn_ino = 0, vn_size = 0, vn_atime = 0, vn_mtime = 0, vn_ctime = 0\<rparr>),
      fs_fd_tables = (\<lambda>_. \<lparr>fdt_refcount = 0, fdt_files = []\<rparr>), fs_freed = [],
      drv_table = [0, 0, 0, 1, 0, 0], mem_num_devices = 1, mem_devices = [\<lparr>geo_base = 100, geo_size = 6\<rparr>],
      phys_mem = (\<lambda>a. of_nat (a - 99))\<rparr>"

definition one_entry :: bufcache where
  "one_entry =
     \<lparr>bc_dev = MEM_DEV, bc_flags = 0, bc_block_size = 2, bc_num_entries = 1, bc_blocks = \<lparr>q_head = Some 1000, q_tail = Some 1000\<rparr>,
      bc_nodes = (\<lambda>_. \<lparr>node_next = None, node_prev = None\<rparr>),
      bc_bufs = (\<lambda>_. \<lparr>bf_refcount = 1, bf_flags = 0, bf_num = 1, bf_block = 2000\<rparr>), bc_mem = (\<lambda>_. [3, 4]), bc_freed = []\<rparr>"

lemma small_disk_bytes: "mem_disk small_disk = [1, 2, 3, 4, 5, 6]"
  by (simp add: mem_disk_def mem_bytes_def small_disk_def upt_rec)

lemma small_disk_facts: "mem_disk_ok small_disk" "bc_inv MEM_DEV one_entry [1000] (mem_disk small_disk)" "bc_bs one_entry = 2"
proof -
  show "mem_disk_ok small_disk" by (simp add: mem_disk_ok_def small_disk_def)
  show "bc_bs one_entry = 2" by (simp add: one_entry_def bc_bs_def)
  show "bc_inv MEM_DEV one_entry [1000] (mem_disk small_disk)"
    unfolding small_disk_bytes
    by (simp add: bc_inv_def bc_base_def one_entry_def entries_ok_def entry_ok_def queue_rep_def bc_bs_def
        buf_num_def buf_data_def buf_dirty_def disk_block_def MEM_DEV_def BUFCACHE_MAX_def)
qed

lemma one_entry_bufs: "bc_bufs one_entry z = \<lparr>bf_refcount = 1, bf_flags = 0, bf_num = 1, bf_block = 2000\<rparr>" "buf_num one_entry z = 1"
  by (simp_all add: one_entry_def buf_num_def)


theorem sync_bufcache_updates_disk_witness:
  "\<exists>c' d'. sync_bufcache (dev_write mem_drivers) (store_block 1000 [9, 9] one_entry) small_disk = Some (c', d') \<and>
     disk_block 2 (mem_disk d') 1 = [9, 9]"
proof -
  have e: "1000 \<in> set [1000]" "buf_num one_entry 1000 \<noteq> 0" "length [9, 9 :: u8] = bc_bs one_entry" "buf_num one_entry 1000 = 1"
    by (simp_all add: small_disk_facts(3) one_entry_bufs)
  note st = store_block_spec [OF small_disk_facts(2) e(1-3)]
  have bs: "bc_bs (store_block 1000 [9, 9] one_entry) = 2"
    using small_disk_facts(3) by (simp add: store_block_def mark_block_dirty_def upd_buf_def bc_bs_def)
  show ?thesis using sync_bufcache_updates_disk [OF st(1) small_disk_facts(1)] st(2) [of 1] bs e(4) by fastforce
qed

end
