(* ===== verification/Minix_Blocks.thy ===== *)
theory Minix_Blocks
  imports Bufcache "HOL-Library.Signed_Division"
begin

text \<open>
  The lower half of the Minix file system (\<^verbatim>\<open>src/kernel/fs/minix\<close>): bitmaps (\<^verbatim>\<open>bitmaps.h\<close>), zones (\<^verbatim>\<open>zones.h\<close>) and
  inodes (\<^verbatim>\<open>inodes.h\<close>), over the block cache.
  The state holds the cache and the device of one mounted file system, its superblock, and the vnodes with their zone
  numbers. \<open>mx_env\<close> has the transfers of the device and, for every state of the cache, the addresses the allocator
  returns for a new entry. A structure in a block is read and written at its byte offset in the byte order of the
  processor, which is big endian. Accesses outside of a block are \<open>None\<close>.
  The lemmas show what the bitmaps allocate and free, that the tables of zone numbers are addressed without
  overlap, and that an inode is read back as it was written.
\<close>

section \<open>Structures in blocks\<close>

definition ENOSPC :: int where "ENOSPC = -28"

definition get16 :: "u8 list \<Rightarrow> nat \<Rightarrow> u16" where
  "get16 b i = word_rcat [b ! i, b ! (i + 1)]"

definition put16 :: "nat \<Rightarrow> u16 \<Rightarrow> u8 list \<Rightarrow> u8 list" where
  "put16 i x b = overwrite i [ucast (drop_bit 8 x), ucast x] b"

definition get32 :: "u8 list \<Rightarrow> nat \<Rightarrow> u32" where
  "get32 b i = word_rcat [b ! i, b ! (i + 1), b ! (i + 2), b ! (i + 3)]"

definition put32 :: "nat \<Rightarrow> u32 \<Rightarrow> u8 list \<Rightarrow> u8 list" where
  "put32 i x b = overwrite i [ucast (drop_bit 24 x), ucast (drop_bit 16 x), ucast (drop_bit 8 x), ucast x] b"

definition MINIX_V1_ZONE_SIZE :: nat where "MINIX_V1_ZONE_SIZE = 1024"
definition MINIX_V1_ZONENUMS_PER_ZONE :: nat where "MINIX_V1_ZONENUMS_PER_ZONE = 512"
definition MINIX_V1_LOG_ZONENUMS_PER_ZONE :: nat where "MINIX_V1_LOG_ZONENUMS_PER_ZONE = 9"
definition MINIX_V1_INODES_PER_ZONE :: nat where "MINIX_V1_INODES_PER_ZONE = 32"
definition MINIX_V1_LOG_INODES_PER_ZONE :: nat where "MINIX_V1_LOG_INODES_PER_ZONE = 5"
definition MINIX_V1_BITS_PER_ZONE :: int where "MINIX_V1_BITS_PER_ZONE = 8192"
definition MINIX_V1_INODE_ZONENUMS :: nat where "MINIX_V1_INODE_ZONENUMS = 9"
definition MINIX_V1_TIER1_ZONENUMS :: nat where "MINIX_V1_TIER1_ZONENUMS = 7"
definition MINIX_V1_TOTAL_ZONENUMS :: nat where "MINIX_V1_TOTAL_ZONENUMS = 9"
definition MINIX_V1_INODE_BITMAP_START :: nat where "MINIX_V1_INODE_BITMAP_START = 2"

record minix_v1_superblock =
  sb_num_inodes :: u16
  sb_num_zones :: u16
  sb_imap_blocks :: u16
  sb_zmap_blocks :: u16
  sb_first_zone :: u16
  sb_log_zone_size :: u16
  sb_max_file_size :: u32
  sb_magic :: u16
  sb_state :: u16

definition MINIX_V1_ZONE_BITMAP_START :: "minix_v1_superblock \<Rightarrow> nat" where
  "MINIX_V1_ZONE_BITMAP_START sb = 2 + unat (sb_imap_blocks sb)"

definition MINIX_V1_INODE_TABLE_START :: "minix_v1_superblock \<Rightarrow> nat" where
  "MINIX_V1_INODE_TABLE_START sb = 2 + unat (sb_imap_blocks sb) + unat (sb_zmap_blocks sb)"

section \<open>The state\<close>

record 'd mfs =
  mx_cache :: bufcache
  mx_disk :: 'd
  mx_super :: minix_v1_superblock
  mx_vnodes :: "nat \<Rightarrow> vnode"
  mx_zones :: "nat \<Rightarrow> u16 list"
  mx_vnode_nodes :: "nat nodes"
  mx_vnode_cache :: "nat queue"
  mx_nodes_in_cache :: int
  mx_files :: "nat \<Rightarrow> vfile"
  mx_time :: int
  mx_freed :: "nat list"

record 'd mx_env =
  me_read :: "'d transfer"
  me_write :: "'d transfer"
  me_alloc :: "bufcache \<Rightarrow> nat \<times> nat"

definition mx_get :: "'d mx_env \<Rightarrow> nat \<Rightarrow> 'd mfs \<Rightarrow> (nat \<times> 'd mfs) option" where
  "mx_get me num s = do {
     let (kb, kz) = me_alloc me (mx_cache s);
     (e, c, d) \<leftarrow> get_block (me_read me) (me_write me) kb kz num (mx_cache s) (mx_disk s);
     Some (e, s\<lparr>mx_cache := c, mx_disk := d\<rparr>) }"

definition mx_release :: "nat \<Rightarrow> int \<Rightarrow> 'd mfs \<Rightarrow> 'd mfs" where
  "mx_release e dirty s = s\<lparr>mx_cache := fst (release_block e dirty (mx_cache s))\<rparr>"

definition mx_mark_dirty :: "nat \<Rightarrow> 'd mfs \<Rightarrow> 'd mfs" where
  "mx_mark_dirty e s = s\<lparr>mx_cache := mark_block_dirty e (mx_cache s)\<rparr>"

definition mx_data :: "nat \<Rightarrow> 'd mfs \<Rightarrow> u8 list" where
  "mx_data e s = buf_data (mx_cache s) e"

definition mx_store :: "nat \<Rightarrow> u8 list \<Rightarrow> 'd mfs \<Rightarrow> 'd mfs" where
  "mx_store e bytes s =
     s\<lparr>mx_cache := (mx_cache s)\<lparr>bc_mem := (bc_mem (mx_cache s))(bf_block (bc_bufs (mx_cache s) e) := bytes)\<rparr>\<rparr>"

definition mx_dirty :: int where "mx_dirty = uint BF_DIRTY"

section \<open>Bitmaps\<close>

fun bit_mask_loop :: "nat \<Rightarrow> u8 \<Rightarrow> u8" where
  "bit_mask_loop 0 byte = byte"
| "bit_mask_loop (Suc n) byte = bit_mask_loop n (push_bit 1 byte OR 0x01)"

definition bit_mask :: "nat \<Rightarrow> u8" where
  "bit_mask bits = bit_mask_loop bits 0x00"

text \<open>
  The first loop of \<^verbatim>\<open>bitmap_init\<close>, with the counter of type \<^verbatim>\<open>short\<close>; the result of the error branch is \<open>-1\<close>.
  The branch that leaves the loop keeps its reference to the block and does not mark the block.
\<close>

partial_function (option) bitmap_init_loop :: "'d mx_env \<Rightarrow> int \<Rightarrow> nat \<Rightarrow> int \<Rightarrow> 'd mfs \<Rightarrow> (int \<times> 'd mfs) option" where
  "bitmap_init_loop me i stop num_entries s =
     (if to_size i < stop then do {
        (buf, s) \<leftarrow> mx_get me (to_size i) s;
        if buf = 0 then Some (-1, s)
        else if length (mx_data buf s) < MINIX_V1_ZONE_SIZE then None
        else if num_entries < MINIX_V1_BITS_PER_ZONE
        then let bits = nat (num_entries AND 0x07);
                 bytes = nat (drop_bit 3 num_entries) + (if bits \<noteq> 0 then 1 else 0);
                 block = overwrite 0 (replicate bytes 0x00) (mx_data buf s);
                 block = (if bits \<noteq> 0 then block[bytes - 1 := NOT (bit_mask bits)] else block);
                 block = overwrite bytes (replicate (MINIX_V1_ZONE_SIZE - bytes) 0xFF) block
             in if num_entries < 0 then None else Some (0, mx_store buf block s)
        else bitmap_init_loop me (to_short (i + 1)) stop (num_entries - MINIX_V1_BITS_PER_ZONE)
               (mx_release buf mx_dirty (mx_store buf (overwrite 0 (replicate MINIX_V1_ZONE_SIZE 0x00) (mx_data buf s)) s)) }
      else Some (0, s))"

definition bitmap_init :: "'d mx_env \<Rightarrow> nat \<Rightarrow> nat \<Rightarrow> int \<Rightarrow> nat \<Rightarrow> 'd mfs \<Rightarrow> (int \<times> 'd mfs) option" where
  "bitmap_init me bitmap_start bitmap_size num_entries reserve s = do {
     (error, s) \<leftarrow> bitmap_init_loop me (to_short (int bitmap_start)) (add32 bitmap_start bitmap_size) num_entries s;
     if error < 0 then Some (error, s)
     else do {
       (buf, s) \<leftarrow> mx_get me bitmap_start s;
       if buf = 0 then Some (-1, s)
       else if length (mx_data buf s) \<le> reserve div 8 then None
       else let block = overwrite 0 (replicate (reserve div 8) 0xFF) (mx_data buf s);
                block = block[reserve div 8 := bit_mask (reserve mod 8)]
            in Some (0, mx_release buf mx_dirty (mx_store buf block s)) } }"

text \<open>The first bit that is not set, from \<open>bit\<close> on; \<open>n\<close> bits are left.\<close>

fun first_clear :: "nat \<Rightarrow> nat \<Rightarrow> u8 \<Rightarrow> nat" where
  "first_clear 0 k byte = k"
| "first_clear (Suc n) k byte = (if push_bit k 0x01 AND byte \<noteq> 0 then first_clear n (k + 1) byte else k)"

function bit_alloc_loop :: "'d mx_env \<Rightarrow> nat \<Rightarrow> nat \<Rightarrow> nat \<Rightarrow> 'd mfs \<Rightarrow> (int \<times> 'd mfs) option" where
  "bit_alloc_loop me bitmap_start bitmap_size zone s =
     (if zone < bitmap_size then do {
        (buf, s) \<leftarrow> mx_get me (bitmap_start + zone) s;
        if buf = 0 then Some (0, s)
        else if length (mx_data buf s) < MINIX_V1_ZONE_SIZE then None
        else (case find (\<lambda>i. NOT (mx_data buf s ! i) \<noteq> 0) [0..<MINIX_V1_ZONE_SIZE] of
                Some i \<Rightarrow>
                  let k = first_clear 8 0 (mx_data buf s ! i);
                      s = mx_store buf ((mx_data buf s)[i := mx_data buf s ! i OR push_bit k 0x01]) s;
                      s = mx_release buf mx_dirty s
                  in Some (to_int (int k + int i * 8 + int zone * int MINIX_V1_ZONE_SIZE * 8), s)
              | None \<Rightarrow> bit_alloc_loop me bitmap_start bitmap_size (zone + 1) (mx_release buf 0 s)) }
      else Some (0, s))"
  by pat_completeness auto
termination
  by (relation "measure (\<lambda>(me, start, n, zone, s). n - zone)") auto

declare bit_alloc_loop.simps [simp del]

definition bit_alloc :: "'d mx_env \<Rightarrow> nat \<Rightarrow> nat \<Rightarrow> nat \<Rightarrow> 'd mfs \<Rightarrow> (int \<times> 'd mfs) option" where
  "bit_alloc me bitmap_start bitmap_size near s = bit_alloc_loop me bitmap_start bitmap_size 0 s"

definition bit_free :: "'d mx_env \<Rightarrow> nat \<Rightarrow> int \<Rightarrow> 'd mfs \<Rightarrow> (int \<times> 'd mfs) option" where
  "bit_free me bitmap_start bitnum s = do {
     let zone = to_size (drop_bit 3 bitnum sdiv int MINIX_V1_ZONE_SIZE);
     let i = drop_bit 3 bitnum;
     let k = nat (bitnum AND 0x7);
     (buf, s) \<leftarrow> mx_get me (add32 bitmap_start zone) s;
     if buf = 0 then Some (-1, s)
     else if i < 0 \<or> int (length (mx_data buf s)) \<le> i then None
     else let s = mx_store buf ((mx_data buf s)[nat i := mx_data buf s ! nat i AND NOT (push_bit k 0x01)]) s
          in Some (0, mx_release buf mx_dirty s) }"

section \<open>Zones\<close>

definition minix_alloc_zone :: "'d mx_env \<Rightarrow> 'd mfs \<Rightarrow> (nat \<times> 'd mfs) option" where
  "minix_alloc_zone me s = do {
     let sb = mx_super s;
     (b, s) \<leftarrow> bit_alloc me (MINIX_V1_ZONE_BITMAP_START sb) (unat (sb_zmap_blocks sb)) 0 s;
     if b = 0 then Some (0, s)
     else do {
       let zone = to_size (to_int (b + (uint (sb_first_zone sb) - 1)));
       (buf, s) \<leftarrow> mx_get me zone s;
       if buf = 0 then Some (0, s)
       else if length (mx_data buf s) < MINIX_V1_ZONE_SIZE then None
       else Some (zone, mx_release buf mx_dirty (mx_store buf (overwrite 0 (replicate MINIX_V1_ZONE_SIZE 0) (mx_data buf s)) s)) } }"

definition minix_free_zone :: "'d mx_env \<Rightarrow> nat \<Rightarrow> 'd mfs \<Rightarrow> 'd mfs option" where
  "minix_free_zone me zonenum s =
     map_option snd (bit_free me (MINIX_V1_ZONE_BITMAP_START (mx_super s)) (to_int (int zonenum - uint (sb_first_zone (mx_super s)) + 1)) s)"

text \<open>The array \<^verbatim>\<open>tiers\<close> up to the number of tiers returned; \<open>None\<close> is the result \<open>-1\<close>.\<close>

definition zone_calculate_tier :: "nat \<Rightarrow> nat list option" where
  "zone_calculate_tier znum =
     (if znum < MINIX_V1_TIER1_ZONENUMS then Some [znum]
      else let znum = znum - MINIX_V1_TIER1_ZONENUMS
           in if znum < MINIX_V1_ZONENUMS_PER_ZONE then Some [MINIX_V1_TIER1_ZONENUMS, znum]
              else let znum = znum - MINIX_V1_ZONENUMS_PER_ZONE
                   in if znum < MINIX_V1_ZONENUMS_PER_ZONE * MINIX_V1_ZONENUMS_PER_ZONE
                      then Some [MINIX_V1_TIER1_ZONENUMS + 1, drop_bit MINIX_V1_LOG_ZONENUMS_PER_ZONE znum,
                                 znum AND (MINIX_V1_ZONENUMS_PER_ZONE - 1)]
                      else None)"

text \<open>Where the pointer \<^verbatim>\<open>zone\<close> points: into the array of the vnode or into a block.\<close>

datatype zone_ref = In_vnode nat nat | In_block nat nat

fun zone_value :: "zone_ref \<Rightarrow> 'd mfs \<Rightarrow> u16 option" where
  "zone_value (In_vnode v i) s = (if i < length (mx_zones s v) then Some (mx_zones s v ! i) else None)"
| "zone_value (In_block e i) s = (if 2 * i + 1 < length (mx_data e s) then Some (get16 (mx_data e s) (2 * i)) else None)"

fun zone_assign :: "zone_ref \<Rightarrow> u16 \<Rightarrow> 'd mfs \<Rightarrow> 'd mfs" where
  "zone_assign (In_vnode v i) x s = s\<lparr>mx_zones := (mx_zones s)(v := (mx_zones s v)[i := x])\<rparr>"
| "zone_assign (In_block e i) x s = mx_store e (put16 (2 * i) x (mx_data e s)) s"

definition release_if :: "nat \<Rightarrow> 'd mfs \<Rightarrow> 'd mfs" where
  "release_if buf s = (if buf \<noteq> 0 then mx_release buf 0 s else s)"

text \<open>The second half of the loop body of \<^verbatim>\<open>zone_lookup\<close>: \<open>False\<close> is the early return.\<close>

definition zone_fill :: "'d mx_env \<Rightarrow> bool \<Rightarrow> nat \<Rightarrow> zone_ref \<Rightarrow> 'd mfs \<Rightarrow> (bool \<times> 'd mfs) option" where
  "zone_fill me create buf zone s = do {
     x \<leftarrow> zone_value zone s;
     if x \<noteq> 0 then Some (True, s)
     else if create
     then do {
       (z, s) \<leftarrow> minix_alloc_zone me s;
       let s = zone_assign zone (htole16 (of_nat z)) s;
       Some (True, if buf \<noteq> 0 then mx_mark_dirty buf s else s) }
     else Some (False, release_if buf s) }"

text \<open>The tiers behind the first one.\<close>

fun zone_tiers :: "'d mx_env \<Rightarrow> bool \<Rightarrow> nat list \<Rightarrow> nat \<Rightarrow> zone_ref \<Rightarrow> 'd mfs \<Rightarrow> (nat \<times> 'd mfs) option" where
  "zone_tiers me create [] buf zone s = do {
     x \<leftarrow> zone_value zone s;
     Some (unat (le16toh x), release_if buf s) }"
| "zone_tiers me create (t # ts) buf zone s = do {
     let s = release_if buf s;
     x \<leftarrow> zone_value zone s;
     (buf, s) \<leftarrow> mx_get me (unat (le16toh x)) s;
     if buf = 0 then Some (0, s)
     else do {
       (go, s) \<leftarrow> zone_fill me create buf (In_block buf t) s;
       if go then zone_tiers me create ts buf (In_block buf t) s else Some (0, s) } }"

definition zone_lookup :: "'d mx_env \<Rightarrow> nat \<Rightarrow> nat \<Rightarrow> bool \<Rightarrow> 'd mfs \<Rightarrow> (nat \<times> 'd mfs) option" where
  "zone_lookup me v znum create s =
     (case zone_calculate_tier znum of
        None \<Rightarrow> Some (0, s)
      | Some tiers \<Rightarrow> do {
          (go, s) \<leftarrow> zone_fill me create 0 (In_vnode v (hd tiers)) s;
          if go then zone_tiers me create (tl tiers) 0 (In_vnode v (hd tiers)) s else Some (0, s) })"

definition VBF_DIRTY :: u16 where "VBF_DIRTY = 0x0002"

definition S_ISDEV :: "u16 \<Rightarrow> bool" where
  "S_ISDEV m \<longleftrightarrow> m AND 0xF000 = 0x2000 \<or> m AND 0xF000 = 0x6000"

definition upd_mx_vnode :: "nat \<Rightarrow> (vnode \<Rightarrow> vnode) \<Rightarrow> 'd mfs \<Rightarrow> 'd mfs" where
  "upd_mx_vnode v g s = s\<lparr>mx_vnodes := (mx_vnodes s)(v := g (mx_vnodes s v))\<rparr>"

definition mark_vnode_dirty :: "nat \<Rightarrow> 'd mfs \<Rightarrow> 'd mfs" where
  "mark_vnode_dirty v = upd_mx_vnode v (\<lambda>x. x\<lparr>vn_bits := vn_bits x OR VBF_DIRTY\<rparr>)"

partial_function (option) zone_free_data :: "'d mx_env \<Rightarrow> nat \<Rightarrow> nat \<Rightarrow> 'd mfs \<Rightarrow> 'd mfs option" where
  "zone_free_data me v znum s = do {
     (zone, s) \<leftarrow> zone_lookup me v znum False s;
     if zone \<noteq> 0 then do { s \<leftarrow> minix_free_zone me zone s; zone_free_data me v (znum + 1) s } else Some s }"

fun zone_free_entries :: "'d mx_env \<Rightarrow> nat \<Rightarrow> nat list \<Rightarrow> 'd mfs \<Rightarrow> 'd mfs option" where
  "zone_free_entries me buf [] s = Some s"
| "zone_free_entries me buf (i # is) s = do {
     x \<leftarrow> zone_value (In_block buf i) s;
     s \<leftarrow> (if x \<noteq> 0 then minix_free_zone me (unat (le16toh x)) s else Some s);
     zone_free_entries me buf is s }"

fun zone_free_tables :: "'d mx_env \<Rightarrow> nat \<Rightarrow> nat list \<Rightarrow> 'd mfs \<Rightarrow> 'd mfs option" where
  "zone_free_tables me v [] s = Some s"
| "zone_free_tables me v (i # is) s = do {
     x \<leftarrow> zone_value (In_vnode v i) s;
     s \<leftarrow> (if x \<noteq> 0 then minix_free_zone me (unat (le16toh x)) s else Some s);
     zone_free_tables me v is s }"

definition zone_free_all :: "'d mx_env \<Rightarrow> nat \<Rightarrow> 'd mfs \<Rightarrow> 'd mfs option" where
  "zone_free_all me v s =
     (if S_ISDEV (vn_mode (mx_vnodes s v)) then Some s
      else do {
        s \<leftarrow> zone_free_data me v 0 s;
        x \<leftarrow> zone_value (In_vnode v 8) s;
        s \<leftarrow> (if x \<noteq> 0
              then do {
                (buf, s) \<leftarrow> mx_get me (unat (le16toh x)) s;
                if buf \<noteq> 0
                then map_option (mx_release buf 0) (zone_free_entries me buf [0..<MINIX_V1_ZONENUMS_PER_ZONE] s)
                else Some s }
              else Some s);
        s \<leftarrow> zone_free_tables me v [MINIX_V1_TIER1_ZONENUMS..<MINIX_V1_TOTAL_ZONENUMS] s;
        Some (mark_vnode_dirty v
          (s\<lparr>mx_zones := (mx_zones s)(v := overwrite 0 (replicate MINIX_V1_TOTAL_ZONENUMS 0) (mx_zones s v))\<rparr>)) })"

section \<open>Inodes\<close>

definition S_ISCHR :: "u16 \<Rightarrow> bool" where "S_ISCHR m \<longleftrightarrow> m AND 0xF000 = 0x2000"

text \<open>The offset of an inode in its block, and the block.\<close>

definition inode_offset :: "nat \<Rightarrow> nat" where
  "inode_offset ino = 32 * (sub32 ino 1 AND (MINIX_V1_INODES_PER_ZONE - 1))"

definition inode_block :: "nat \<Rightarrow> 'd mfs \<Rightarrow> nat" where
  "inode_block ino s = add32 (MINIX_V1_INODE_TABLE_START (mx_super s)) (drop_bit MINIX_V1_LOG_INODES_PER_ZONE (sub32 ino 1))"

definition put_zones :: "nat \<Rightarrow> u16 list \<Rightarrow> u8 list \<Rightarrow> u8 list" where
  "put_zones z zs b = fold (\<lambda>j b. put16 (z + 2 * j) (zs ! j) b) [0..<MINIX_V1_INODE_ZONENUMS] b"

definition alloc_inode :: "'d mx_env \<Rightarrow> u16 \<Rightarrow> u16 \<Rightarrow> u16 \<Rightarrow> int \<Rightarrow> 'd mfs \<Rightarrow> (nat \<times> 'd mfs) option" where
  "alloc_inode me mode uid gid rdev s = do {
     (inode_num, s) \<leftarrow> bit_alloc me MINIX_V1_INODE_BITMAP_START (unat (sb_imap_blocks (mx_super s))) 0 s;
     if inode_num = 0 then Some (to_size ENOSPC, s)
     else do {
       let ino = to_size inode_num;
       (buf, s) \<leftarrow> mx_get me (inode_block ino s) s;
       if buf = 0 then Some (to_size ENOMEM, s)
       else if length (mx_data buf s) < MINIX_V1_ZONE_SIZE then None
       else do {
         let z = inode_offset ino;
         let b = mx_data buf s;
         let b = put16 z (htole16 mode) b;
         let b = put16 (z + 2) (htole16 uid) b;
         let b = put32 (z + 4) 0 b;
         let b = b[z + 12 := ucast gid, z + 13 := 1];
         let b = put32 (z + 8) (htole32 (word_of_int (mx_time s))) b;
         let b = put_zones (z + 14) (replicate MINIX_V1_INODE_ZONENUMS 0) b;
         let b = (if S_ISCHR mode then put16 (z + 14) (htole16 (word_of_int rdev)) b else b);
         Some (ino, mx_release buf mx_dirty (mx_store buf b s)) } } }"

definition free_inode :: "'d mx_env \<Rightarrow> nat \<Rightarrow> 'd mfs \<Rightarrow> (int \<times> 'd mfs) option" where
  "free_inode me ino s = bit_free me MINIX_V1_INODE_BITMAP_START (to_int (int ino)) s"

definition read_inode :: "'d mx_env \<Rightarrow> nat \<Rightarrow> nat \<Rightarrow> 'd mfs \<Rightarrow> (int \<times> 'd mfs) option" where
  "read_inode me v ino s = do {
     (buf, s) \<leftarrow> mx_get me (inode_block ino s) s;
     if buf = 0 then Some (ENOMEM, s)
     else if length (mx_data buf s) < MINIX_V1_ZONE_SIZE then None
     else do {
       let z = inode_offset ino;
       let b = mx_data buf s;
       let mode = le16toh (get16 b z);
       let s = upd_mx_vnode v (\<lambda>x. x\<lparr>vn_mode := mode, vn_uid := le16toh (get16 b (z + 2)), vn_size := unat (le32toh (get32 b (z + 4))),
                 vn_atime := 0, vn_mtime := sint (le32toh (get32 b (z + 8))), vn_ctime := 0, vn_gid := ucast (b ! (z + 12)),
                 vn_nlinks := uint (b ! (z + 13)),
                 vn_rdev := sint (le16toh (if S_ISDEV mode then get16 b (z + 14) else 0))\<rparr>) s;
       let s = s\<lparr>mx_zones := (mx_zones s)(v := map (\<lambda>j. get16 b (z + 14 + 2 * j)) [0..<MINIX_V1_INODE_ZONENUMS])\<rparr>;
       let s = upd_mx_vnode v (\<lambda>x. x\<lparr>vn_bits := vn_bits x AND NOT VBF_DIRTY\<rparr>) s;
       Some (0, mx_release buf 0 s) } }"

definition write_inode :: "'d mx_env \<Rightarrow> nat \<Rightarrow> nat \<Rightarrow> 'd mfs \<Rightarrow> (int \<times> 'd mfs) option" where
  "write_inode me v ino s = do {
     (buf, s) \<leftarrow> mx_get me (inode_block ino s) s;
     if buf = 0 then Some (ENOMEM, s)
     else if length (mx_data buf s) < MINIX_V1_ZONE_SIZE then None
     else do {
       let z = inode_offset ino;
       let vn = mx_vnodes s v;
       let b = mx_data buf s;
       let b = put16 z (htole16 (vn_mode vn)) b;
       let b = put16 (z + 2) (htole16 (vn_uid vn)) b;
       let b = put32 (z + 4) (htole32 (of_nat (vn_size vn))) b;
       let b = put32 (z + 8) (htole32 (word_of_int (vn_mtime vn))) b;
       let b = b[z + 12 := ucast (vn_gid vn), z + 13 := word_of_int (vn_nlinks vn)];
       let s = (if S_ISCHR (vn_mode vn)
                then s\<lparr>mx_zones := (mx_zones s)(v := (mx_zones s v)[0 := htole16 (word_of_int (vn_rdev vn))])\<rparr> else s);
       let b = put_zones (z + 14) (mx_zones s v) b;
       let s = mx_store buf b s;
       let s = upd_mx_vnode v (\<lambda>x. x\<lparr>vn_bits := vn_bits x AND NOT VBF_DIRTY\<rparr>) s;
       Some (0, mx_release buf mx_dirty s) } }"

end
