(* ===== verification/Minix_Store.thy ===== *)
theory Minix_Store
  imports Minix_Blocks
begin

text \<open>
  What the file system relies on in the block cache, as the locale \<open>block_store\<close>: the blocks are a function from
  numbers to contents, a block that has been fetched can be read and changed until it is released, and nothing but a
  change is visible. The interpretation shows this for the block cache on the memory disk.
\<close>

section \<open>The interface\<close>

text \<open>
  \<open>rep s H V\<close>: the state \<open>s\<close> stands for the blocks \<open>V\<close>, and \<open>H\<close> are the references that are held: the entry and the
  number of its block.
\<close>

type_synonym blocks = "nat \<Rightarrow> u8 list"

locale block_store =
  fixes me :: "'d mx_env" and rep :: "'d mfs \<Rightarrow> (nat \<times> nat) list \<Rightarrow> blocks \<Rightarrow> bool"
  assumes get: "rep s H V \<Longrightarrow> length H < BUFCACHE_MAX \<Longrightarrow> length (V n) = MINIX_V1_ZONE_SIZE \<Longrightarrow>
      \<exists>e s'. mx_get me n s = Some (e, s') \<and> 0 < e \<and> rep s' ((e, n) # H) V"
    and data: "rep s H V \<Longrightarrow> (e, n) \<in> set H \<Longrightarrow> mx_data e s = V n"
    and update: "rep s H V \<Longrightarrow> (e, n) \<in> set H \<Longrightarrow> 0 < n \<Longrightarrow> length b = MINIX_V1_ZONE_SIZE \<Longrightarrow>
      rep (mx_mark_dirty e (mx_store e b s)) H (V(n := b))"
    and release: "rep s ((e, n) # H) V \<Longrightarrow> rep (mx_release e 0 s) H V"
    and other: "rep s H V \<Longrightarrow> mx_cache s' = mx_cache s \<Longrightarrow> mx_disk s' = mx_disk s \<Longrightarrow> rep s' H V"
begin

end

section \<open>The block cache on the memory disk\<close>

definition mem_env :: "(bufcache \<Rightarrow> nat \<times> nat) \<Rightarrow> dev_state mx_env" where
  "mem_env al = \<lparr>me_read = dev_read mem_drivers, me_write = dev_write mem_drivers, me_alloc = al\<rparr>"

text \<open>The allocator returns memory that is not in use by the cache.\<close>

definition fresh_alloc :: "(bufcache \<Rightarrow> nat \<times> nat) \<Rightarrow> bool" where
  "fresh_alloc al \<longleftrightarrow> (\<forall>c xs. queue_rep (bc_blocks c) (bc_nodes c) xs \<longrightarrow> length xs \<le> BUFCACHE_MAX \<longrightarrow>
     fst (al c) \<notin> set xs \<and> 0 < fst (al c) \<and> snd (al c) \<notin> (\<lambda>e. bf_block (bc_bufs c e)) ` set xs \<and> 0 < snd (al c))"

definition mx_rep :: "dev_state mfs \<Rightarrow> (nat \<times> nat) list \<Rightarrow> blocks \<Rightarrow> bool" where
  "mx_rep s H V \<longleftrightarrow> (\<exists>xs. bc_inv MEM_DEV (mx_cache s) xs (mem_disk (mx_disk s)) \<and> mem_disk_ok (mx_disk s) \<and>
     bc_bs (mx_cache s) = MINIX_V1_ZONE_SIZE \<and> block_view (mx_cache s) xs (mem_disk (mx_disk s)) = V \<and>
     (\<forall>e \<in> set xs. bf_refcount (bc_bufs (mx_cache s) e) = int (count_list (map fst H) e)) \<and>
     (\<forall>(e, n) \<in> set H. e \<in> set xs \<and> buf_num (mx_cache s) e = n) \<and> length H \<le> BUFCACHE_MAX)"

lemma some_entry_unused:
  assumes "length xs = BUFCACHE_MAX" "distinct xs" "length H < BUFCACHE_MAX"
  shows "\<exists>e \<in> set xs. count_list (map fst H) e = 0"
proof -
  have "card (set (map fst H)) < card (set xs)"
    using assms card_length [of "map fst H"] by (simp add: distinct_card)
  then have "\<not> set xs \<subseteq> set (map fst H)" using card_mono [of "set (map fst H)" "set xs"] by auto
  then show ?thesis by (auto simp: count_list_0_iff)
qed

lemma view_length:
  assumes "entries_ok c xs D" "length (block_view c xs D n) = bc_bs c" "0 < bc_bs c"
  shows "(n + 1) * bc_bs c \<le> length D"
proof (cases "n \<in> buf_num c ` set xs")
  case True
  then show ?thesis using assms(1) by (auto simp: entries_ok_def entry_ok_def)
next
  case False
  then have "bc_bs c \<le> length D - n * bc_bs c" using assms(2) by (simp add: block_view_disk disk_block_def)
  then show ?thesis using assms(3) by simp
qed

lemma mx_rep_get:
  assumes rep: "mx_rep s H V" and room: "length H < BUFCACHE_MAX" and n: "length (V n) = MINIX_V1_ZONE_SIZE" and al: "fresh_alloc al"
  shows "\<exists>e s'. mx_get (mem_env al) n s = Some (e, s') \<and> 0 < e \<and> mx_rep s' ((e, n) # H) V"
proof -
  define c d where "c = mx_cache s" and "d = mx_disk s"
  obtain xs where xs: "bc_inv MEM_DEV c xs (mem_disk d)" "mem_disk_ok d" "bc_bs c = MINIX_V1_ZONE_SIZE" "block_view c xs (mem_disk d) = V"
      "\<forall>e \<in> set xs. bf_refcount (bc_bufs c e) = int (count_list (map fst H) e)" "\<forall>(e, n) \<in> set H. e \<in> set xs \<and> buf_num c e = n"
    using rep by (auto simp: mx_rep_def c_def d_def)
  obtain kb kz where k: "al c = (kb, kz)" by fastforce
  have q: "queue_rep (bc_blocks c) (bc_nodes c) xs" "length xs \<le> BUFCACHE_MAX" using xs(1) by (simp_all add: bc_inv_def)
  have fresh: "kb \<notin> set xs" "0 < kb" "0 < kz" "kz \<notin> (\<lambda>e. bf_block (bc_bufs c e)) ` set xs"
    using al q k unfolding fresh_alloc_def by force+
  have "distinct xs" using q(1) by (simp add: queue_rep_def)
  then have free: "length xs < BUFCACHE_MAX \<or> (\<exists>e \<in> set xs. bf_refcount (bc_bufs c e) = 0)"
    using some_entry_unused [OF _ _ room, of xs] xs(5) q(2) by fastforce
  have refs: "\<forall>e \<in> set xs. bf_refcount (bc_bufs c e) < 2147483647"
  proof
    fix e assume "e \<in> set xs"
    moreover have "count_list (map fst H) e \<le> length H" using count_le_length [of "map fst H" e] by simp
    ultimately show "bf_refcount (bc_bufs c e) < 2147483647" using xs(5) room by (simp add: BUFCACHE_MAX_def)
  qed
  have n': "(n + 1) * bc_bs c \<le> length (mem_disk d)"
    using view_length [of c xs "mem_disk d" n] xs n by (simp add: bc_inv_def MINIX_V1_ZONE_SIZE_def)
  obtain e c' d' ys where g: "get_block (dev_read mem_drivers) (dev_write mem_drivers) kb kz n c d = Some (e, c', d')"
      "bc_inv MEM_DEV c' ys (mem_disk d')" "mem_disk_ok d'" "e \<in> set ys" "buf_num c' e = n"
      "\<forall>m. block_view c' ys (mem_disk d') m = block_view c xs (mem_disk d) m" "took_reference c xs c' ys e"
    using memcache.get_block_spec [OF xs(1,2) fresh free refs n'] by blast
  have t: "0 < e" "bc_bs c' = bc_bs c" "bf_refcount (bc_bufs c' e) = (if e \<in> set xs then bf_refcount (bc_bufs c e) else 0) + 1"
      "\<forall>z \<in> set ys. z \<noteq> e \<longrightarrow> z \<in> set xs \<and> bf_refcount (bc_bufs c' z) = bf_refcount (bc_bufs c z)"
      "\<forall>z \<in> set xs. 0 < bf_refcount (bc_bufs c z) \<longrightarrow> z \<in> set ys \<and> buf_num c' z = buf_num c z"
    using g(7) by (simp_all add: took_reference_def)
  have held: "fst ` set H \<subseteq> set xs" using xs(6) by auto
  have "count_list (map fst H) e = 0" if "e \<notin> set xs" using that held by (auto simp: count_list_0_iff)
  then have "\<forall>z \<in> set ys. bf_refcount (bc_bufs c' z) = int (count_list (map fst ((e, n) # H)) z)"
    using t(3,4) xs(5) by auto
  moreover have "z \<in> set ys \<and> buf_num c' z = m" if "(z, m) \<in> set H" for z m
  proof -
    have z: "z \<in> set xs" "buf_num c z = m" using xs(6) that by auto
    have "z \<in> set (map fst H)" using that by force
    then have "count_list (map fst H) z \<noteq> 0" unfolding count_list_0_iff by blast
    then show ?thesis using xs(5) t(5) z by auto
  qed
  moreover have "block_view c' ys (mem_disk d') = V" using g(6) xs(4) by auto
  ultimately have "mx_rep (s\<lparr>mx_cache := c', mx_disk := d'\<rparr>) ((e, n) # H) V"
    unfolding mx_rep_def using g(2-5) t(2) xs(3) room by (intro exI [of _ ys]) auto
  moreover have "mx_get (mem_env al) n s = Some (e, s\<lparr>mx_cache := c', mx_disk := d'\<rparr>)"
    using g(1) k by (simp add: mx_get_def mem_env_def c_def [symmetric] d_def [symmetric])
  ultimately show ?thesis using t(1) by blast
qed

lemma mx_rep_data: "mx_rep s H V \<Longrightarrow> (e, n) \<in> set H \<Longrightarrow> mx_data e s = V n"
  unfolding mx_rep_def mx_data_def bc_inv_def using block_view_entry by fastforce

lemma mx_rep_update:
  assumes "mx_rep s H V" "(e, n) \<in> set H" "0 < n" "length b = MINIX_V1_ZONE_SIZE"
  shows "mx_rep (mx_mark_dirty e (mx_store e b s)) H (V(n := b))"
proof -
  define c d where "c = mx_cache s" and "d = mx_disk s"
  obtain xs where xs: "bc_inv MEM_DEV c xs (mem_disk d)" "mem_disk_ok d" "bc_bs c = MINIX_V1_ZONE_SIZE" "block_view c xs (mem_disk d) = V"
      "\<forall>e \<in> set xs. bf_refcount (bc_bufs c e) = int (count_list (map fst H) e)" "\<forall>(e, n) \<in> set H. e \<in> set xs \<and> buf_num c e = n"
      "length H \<le> BUFCACHE_MAX"
    using assms(1) by (auto simp: mx_rep_def c_def d_def)
  have e: "e \<in> set xs" "buf_num c e = n" using xs(6) assms(2) by auto
  have s': "mx_cache (mx_mark_dirty e (mx_store e b s)) = store_block e b c" "mx_disk (mx_mark_dirty e (mx_store e b s)) = d"
    by (simp_all add: mx_mark_dirty_def mx_store_def store_block_def c_def d_def)
  have c': "bc_bs (store_block e b c) = bc_bs c" "buf_num (store_block e b c) z = buf_num c z"
      "bf_refcount (bc_bufs (store_block e b c) z) = bf_refcount (bc_bufs c z)" for z
    by (simp_all add: store_block_def mark_block_dirty_def upd_buf_def bc_bs_def buf_num_def)
  have len: "buf_num c e \<noteq> 0" "length b = bc_bs c" using e(2) assms(3,4) xs(3) by simp_all
  note st = store_block_spec [OF xs(1) e(1) len]
  have "block_view (store_block e b c) xs (mem_disk d) = V(n := b)" using st(2) e(2) xs(4) by auto
  then show ?thesis unfolding mx_rep_def s' using st(1) xs c' by (intro exI [of _ xs]) simp
qed

lemma refcount_change:
  assumes "bc_inv dev c xs D" "0 \<le> r"
  shows "bc_inv dev (upd_buf e (\<lambda>b. b\<lparr>bf_refcount := r\<rparr>) c) xs D"
    "block_view (upd_buf e (\<lambda>b. b\<lparr>bf_refcount := r\<rparr>) c) xs D = block_view c xs D"
proof -
  define c' where "c' = upd_buf e (\<lambda>b. b\<lparr>bf_refcount := r\<rparr>) c"
  have same: "buf_num c' = buf_num c" "buf_data c' = buf_data c" "buf_dirty c' = buf_dirty c" "bc_bs c' = bc_bs c"
      "(\<lambda>z. bf_block (bc_bufs c' z)) = (\<lambda>z. bf_block (bc_bufs c z))"
    by (auto simp: c'_def upd_buf_def buf_num_def buf_data_def buf_dirty_def bc_bs_def fun_eq_iff)
  have "entry_ok c' D z" if "entry_ok c D z" for z
    using that assms(2) same(1-4) fun_cong [OF same(5), of z] by (auto simp: entry_ok_def c'_def upd_buf_def)
  then have "entries_ok c' xs D" using assms(1) same by (simp add: bc_inv_def entries_ok_def)
  then show "bc_inv dev (upd_buf e (\<lambda>b. b\<lparr>bf_refcount := r\<rparr>) c) xs D"
    using assms(1) by (simp add: c'_def bc_inv_def bc_base_def upd_buf_def)
  show "block_view (upd_buf e (\<lambda>b. b\<lparr>bf_refcount := r\<rparr>) c) xs D = block_view c xs D"
    unfolding c'_def [symmetric] block_view_def same ..
qed

lemma mx_rep_release:
  assumes "mx_rep s ((e, n) # H) V"
  shows "mx_rep (mx_release e 0 s) H V"
proof -
  define c d where "c = mx_cache s" and "d = mx_disk s"
  obtain xs where xs: "bc_inv MEM_DEV c xs (mem_disk d)" "mem_disk_ok d" "bc_bs c = MINIX_V1_ZONE_SIZE" "block_view c xs (mem_disk d) = V"
      "\<forall>z \<in> set xs. bf_refcount (bc_bufs c z) = int (count_list (map fst ((e, n) # H)) z)"
      "\<forall>(e, n) \<in> set ((e, n) # H). e \<in> set xs \<and> buf_num c e = n" "length ((e, n) # H) \<le> BUFCACHE_MAX"
    using assms unfolding mx_rep_def c_def [symmetric] d_def [symmetric] by blast
  define k where "k = count_list (map fst H) e"
  have e: "e \<in> set xs" using xs(6) by simp
  have "k \<le> length H" unfolding k_def using count_le_length [of "map fst H" e] by simp
  then have k: "to_int (bf_refcount (bc_bufs c e) - 1) = int k"
    using xs(5,7) e by (simp_all add: k_def to_int_id BUFCACHE_MAX_def)
  define c' where "c' = upd_buf e (\<lambda>b. b\<lparr>bf_refcount := int k\<rparr>) c"
  have "mx_release e 0 s = s\<lparr>mx_cache := c'\<rparr>"
    unfolding mx_release_def release_block_def c_def [symmetric] by (simp add: k c'_def upd_buf_def Let_def)
  then have s': "mx_cache (mx_release e 0 s) = c'" "mx_disk (mx_release e 0 s) = d" by (simp_all add: d_def)
  have inv: "bc_inv MEM_DEV c' xs (mem_disk d)" "block_view c' xs (mem_disk d) = V"
    using refcount_change [OF xs(1), of "int k" e] xs(4) by (simp_all add: c'_def)
  have "bc_bs c' = bc_bs c" "buf_num c' = buf_num c" by (simp_all add: c'_def upd_buf_def bc_bs_def buf_num_def fun_eq_iff)
  moreover have "\<forall>z \<in> set xs. bf_refcount (bc_bufs c' z) = int (count_list (map fst H) z)"
    using xs(5) by (auto simp: c'_def upd_buf_def k_def)
  ultimately show ?thesis unfolding mx_rep_def s' using inv xs by (intro exI [of _ xs]) simp
qed

theorem memory_block_store: "fresh_alloc al \<Longrightarrow> block_store (mem_env al) mx_rep"
proof
  show "mx_rep s' H V" if "mx_rep s H V" "mx_cache s' = mx_cache s" "mx_disk s' = mx_disk s" for s s' H V
    using that by (simp add: mx_rep_def)
qed (use mx_rep_get in blast, use mx_rep_data in blast, use mx_rep_update in blast, rule mx_rep_release)

text \<open>An allocator of this kind: it takes addresses above all that are in use.\<close>

fun queue_walk :: "nat \<Rightarrow> nat option \<Rightarrow> bufcache \<Rightarrow> nat list" where
  "queue_walk (Suc k) (Some e) c = e # queue_walk k (node_next (bc_nodes c e)) c"
| "queue_walk _ _ c = []"

definition walk_alloc :: "bufcache \<Rightarrow> nat \<times> nat" where
  "walk_alloc c =
     (let es = queue_walk BUFCACHE_MAX (q_head (bc_blocks c)) c in (Suc (sum_list es), Suc (sum_list (map (\<lambda>e. bf_block (bc_bufs c e)) es))))"

lemma queue_walk_spec:
  "queue_rep q (bc_nodes c) (ys @ xs) \<Longrightarrow> length xs \<le> k \<Longrightarrow> queue_walk k (case xs of [] \<Rightarrow> None | x # _ \<Rightarrow> Some x) c = xs"
proof (induction xs arbitrary: ys k)
  case Nil
  then show ?case by (cases k) simp_all
next
  case (Cons x xs)
  then obtain j where "k = Suc j" by (cases k) auto
  moreover have "node_next (bc_nodes c x) = (case xs of [] \<Rightarrow> None | x # _ \<Rightarrow> Some x)" using queue_rep_next [OF Cons.prems(1)] by simp
  ultimately show ?case using Cons.IH [of "ys @ [x]" j] Cons.prems by simp
qed

lemma above_all: "Suc (sum_list xs) \<notin> set xs" for xs :: "nat list"
  using member_le_sum_list [of "Suc (sum_list xs)" xs] by auto

lemma walk_alloc_fresh: "fresh_alloc walk_alloc"
  unfolding fresh_alloc_def
proof (intro allI impI)
  fix c :: bufcache and xs
  assume q: "queue_rep (bc_blocks c) (bc_nodes c) xs" and len: "length xs \<le> BUFCACHE_MAX"
  have "queue_walk BUFCACHE_MAX (q_head (bc_blocks c)) c = xs"
    using queue_walk_spec [of "bc_blocks c" c "[]" xs] queue_rep_head [OF q] q len by simp
  then show "fst (walk_alloc c) \<notin> set xs \<and> 0 < fst (walk_alloc c) \<and>
      snd (walk_alloc c) \<notin> (\<lambda>e. bf_block (bc_bufs c e)) ` set xs \<and> 0 < snd (walk_alloc c)"
    using above_all [of xs] above_all [of "map (\<lambda>e. bf_block (bc_bufs c e)) xs"] by (simp add: walk_alloc_def)
qed

interpretation memblocks: block_store "mem_env walk_alloc" mx_rep
  by (rule memory_block_store [OF walk_alloc_fresh])

end
