(* ===== verification/Spec2Isabelle.thy ===== *)
theory Spec2Isabelle
  imports Ringbuffer Kmalloc Libc_Time Pipes Irq_Time Minix_Store
begin

text \<open>
  A verification development for gloworm, a Unix-like operating system for the Motorola 68000 family: a kernel
  (\<^verbatim>\<open>src/kernel\<close>, headers in \<^verbatim>\<open>include/kernel\<close>), a C library (\<^verbatim>\<open>src/libc\<close>), and user programs (\<^verbatim>\<open>src/commands\<close>,
  \<^verbatim>\<open>src/boot\<close>, \<^verbatim>\<open>src/monitor\<close>). All paths below are relative to \<^verbatim>\<open>src/\<close>.

  \<^bold>\<open>Parts and how they interact.\<close> Processes live in a table (\<^verbatim>\<open>proc/process.c\<close>); their queue nodes sit in the run
  queue or the blocked queue (\<^verbatim>\<open>utils/queue.h\<close>), between which the scheduler (\<^verbatim>\<open>proc/scheduler.c\<close>), signals
  (\<^verbatim>\<open>proc/signal.c\<close>), timers (\<^verbatim>\<open>proc/timer.c\<close>) and \<^verbatim>\<open>select\<close> (\<^verbatim>\<open>proc/select.c\<close>) move them. Each process has a table of
  open files (\<^verbatim>\<open>proc/filedesc.c\<close>, \<^verbatim>\<open>fs/fileptr.c\<close>) whose entries count their references. Data moves between the
  kernel and its users through iterators over scattered buffers (\<^verbatim>\<open>utils/iovec.c\<close>) and through ring buffers
  (\<^verbatim>\<open>utils/ringbuffer.h\<close>). Memory comes from the page allocator (\<^verbatim>\<open>mm/pages.c\<close>), from which the kernel heap
  (\<^verbatim>\<open>mm/kmalloc.c\<close>) takes its pages. The C library is linked into the kernel and into the programs.

  \<^bold>\<open>Theories.\<close>
  \<^item> \<open>Kernel_Prelude\<close>: C integer types and conversions, error numbers, alignment, shared list and word lemmas.
  \<^item> \<open>Queues\<close> (\<^verbatim>\<open>include/kernel/utils/queue.h\<close>): header and nodes as records over a node memory; \<open>queue_rep\<close>
    relates them to a list. The locale \<open>node_queue\<close> (interpreted as \<open>nq\<close>) is the contract of the queue. Every
    operation refines the list operation, and any valid sequence of them does.
  \<^item> \<open>Iovec\<close> (\<^verbatim>\<open>include/kernel/utils/iovec.h\<close>, \<^verbatim>\<open>src/kernel/utils/iovec.c\<close>): vectors and iterators. The locale \<open>cursor\<close>
    (interpreted as \<open>it\<close>) says that an iterator is a position in one byte sequence; round trips and composition of
    copies follow from it.
  \<^item> \<open>Ringbuffer\<close> (\<^verbatim>\<open>include/kernel/utils/ringbuffer.h\<close>): the ring of characters; locale \<open>bounded_fifo\<close> (\<open>ring\<close>). Order
    of the characters, transfers between iterators, and the calls that corrupt the ring.
  \<^item> \<open>Pages\<close> (\<^verbatim>\<open>src/kernel/mm/pages.c\<close>): bitmap, reference counts and free counter of a block of pages; locale
    \<open>region_allocator\<close> (\<open>page_region\<close>). First fit, agreement of the counters, disjoint regions.
  \<^item> \<open>Kmalloc\<close> (\<^verbatim>\<open>src/kernel/mm/kmalloc.c\<close>): the heap as a free list in memory, its invariant \<open>heap_inv\<close>, runs of
    allocations and frees as an inductive relation. Live allocations are disjoint, \<^verbatim>\<open>kmfree\<close> refines a sorted
    insertion with merging, and in every reachable heap the operations return.
  \<^item> \<open>Files\<close> (\<^verbatim>\<open>src/kernel/fs/fileptr.c\<close>, \<^verbatim>\<open>src/kernel/proc/filedesc.c\<close>, reference counting of \<^verbatim>\<open>src/kernel/fs/vfs.c\<close>):
    the count of an open file is the number of descriptors that refer to it.
  \<^item> \<open>Procs\<close>, \<open>Sched\<close>, \<open>Signals\<close> (\<^verbatim>\<open>src/kernel/proc\<close>): the process structures and every operation of \<^verbatim>\<open>process.c\<close>,
    \<^verbatim>\<open>timer.c\<close>, \<^verbatim>\<open>scheduler.c\<close>, \<^verbatim>\<open>select.c\<close> and \<^verbatim>\<open>signal.c\<close>. \<open>Sched_Inv\<close>: the invariant \<open>sched_inv s R B\<close> (the run queue
    holds exactly the ready processes \<open>R\<close>, the blocked queue exactly the blocked ones \<open>B\<close>) and what each
    operation does to it. \<open>Sched_Run\<close>: runs of the process manager as an inductive relation, the invariant along
    every run, the bound within which the scheduler reaches every ready process, and the operations that lose
    processes or signals.
  \<^item> \<open>Irq_Time\<close> (\<^verbatim>\<open>src/kernel/irq\<close>, \<^verbatim>\<open>src/kernel/time.c\<close>): interrupt actions, bottom halves and the clock. Requests are
    served once and in order, and the clock is exact across wrap-arounds of its counter.
  \<^item> \<open>Devices\<close> (\<^verbatim>\<open>src/kernel/drivers.c\<close>, \<^verbatim>\<open>src/kernel/drivers/block/mem.c\<close>, \<^verbatim>\<open>src/kernel/fs/device.c\<close>,
    \<^verbatim>\<open>src/kernel/fs/partition/msdos.c\<close>, \<^verbatim>\<open>src/kernel/fs/access.c\<close>): drivers and device files. The locale \<open>block_device\<close> is the
    contract of a disk; the memory disk, reached through the driver table, is its interpretation \<open>memdisk\<close>.
  \<^item> \<open>Bufcache\<close> (\<^verbatim>\<open>src/kernel/fs/bufcache.c\<close>): the cache of disk blocks. \<open>block_view\<close> is what its users see; the locale
    \<open>cached_device\<close> extends \<open>block_device\<close> and is interpreted as \<open>memcache\<close>. Loading, recycling and writing back do not
    change the view.
  \<^item> \<open>Minix_Blocks\<close>, \<open>Minix_Store\<close> (\<^verbatim>\<open>src/kernel/fs/minix\<close>): the bitmaps, zones and inodes of the Minix file system over
    the block cache. The locale \<open>block_store\<close> is what the file system relies on in the cache, interpreted as
    \<open>memblocks\<close> on the memory disk.
  \<^item> \<open>Pipes\<close> (\<^verbatim>\<open>src/kernel/fs/pipe.c\<close>): the order of the bytes in a pipe, and what a drained pipe does.
  \<^item> \<open>Libc_Builtins\<close>, \<open>Libc_String\<close>, \<open>Libc_Stdlib\<close>, \<open>Libc_Format\<close>, \<open>Libc_Time\<close> (\<^verbatim>\<open>src/libc\<close>): compiler support
    routines in assembly, string functions, number conversion, \<^verbatim>\<open>vsnprintf\<close>, and calendar time, each related to
    a reference definition on numbers or lists.

  \<^bold>\<open>Bounds.\<close> No definition uses fuel. Loops over counters are recursive with a termination measure. Loops that follow
  pointers are partial functions whose value \<open>None\<close> is a loop that does not end; that they return on well formed
  structures is proved in \<open>Kmalloc\<close> and \<open>Sched_Run\<close>. \<open>None\<close> is also an access outside
  of an object or through \<^verbatim>\<open>NULL\<close>. Sizes of tables are those of the configuration headers.

  \<^bold>\<open>Parameters.\<close> Functions reached through operation tables (file systems, drivers) and the architecture's assembly
  are fields of the records \<open>vfs_env\<close> and \<open>proc_env\<close>. The hypotheses on them (\<open>ops_frame\<close>, \<open>env_keeps_sched\<close>,
  \<open>switch_frame\<close>, \<open>init_frame\<close>, \<open>syscall_keeps_sched\<close>) say that they leave the structures of other parts alone, and
  concrete environments in the theories satisfy them.

  \<^bold>\<open>Not modelled.\<close> Interrupts inside locked sections (they are off there); the assembly of context switches, traps and
  boot code, the MMU tables, and device registers, which are hardware state; memory maps, program loading and
  \<^verbatim>\<open>fork\<close>, which act on those; the VFS layer, which dispatches through function pointers
  into the file systems, and the vnodes and directories of the Minix file system behind it; ext2, procfs and devfs;
  string arrays of \<^verbatim>\<open>exec\<close>; the heap and streams of the C library; the network protocols and sockets; the terminal, disk and
  network drivers; the user programs, which are clients of the system calls; \<^verbatim>\<open>printk\<close> and debug output.
\<close>

end
